(* ===== verification/Prelude.thy ===== *)
theory Prelude
  imports Main "HOL-Library.Sublist"
begin

text \<open>
  Shared vocabulary of the development: bytes and C strings, the libuv status codes the
  sources compare against, reachable states of an event-driven component, and the one
  induction over them that every state machine of the library uses.
\<close>

section \<open>Bytes and C strings\<close>

type_synonym byte = char
type_synonym bytes = "char list"

text \<open>
  A NUL-terminated C string is the list of its characters before the terminator; reading
  at or past the end of that list reads the terminator.
\<close>

definition nul :: char where
  "nul = CHR 0x00"

definition c_at :: "bytes \<Rightarrow> nat \<Rightarrow> char" where
  "c_at s i = (if i < length s then s ! i else nul)"

lemma c_at_Nil [simp]: "c_at [] i = nul"
  by (simp add: c_at_def)

lemma c_at_Cons_0 [simp]: "c_at (c # s) 0 = c"
  by (simp add: c_at_def)

lemma c_at_Cons_Suc [simp]: "c_at (c # s) (Suc i) = c_at s i"
  by (simp add: c_at_def)

lemma takeWhile_stop: "r = [] \<or> \<not> P (hd r) \<Longrightarrow> takeWhile P r = []"
  by (cases r) auto

lemma dropWhile_stop: "r = [] \<or> \<not> P (hd r) \<Longrightarrow> dropWhile P r = r"
  by (cases r) auto

lemma takeWhile_all: "x \<in> set (takeWhile P xs) \<Longrightarrow> P x"
  by (rule set_takeWhileD [THEN conjunct2])

lemma hd_dropWhile_stop: "dropWhile P xs = c # cs \<Longrightarrow> \<not> P c"
  by (metis hd_dropWhile list.discI list.sel(1))

lemma map_leD: "m \<subseteq>\<^sub>m m' \<Longrightarrow> m k = Some x \<Longrightarrow> m' k = Some x"
  by (force simp: map_le_def)

section \<open>Decimal numbers\<close>

text \<open>The decimal notation of \<open>operator<<\<close> and of \<open>%d\<close>, \<open>%lld\<close> and \<open>%zu\<close>.\<close>

fun show_nat :: "nat \<Rightarrow> bytes" where
  "show_nat n = (if n < 10 then [char_of (48 + n)] else show_nat (n div 10) @ [char_of (48 + n mod 10)])"

declare show_nat.simps [simp del]

definition show_int :: "int \<Rightarrow> bytes" where
  "show_int i = (if i < 0 then CHR ''-'' # show_nat (nat (- i)) else show_nat (nat i))"

section \<open>Status codes\<close>

text \<open>
  libuv reports failures as negative errno values. The sources name three of them; the
  values are those of libuv on Linux.
\<close>

definition UV_EOF :: int where "UV_EOF = - 4095"
definition UV_ECANCELED :: int where "UV_ECANCELED = - 125"
definition ENOENT :: int where "ENOENT = 2"

section \<open>Faults\<close>

text \<open>
  What C++ leaves undefined and the models make explicit: a handler that dereferences a null
  pointer, touches a deleted object, writes through a pointer nobody initialised or uses an
  iterator that was erased returns a fault instead of a state.
\<close>

datatype fault = NullDeref | UseAfterFree | WildPointer | BadIterator | AssertFailed

definition bindE :: "'e + 'a \<Rightarrow> ('a \<Rightarrow> 'e + 'b) \<Rightarrow> 'e + 'b" where
  "bindE r f = (case r of Inl e \<Rightarrow> Inl e | Inr x \<Rightarrow> f x)"

lemma bindE_simps [simp]: "bindE (Inl e) f = Inl e" "bindE (Inr x) f = f x"
  by (simp_all add: bindE_def)

lemma bindE_Inr_iff: "bindE r f = Inr y \<longleftrightarrow> (\<exists>x. r = Inr x \<and> f x = Inr y)"
  by (cases r) auto

lemma bindE_assoc: "bindE (bindE r f) g = bindE r (\<lambda>x. bindE (f x) g)"
  by (cases r) auto

lemma bindE_cong [fundef_cong]:
  "r = r' \<Longrightarrow> (\<And>x. r' = Inr x \<Longrightarrow> f x = g x) \<Longrightarrow> bindE r f = bindE r' g"
  by (cases r') auto

section \<open>Event-driven components\<close>

text \<open>
  A component is a set of initial states and a relation \<open>step s e t\<close>: in state \<open>s\<close> the
  event \<open>e\<close> may happen and leads to \<open>t\<close>. \<open>reach\<close> is the set of states an arbitrary
  finite interleaving of events can lead to, \<open>run\<close> relates the two ends of one given
  sequence of events.
\<close>

inductive reach :: "('s \<Rightarrow> bool) \<Rightarrow> ('s \<Rightarrow> 'e \<Rightarrow> 's \<Rightarrow> bool) \<Rightarrow> 's \<Rightarrow> bool"
  for init step where
  reach_init: "init s \<Longrightarrow> reach init step s"
| reach_step: "reach init step s \<Longrightarrow> step s e t \<Longrightarrow> reach init step t"

inductive run :: "('s \<Rightarrow> 'e \<Rightarrow> 's \<Rightarrow> bool) \<Rightarrow> 's \<Rightarrow> 'e list \<Rightarrow> 's \<Rightarrow> bool"
  for step where
  run_Nil: "run step s [] s"
| run_Cons: "step s e t \<Longrightarrow> run step t es u \<Longrightarrow> run step s (e # es) u"

inductive_cases run_ConsE: "run step s (e # es) t"

lemma run_reach: "run step s es t \<Longrightarrow> reach init step s \<Longrightarrow> reach init step t"
  by (induction rule: run.induct) (auto intro: reach_step)

text \<open>Executing a given sequence of events, for components whose steps are functions.\<close>

fun exec_run :: "('s \<Rightarrow> 'e \<Rightarrow> bool) \<Rightarrow> ('e \<Rightarrow> 's \<Rightarrow> fault + 's) \<Rightarrow> 'e list \<Rightarrow> 's \<Rightarrow> 's option" where
  "exec_run ok h [] s = Some s"
| "exec_run ok h (e # es) s = (if ok s e then case h e s of Inl f \<Rightarrow> None | Inr t \<Rightarrow> exec_run ok h es t else None)"

lemma exec_run_run:
  "exec_run ok h es s = Some t \<Longrightarrow> (\<And>s e t. ok s e \<Longrightarrow> h e s = Inr t \<Longrightarrow> step s e t) \<Longrightarrow> run step s es t"
proof (induction es arbitrary: s)
  case Nil
  then show ?case by (simp add: run_Nil)
next
  case (Cons e es)
  then obtain u where "ok s e" "h e s = Inr u" "exec_run ok h es u = Some t"
    by (auto split: if_splits sum.splits)
  with Cons show ?case by (blast intro: run_Cons)
qed

text \<open>
  The contract of an inductive invariant. What is proved once here (every reachable state
  satisfies it, a run from a state that satisfies it ends in one that does) is what each
  component gets by its interpretation.
\<close>

locale invariant_system =
  fixes init :: "'s \<Rightarrow> bool"
    and step :: "'s \<Rightarrow> 'e \<Rightarrow> 's \<Rightarrow> bool"
    and inv :: "'s \<Rightarrow> bool"
  assumes inv_init: "init s \<Longrightarrow> inv s"
    and inv_step: "inv s \<Longrightarrow> step s e t \<Longrightarrow> inv t"
begin

lemma reach_inv: "reach init step s \<Longrightarrow> inv s"
  by (induction rule: reach.induct) (auto intro: inv_init inv_step)

lemma run_inv: "run step s es t \<Longrightarrow> inv s \<Longrightarrow> inv t"
  by (induction rule: run.induct) (auto intro: inv_step)

end

end
