(* ===== verification/Urls.thy ===== *)
theory Urls
  imports Prelude
begin

text \<open>
  The URL utilities of \<open>src/url.cc\<close>: percent decoding, \<open>ParseUrl\<close> and
  \<open>ParseQueryString\<close>. C strings are lists of characters before the terminator; the
  scanning loops of \<open>ParseUrl\<close> are \<open>takeWhile\<close>/\<open>dropWhile\<close> on the text that is
  left, the two-state machine of \<open>ParseQueryString\<close> is a recursion over its input with the
  state, the two accumulators and the calls made so far.
\<close>

section \<open>Percent decoding\<close>

abbreviation ord_of :: "char \<Rightarrow> nat" where
  "ord_of c \<equiv> of_char c"

definition isxdigit :: "char \<Rightarrow> bool" where
  "isxdigit c \<longleftrightarrow> (48 \<le> ord_of c \<and> ord_of c \<le> 57) \<or> (65 \<le> ord_of c \<and> ord_of c \<le> 70)
     \<or> (97 \<le> ord_of c \<and> ord_of c \<le> 102)"

definition toupper :: "nat \<Rightarrow> nat" where
  "toupper n = (if 97 \<le> n \<and> n \<le> 122 then n - 32 else n)"

definition hex_digit :: "char \<Rightarrow> nat" where
  "hex_digit c = (if ord_of c < 65 then ord_of c - 48 else toupper (ord_of c) - 65 + 10)"

text \<open>
  \<open>DecodeUrlComponent src dst\<close>: the bytes written before the final NUL; the number the
  code returns is the number of loop iterations, one per byte written.
\<close>

fun decode_loop :: "bytes \<Rightarrow> bytes" where
  "decode_loop [] = []"
| "decode_loop (c # s) =
     (if c = CHR ''%'' \<and> isxdigit (c_at s 0) \<and> isxdigit (c_at s 1)
      then char_of (hex_digit (c_at s 0) * 16 + hex_digit (c_at s 1)) # decode_loop (drop 2 s)
      else if c = CHR ''+'' then CHR '' '' # decode_loop s
      else c # decode_loop s)"

definition DecodeUrlComponent :: "bytes \<Rightarrow> bytes \<times> nat" where
  "DecodeUrlComponent src = (let dst = decode_loop src in (dst @ [nul], length dst))"

section \<open>ParseUrl\<close>

record Url =
  url_scheme :: bytes
  url_host :: bytes
  url_port :: bytes
  url_path :: bytes
  url_query :: bytes
  url_fragment :: bytes

definition clear_url :: Url where
  "clear_url = \<lparr>url_scheme = [], url_host = [], url_port = [], url_path = [], url_query = [], url_fragment = []\<rparr>"

definition url_equal :: "Url \<Rightarrow> Url \<Rightarrow> bool" where
  "url_equal a b \<longleftrightarrow> url_scheme a = url_scheme b \<and> url_host a = url_host b \<and> url_port a = url_port b \<and> url_path a = url_path b
     \<and> url_query a = url_query b \<and> url_fragment a = url_fragment b"

lemma url_equal_iff: "url_equal a b \<longleftrightarrow> a = b"
  by (cases a; cases b) (auto simp: url_equal_def)

text \<open>\<open>strstr\<close>: the text before the first occurrence and the text from it on.\<close>

fun strstr :: "bytes \<Rightarrow> bytes \<Rightarrow> (bytes \<times> bytes) option" where
  "strstr pat [] = (if pat = [] then Some ([], []) else None)"
| "strstr pat (c # s) =
     (if prefix pat (c # s) then Some ([], c # s)
      else map_option (\<lambda>(pre, suf). (c # pre, suf)) (strstr pat s))"

text \<open>The conditions under which the scanning loops go on.\<close>

definition host_char :: "char \<Rightarrow> bool" where
  "host_char c \<longleftrightarrow> c \<noteq> CHR '':'' \<and> c \<noteq> CHR ''/'' \<and> c \<noteq> CHR ''?'' \<and> c \<noteq> CHR ''#''"

definition port_char :: "char \<Rightarrow> bool" where
  "port_char c \<longleftrightarrow> c \<noteq> CHR ''/'' \<and> c \<noteq> CHR ''?'' \<and> c \<noteq> CHR ''#''"

definition path_char :: "char \<Rightarrow> bool" where
  "path_char c \<longleftrightarrow> c \<noteq> CHR ''?'' \<and> c \<noteq> CHR ''#''"

definition query_char :: "char \<Rightarrow> bool" where
  "query_char c \<longleftrightarrow> c \<noteq> CHR ''#''"

definition parse_port :: "Url \<Rightarrow> bytes \<Rightarrow> Url \<times> bytes" where
  "parse_port u s =
     (if c_at s 0 = CHR '':''
      then (u\<lparr>url_port := takeWhile port_char (tl s)\<rparr>, dropWhile port_char (tl s))
      else (u, s))"

definition parse_authority :: "Url \<Rightarrow> bytes \<Rightarrow> Url \<times> bytes" where
  "parse_authority u s =
     (case strstr ''://'' s of
        None \<Rightarrow> (u, s)
      | Some (pre, suf) \<Rightarrow>
          let s = drop 3 suf
          in parse_port (u\<lparr>url_scheme := pre, url_host := takeWhile host_char s\<rparr>)
               (dropWhile host_char s))"

definition parse_path :: "Url \<Rightarrow> bytes \<Rightarrow> Url \<times> bytes" where
  "parse_path u s =
     (let lead = (if s \<noteq> [] \<and> c_at s 0 \<noteq> CHR ''/'' then ''/'' else [])
      in (u\<lparr>url_path := lead @ takeWhile path_char s\<rparr>, dropWhile path_char s))"

definition parse_query :: "Url \<Rightarrow> bytes \<Rightarrow> Url \<times> bytes" where
  "parse_query u s =
     (if c_at s 0 = CHR ''?''
      then (u\<lparr>url_query := takeWhile query_char (tl s)\<rparr>, dropWhile query_char (tl s))
      else (u, s))"

definition parse_fragment :: "Url \<Rightarrow> bytes \<Rightarrow> Url" where
  "parse_fragment u s = (if c_at s 0 = CHR ''#'' then u\<lparr>url_fragment := tl s\<rparr> else u)"

text \<open>The argument is a C string: the characters before the terminator, which no loop goes past.\<close>

definition ParseUrl :: "bytes \<Rightarrow> Url" where
  "ParseUrl s =
     (let (u1, s1) = parse_authority clear_url s;
          (u2, s2) = parse_path u1 s1;
          (u3, s3) = parse_query u2 s2
      in parse_fragment u3 s3)"

section \<open>ParseQueryString\<close>

datatype qs_state = QKey | QValue

definition run_cb :: "bytes \<Rightarrow> bytes \<Rightarrow> (bytes \<times> bytes) list \<Rightarrow> (bytes \<times> bytes) list" where
  "run_cb key value calls = (if length key > 0 \<or> length value > 0 then calls @ [(key, value)] else calls)"

fun qs_loop :: "qs_state \<Rightarrow> bytes \<Rightarrow> bytes \<Rightarrow> (bytes \<times> bytes) list \<Rightarrow> bytes \<Rightarrow> (bytes \<times> bytes) list" where
  "qs_loop st key value calls [] = run_cb key value calls"
| "qs_loop QKey key value calls (c # s) =
     (if c = CHR ''='' then qs_loop QValue key value calls s
      else if c = CHR ''&'' then qs_loop QKey [] [] (run_cb key value calls) s
      else qs_loop QKey (key @ [c]) value calls s)"
| "qs_loop QValue key value calls (c # s) =
     (if c = CHR ''&'' then qs_loop QKey [] [] (run_cb key value calls) s
      else qs_loop QValue key (value @ [c]) calls s)"

definition ParseQueryString :: "bytes \<Rightarrow> (bytes \<times> bytes) list" where
  "ParseQueryString qs = qs_loop QKey [] [] [] qs"

section \<open>Percent decoding inverts percent encoding\<close>

text \<open>
  The encoder is the abstract side of the contract: unreserved characters stand for
  themselves, a space may be written as a plus sign, every other byte is escaped.
\<close>

definition hex_char :: "nat \<Rightarrow> char" where
  "hex_char n = char_of (if n < 10 then 48 + n else 55 + n)"

definition encode_byte :: "char \<Rightarrow> bytes" where
  "encode_byte c =
     (if c = CHR '' '' then ''+''
      else if c = CHR ''%'' \<or> c = CHR ''+'' \<or> \<not> (33 \<le> ord_of c \<and> ord_of c \<le> 126)
      then [CHR ''%'', hex_char (ord_of c div 16), hex_char (ord_of c mod 16)]
      else [c])"

definition encode_component :: "bytes \<Rightarrow> bytes" where
  "encode_component s = concat (map encode_byte s)"

lemma hex_char_cases:
  "n < 16 \<Longrightarrow> isxdigit (hex_char n) \<and> hex_digit (hex_char n) = n"
  by (auto simp: hex_char_def isxdigit_def hex_digit_def toupper_def)

lemma decode_escape:
  "m < 16 \<Longrightarrow> n < 16 \<Longrightarrow>
   decode_loop (CHR ''%'' # hex_char m # hex_char n # s) = char_of (m * 16 + n) # decode_loop s"
  using hex_char_cases [of m] hex_char_cases [of n] by (simp add: numeral_2_eq_2)

lemma decode_encode_byte: "decode_loop (encode_byte c @ s) = c # decode_loop s"
proof (cases "c \<noteq> CHR '' '' \<and> (c = CHR ''%'' \<or> c = CHR ''+'' \<or> \<not> (33 \<le> ord_of c \<and> ord_of c \<le> 126))")
  case True
  have "ord_of c < 16 * 16"
    using nat_of_char_less_256 [of c] by simp
  then have "ord_of c div 16 < 16" and "ord_of c mod 16 < 16"
    by (auto simp: less_mult_imp_div_less)
  moreover have "ord_of c div 16 * 16 + ord_of c mod 16 = ord_of c"
    by simp
  ultimately have "decode_loop (CHR ''%'' # hex_char (ord_of c div 16) # hex_char (ord_of c mod 16) # s)
      = char_of (ord_of c) # decode_loop s"
    by (simp only: decode_escape)
  with True show ?thesis by (simp add: encode_byte_def del: decode_loop.simps)
next
  case False
  then show ?thesis by (auto simp: encode_byte_def)
qed

lemma decode_encode: "decode_loop (encode_component s) = s"
  by (induction s) (simp_all add: encode_component_def decode_encode_byte)

lemma length_decode_le: "length (decode_loop s) \<le> length s"
  by (induction s rule: decode_loop.induct) (auto simp: le_SucI)

lemma decode_plain:
  "CHR ''%'' \<notin> set s \<Longrightarrow> CHR ''+'' \<notin> set s \<Longrightarrow> decode_loop s = s"
  by (induction s) auto

section \<open>ParseUrl against a printer\<close>

lemma strstr_Some:
  "strstr pat s = Some (pre, suf) \<Longrightarrow> pat \<noteq> [] \<Longrightarrow>
   s = pre @ suf \<and> prefix pat suf \<and> strstr pat pre = None"
proof (induction pat s arbitrary: pre suf rule: strstr.induct)
  case (1 pat)
  then show ?case by simp
next
  case (2 pat c s)
  show ?case
  proof (cases "prefix pat (c # s)")
    case True
    with 2 show ?thesis by auto
  next
    case False
    with 2 obtain pre' where pre: "pre = c # pre'" and rec: "strstr pat s = Some (pre', suf)"
      by auto
    from "2.IH" [OF False rec "2.prems"(2)]
    have IH: "s = pre' @ suf" "prefix pat suf" "strstr pat pre' = None" by auto
    have "\<not> prefix pat (c # pre')"
      using False IH(1) by (metis append_Cons prefix_prefix)
    with IH pre show ?thesis by simp
  qed
qed

lemma prefix_sep_Cons:
  "\<not> prefix ''://'' (c # s) \<Longrightarrow> \<not> prefix ''://'' (c # s @ CHR '':'' # r)"
  by (cases s; cases "tl s") auto

lemma strstr_sep_append:
  "strstr ''://'' s = None \<Longrightarrow> strstr ''://'' (s @ ''://'' @ r) = Some (s, ''://'' @ r)"
proof (induction s)
  case Nil
  then show ?case by simp
next
  case (Cons c s)
  from Cons.prems have "\<not> prefix ''://'' (c # s)" and none: "strstr ''://'' s = None"
    by (auto split: if_splits)
  then have "\<not> prefix ''://'' (c # s @ ''://'' @ r)"
    using prefix_sep_Cons [of c s "''//'' @ r"] by simp
  with Cons.IH [OF none] show ?case by simp
qed

text \<open>What every result of \<open>ParseUrl\<close> satisfies, and the printer that inverts it.\<close>

definition url_wf :: "Url \<Rightarrow> bool" where
  "url_wf u \<longleftrightarrow>
     strstr ''://'' (url_scheme u) = None
   \<and> list_all host_char (url_host u) \<and> list_all port_char (url_port u)
   \<and> list_all path_char (url_path u) \<and> list_all query_char (url_query u)
   \<and> (url_path u = [] \<longrightarrow> url_query u = [] \<and> url_fragment u = [])
   \<and> (url_path u \<noteq> [] \<longrightarrow> hd (url_path u) = CHR ''/'')"

definition opt_part :: "char \<Rightarrow> bytes \<Rightarrow> bytes" where
  "opt_part c s = (if s = [] then [] else c # s)"

definition render_rest :: "Url \<Rightarrow> bytes" where
  "render_rest u = url_path u @ opt_part (CHR ''?'') (url_query u)
     @ opt_part (CHR ''#'') (url_fragment u)"

definition render_url :: "Url \<Rightarrow> bytes" where
  "render_url u = url_scheme u @ ''://'' @ url_host u @ opt_part (CHR '':'') (url_port u)
     @ render_rest u"

lemma delimiters [simp]:
  "\<not> host_char (CHR '':'')" "\<not> host_char (CHR ''/'')" "\<not> port_char (CHR ''/'')"
  "\<not> path_char (CHR ''?'')" "\<not> path_char (CHR ''#'')" "\<not> query_char (CHR ''#'')"
  "path_char (CHR ''/'')"
  by (simp_all add: host_char_def port_char_def path_char_def query_char_def)

lemma stop_opt_part:
  "\<not> P c \<Longrightarrow> r = [] \<or> \<not> P (hd r) \<Longrightarrow> opt_part c ys @ r = [] \<or> \<not> P (hd (opt_part c ys @ r))"
  by (simp add: opt_part_def)

lemma take_stop: "list_all P xs \<Longrightarrow> r = [] \<or> \<not> P (hd r) \<Longrightarrow> takeWhile P (xs @ r) = xs"
  by (simp add: list_all_iff takeWhile_stop)

lemma drop_stop: "list_all P xs \<Longrightarrow> r = [] \<or> \<not> P (hd r) \<Longrightarrow> dropWhile P (xs @ r) = r"
  by (simp add: list_all_iff dropWhile_stop)

lemma takeWhile_list_all [simp]: "list_all P (takeWhile P xs)"
  by (auto simp: list_all_iff dest: takeWhile_all)

lemma render_rest_head:
  "url_wf u \<Longrightarrow> render_rest u = [] \<or> hd (render_rest u) = CHR ''/''"
  by (cases "url_path u") (simp_all add: url_wf_def render_rest_def opt_part_def)

lemma parse_port_render:
  assumes "list_all port_char p" "r = [] \<or> hd r = CHR ''/''"
  shows "parse_port v (opt_part (CHR '':'') p @ r) =
    (v\<lparr>url_port := if p = [] then url_port v else p\<rparr>, r)"
proof (cases "p = []")
  case True
  with assms(2) show ?thesis by (cases r) (auto simp: parse_port_def opt_part_def nul_def)
next
  case False
  have "r = [] \<or> \<not> port_char (hd r)" using assms(2) by auto
  with False assms(1) show ?thesis
    by (simp add: parse_port_def opt_part_def take_stop drop_stop)
qed

lemma parse_authority_render:
  assumes "url_wf u"
  shows "parse_authority clear_url (render_url u) =
    (clear_url\<lparr>url_scheme := url_scheme u, url_host := url_host u, url_port := url_port u\<rparr>,
     render_rest u)"
proof -
  let ?tail = "opt_part (CHR '':'') (url_port u) @ render_rest u"
  have wf: "list_all host_char (url_host u)" "list_all port_char (url_port u)"
    and sep: "strstr ''://'' (url_scheme u) = None"
    using assms by (auto simp: url_wf_def)
  have rest: "render_rest u = [] \<or> hd (render_rest u) = CHR ''/''"
    using assms by (rule render_rest_head)
  then have stop: "render_rest u = [] \<or> \<not> host_char (hd (render_rest u))"
    by auto
  have "strstr ''://'' (render_url u) = Some (url_scheme u, ''://'' @ url_host u @ ?tail)"
    using strstr_sep_append [OF sep] by (simp add: render_url_def)
  then have "parse_authority clear_url (render_url u) =
      parse_port (clear_url\<lparr>url_scheme := url_scheme u,
        url_host := takeWhile host_char (url_host u @ ?tail)\<rparr>)
        (dropWhile host_char (url_host u @ ?tail))"
    by (simp add: parse_authority_def Let_def)
  also have "\<dots> = parse_port (clear_url\<lparr>url_scheme := url_scheme u, url_host := url_host u\<rparr>) ?tail"
    using stop_opt_part [of host_char, OF delimiters(1) stop, of "url_port u"]
    by (simp only: take_stop [OF wf(1)] drop_stop [OF wf(1)])
  also have "\<dots> = (clear_url\<lparr>url_scheme := url_scheme u, url_host := url_host u,
      url_port := url_port u\<rparr>, render_rest u)"
    by (simp add: parse_port_render [OF wf(2) rest] clear_url_def)
  finally show ?thesis .
qed

lemma parse_fragment_render:
  "parse_fragment v (opt_part (CHR ''#'') f) =
     v\<lparr>url_fragment := if f = [] then url_fragment v else f\<rparr>"
  by (simp add: parse_fragment_def opt_part_def nul_def)

lemma parse_query_render:
  "list_all query_char q \<Longrightarrow>
   parse_query v (opt_part (CHR ''?'') q @ opt_part (CHR ''#'') f) =
     (v\<lparr>url_query := if q = [] then url_query v else q\<rparr>, opt_part (CHR ''#'') f)"
  using take_stop [of query_char q "opt_part (CHR ''#'') f"]
    drop_stop [of query_char q "opt_part (CHR ''#'') f"]
  by (cases "f = []") (auto simp: parse_query_def opt_part_def nul_def)

lemma parse_path_render:
  assumes "url_wf u"
  shows "parse_path v (render_rest u) = (v\<lparr>url_path := url_path u\<rparr>,
     opt_part (CHR ''?'') (url_query u) @ opt_part (CHR ''#'') (url_fragment u))"
proof -
  let ?r = "opt_part (CHR ''?'') (url_query u) @ opt_part (CHR ''#'') (url_fragment u)"
  have p: "list_all path_char (url_path u)" and r: "?r = [] \<or> \<not> path_char (hd ?r)"
    using assms by (auto simp: url_wf_def opt_part_def)
  have lead: "render_rest u = [] \<or> c_at (render_rest u) 0 = CHR ''/''"
    using render_rest_head [OF assms] by (cases "render_rest u") auto
  show ?thesis
    using lead take_stop [OF p r] drop_stop [OF p r]
    by (auto simp: parse_path_def Let_def render_rest_def)
qed

lemma ParseUrl_render:
  assumes "url_wf u"
  shows "ParseUrl (render_url u) = u"
proof -
  have q: "list_all query_char (url_query u)"
    using assms by (simp add: url_wf_def)
  show ?thesis
    by (simp add: ParseUrl_def parse_authority_render [OF assms] parse_path_render [OF assms]
        parse_query_render [OF q] parse_fragment_render) (simp add: clear_url_def)
qed

lemma parse_port_wf:
  "parse_port u s = (v, r) \<Longrightarrow> list_all port_char (url_port u) \<Longrightarrow>
   list_all port_char (url_port v) \<and> (\<exists>p. v = u\<lparr>url_port := p\<rparr>)"
  by (auto simp: parse_port_def split: if_splits intro: exI [of _ "url_port u"])

lemma parse_authority_wf:
  "parse_authority clear_url s = (u, r) \<Longrightarrow>
   strstr ''://'' (url_scheme u) = None \<and> list_all host_char (url_host u)
   \<and> list_all port_char (url_port u) \<and> url_path u = [] \<and> url_query u = [] \<and> url_fragment u = []"
  by (auto simp: parse_authority_def clear_url_def Let_def
      split: option.splits dest!: parse_port_wf strstr_Some)

lemma parse_rest_wf:
  assumes "parse_path u s = (v, r)" "url_query u = []" "url_fragment u = []"
    "parse_query v r = (w, t)" "x = parse_fragment w t"
  shows "list_all path_char (url_path x) \<and> list_all query_char (url_query x)
    \<and> (url_path x = [] \<longrightarrow> url_query x = [] \<and> url_fragment x = [])
    \<and> (url_path x \<noteq> [] \<longrightarrow> hd (url_path x) = CHR ''/'')
    \<and> url_scheme x = url_scheme u \<and> url_host x = url_host u \<and> url_port x = url_port u"
  using assms
  by (cases s) (auto simp: parse_path_def parse_query_def parse_fragment_def Let_def nul_def
      split: if_splits)

lemma ParseUrl_wf: "url_wf (ParseUrl s)"
proof -
  obtain u r where ur: "parse_authority clear_url s = (u, r)" by force
  obtain v t where vt: "parse_path u r = (v, t)" by force
  obtain w q where wq: "parse_query v t = (w, q)" by force
  note auth = parse_authority_wf [OF ur]
  have "url_query u = []" and "url_fragment u = []"
    using auth by blast+
  note rest = parse_rest_wf [OF vt this wq refl]
  have "ParseUrl s = parse_fragment w q"
    by (simp add: ParseUrl_def ur vt wq)
  then show ?thesis
    unfolding url_wf_def using auth rest by metis
qed

section \<open>ParseQueryString against splitting\<close>

text \<open>
  The reference: cut the text at every ampersand, cut each field at its first equals sign,
  and drop the fields in which both parts are empty.
\<close>

fun split_amp :: "bytes \<Rightarrow> bytes \<Rightarrow> bytes list" where
  "split_amp acc [] = [acc]"
| "split_amp acc (c # s) = (if c = CHR ''&'' then acc # split_amp [] s else split_amp (acc @ [c]) s)"

definition pair_of :: "bytes \<Rightarrow> bytes \<times> bytes" where
  "pair_of f = (takeWhile (\<lambda>c. c \<noteq> CHR ''='') f, drop 1 (dropWhile (\<lambda>c. c \<noteq> CHR ''='') f))"

definition field_pairs :: "bytes \<Rightarrow> (bytes \<times> bytes) list" where
  "field_pairs f = (if pair_of f = ([], []) then [] else [pair_of f])"

definition pairs_of :: "bytes list \<Rightarrow> (bytes \<times> bytes) list" where
  "pairs_of fs = concat (map field_pairs fs)"

lemma pair_of_key: "CHR ''='' \<notin> set k \<Longrightarrow> pair_of k = (k, [])"
  by (induction k) (auto simp: pair_of_def)

lemma pair_of_key_value: "CHR ''='' \<notin> set k \<Longrightarrow> pair_of (k @ CHR ''='' # v) = (k, v)"
  by (induction k) (auto simp: pair_of_def)

lemma run_cb_pair: "pair_of f = (k, v) \<Longrightarrow> run_cb k v calls = calls @ field_pairs f"
  by (auto simp: run_cb_def field_pairs_def)

lemma pairs_of_simps [simp]:
  "pairs_of [] = []" "pairs_of (f # fs) = field_pairs f @ pairs_of fs"
  by (simp_all add: pairs_of_def)

lemma qs_loop_eq:
  assumes "CHR ''='' \<notin> set k"
  shows "qs_loop QKey k [] calls s = calls @ pairs_of (split_amp k s)"
    and "qs_loop QValue k v calls s = calls @ pairs_of (split_amp (k @ CHR ''='' # v) s)"
  using assms
proof (induction s arbitrary: k v calls)
  case Nil
  {
    case 1
    then show ?case by (simp add: run_cb_pair [OF pair_of_key])
  next
    case 2
    then show ?case by (simp add: run_cb_pair [OF pair_of_key_value])
  }
next
  case (Cons c s)
  {
    case 1
    then show ?case
      using Cons.IH(1) [of "k @ [c]"] Cons.IH(1) [of "[]"] Cons.IH(2) [of k]
      by (simp add: run_cb_pair [OF pair_of_key])
  next
    case 2
    then show ?case
      using Cons.IH(1) [of "[]"] Cons.IH(2) [of k "v @ [c]"]
      by (simp add: run_cb_pair [OF pair_of_key_value])
  }
qed

lemma ParseQueryString_eq: "ParseQueryString qs = pairs_of (split_amp [] qs)"
  by (simp add: ParseQueryString_def qs_loop_eq(1))

fun render_qs :: "(bytes \<times> bytes) list \<Rightarrow> bytes" where
  "render_qs [] = []"
| "render_qs [(k, v)] = k @ CHR ''='' # v"
| "render_qs ((k, v) # p # ps) = k @ CHR ''='' # v @ CHR ''&'' # render_qs (p # ps)"

definition qs_pair_ok :: "bytes \<times> bytes \<Rightarrow> bool" where
  "qs_pair_ok p \<longleftrightarrow> CHR ''='' \<notin> set (fst p) \<and> CHR ''&'' \<notin> set (fst p)
     \<and> CHR ''&'' \<notin> set (snd p) \<and> (fst p \<noteq> [] \<or> snd p \<noteq> [])"

lemma split_amp_field: "CHR ''&'' \<notin> set x \<Longrightarrow> split_amp acc (x @ CHR ''&'' # r) = (acc @ x) # split_amp [] r"
  by (induction x arbitrary: acc) auto

lemma split_amp_last: "CHR ''&'' \<notin> set x \<Longrightarrow> split_amp acc x = [acc @ x]"
  by (induction x arbitrary: acc) auto

lemma pairs_of_ok: "qs_pair_ok (k, v) \<Longrightarrow> field_pairs (k @ CHR ''='' # v) = [(k, v)]"
  by (auto simp: field_pairs_def qs_pair_ok_def pair_of_key_value)

lemma ParseQueryString_render:
  "list_all qs_pair_ok ps \<Longrightarrow> ParseQueryString (render_qs ps) = ps"
proof (induction ps rule: render_qs.induct)
  case 1
  then show ?case by (simp add: ParseQueryString_eq field_pairs_def pair_of_def)
next
  case (2 k v)
  then have "CHR ''&'' \<notin> set (k @ CHR ''='' # v)"
    by (simp add: qs_pair_ok_def)
  with 2 show ?case
    by (simp add: ParseQueryString_eq split_amp_last pairs_of_ok)
next
  case (3 k v p ps)
  then have "CHR ''&'' \<notin> set (k @ CHR ''='' # v)"
    by (simp add: qs_pair_ok_def)
  from split_amp_field [OF this, of "[]" "render_qs (p # ps)"] 3
  show ?case
    by (simp add: ParseQueryString_eq pairs_of_ok)
qed

section \<open>Properties\<close>

text \<open>
  Decoding a percent-encoded string gives back the original bytes, NUL-terminated, and
  returns their number.
\<close>

theorem percent_roundtrip: "DecodeUrlComponent (encode_component s) = (s @ [nul], length s)"
  by (simp add: DecodeUrlComponent_def decode_encode)

text \<open>
  Every result of \<open>ParseUrl\<close> is well formed (no delimiter is left in a component, the path
  is empty or starts with a slash), and printing and parsing it again changes nothing.
\<close>

theorem parse_url_canonical:
  "url_wf (ParseUrl s) \<and> ParseUrl (render_url (ParseUrl s)) = ParseUrl s"
  by (simp add: ParseUrl_wf ParseUrl_render)

text \<open>C16: parsing the printed form of any well-formed URL recovers all six components.\<close>

theorem parse_url_roundtrip:
  assumes "url_wf u"
  shows "ParseUrl (render_url u) = u"
  using assms by (rule ParseUrl_render)

theorem parse_url_roundtrip_witness:
  "ParseUrl ''http://h:80/p?q=1#f'' =
    \<lparr>url_scheme = ''http'', url_host = ''h'', url_port = ''80'', url_path = ''/p'',
     url_query = ''q=1'', url_fragment = ''f''\<rparr>"
  using parse_url_roundtrip [of "\<lparr>url_scheme = ''http'', url_host = ''h'', url_port = ''80'',
    url_path = ''/p'', url_query = ''q=1'', url_fragment = ''f''\<rparr>"]
  by (simp add: url_wf_def render_url_def render_rest_def opt_part_def host_char_def
      port_char_def path_char_def query_char_def)

text \<open>
  C17: \<open>ParseQueryString\<close> calls back with the fields between ampersands, in order, each cut at
  its first equals sign, leaving out the fields where both parts are empty; in particular it is
  the inverse of joining pairs.
\<close>

theorem query_string_reference:
  "ParseQueryString qs = pairs_of (split_amp [] qs)
    \<and> (list_all qs_pair_ok ps \<longrightarrow> ParseQueryString (render_qs ps) = ps)"
  using ParseQueryString_eq [of qs] ParseQueryString_render [of ps] by blast

theorem query_string_reference_witness:
  "ParseQueryString ''a=1&b=&=2'' = [(''a'', ''1''), (''b'', []), ([], ''2'')]"
  using query_string_reference [of "[]" "[(''a'', ''1''), (''b'', []), ([], ''2'')]"]
  by (simp add: qs_pair_ok_def)

end
