(* ===== verification/FunctionLists.thy ===== *)
theory FunctionLists
  imports Prelude
begin

text \<open>
  \<open>include/function_list.h\<close>: the listener lists every component publishes its events with.
  The \<open>std::list\<close> is a list of nodes with an identity (its iterator stays valid until the
  node is erased); \<open>Add\<close> returns the identity, which is all the \<open>Remove\<close> closure holds.
\<close>

record 'f flist =
  nodes :: "(nat \<times> 'f) list"
  next_node :: nat

definition empty_flist :: "'f flist" where
  "empty_flist = \<lparr>nodes = [], next_node = 0\<rparr>"

definition Add :: "'f \<Rightarrow> 'f flist \<Rightarrow> 'f flist \<times> nat" where
  "Add f l = (l\<lparr>nodes := nodes l @ [(next_node l, f)], next_node := Suc (next_node l)\<rparr>, next_node l)"

definition Remove :: "nat \<Rightarrow> 'f flist \<Rightarrow> fault + 'f flist" where
  "Remove it l = (if it \<in> fst ` set (nodes l)
     then Inr (l\<lparr>nodes := filter (\<lambda>n. fst n \<noteq> it) (nodes l)\<rparr>) else Inl BadIterator)"

text \<open>
  \<open>Invoke\<close> walks the live list: a listener is a function of the list and of the rest of the
  program's state, so it may add or remove listeners while the walk is going on. The walk
  continues from the node after the one just called; when that node is gone the iterator is
  invalid. The walk may not end (a listener may add another one each time), hence fuel.
\<close>

definition successors :: "nat \<Rightarrow> 'f flist \<Rightarrow> fault + (nat \<times> 'f) list" where
  "successors it l = (case dropWhile (\<lambda>n. fst n \<noteq> it) (nodes l) of
     [] \<Rightarrow> Inl BadIterator | n # rest \<Rightarrow> Inr rest)"

type_synonym ('f, 's) listener = "'f \<Rightarrow> 'f flist \<times> 's \<Rightarrow> fault + 'f flist \<times> 's"

fun walk :: "nat \<Rightarrow> ('f, 's) listener \<Rightarrow> (nat \<times> 'f) list \<Rightarrow> 'f flist \<times> 's
    \<Rightarrow> (fault + 'f flist \<times> 's) option" where
  "walk fuel call [] ls = Some (Inr ls)"
| "walk 0 call (n # rest) ls = None"
| "walk (Suc fuel) call (n # rest) ls =
     (case call (snd n) ls of
        Inl e \<Rightarrow> Some (Inl e)
      | Inr (l, s) \<Rightarrow>
          (case successors (fst n) l of
             Inl e \<Rightarrow> Some (Inl e)
           | Inr rest' \<Rightarrow> walk fuel call rest' (l, s)))"

definition Invoke :: "nat \<Rightarrow> ('f, 's) listener \<Rightarrow> 'f flist \<times> 's \<Rightarrow> (fault + 'f flist \<times> 's) option" where
  "Invoke fuel call ls = walk fuel call (nodes (fst ls)) ls"

text \<open>Where no listener touches the list itself, a walk is a fold over the listeners.\<close>

fun invoke :: "('f \<Rightarrow> 's \<Rightarrow> fault + 's) \<Rightarrow> 'f list \<Rightarrow> 's \<Rightarrow> fault + 's" where
  "invoke call [] s = Inr s"
| "invoke call (f # fs) s = bindE (call f s) (invoke call fs)"

definition quiet :: "('f \<Rightarrow> 's \<Rightarrow> fault + 's) \<Rightarrow> ('f, 's) listener" where
  "quiet call f ls = bindE (call f (snd ls)) (\<lambda>s. Inr (fst ls, s))"

section \<open>Identities are never reused\<close>

definition flist_wf :: "'f flist \<Rightarrow> bool" where
  "flist_wf l \<longleftrightarrow> distinct (map fst (nodes l)) \<and> (\<forall>i \<in> fst ` set (nodes l). i < next_node l)"

lemma flist_wf_empty: "flist_wf empty_flist"
  by (simp add: flist_wf_def empty_flist_def)

lemma flist_wf_fresh: "flist_wf l \<Longrightarrow> (next_node l, f) \<notin> set (nodes l)"
  by (force simp: flist_wf_def)

lemma flist_wf_Add: "flist_wf l \<Longrightarrow> Add f l = (l', it) \<Longrightarrow> flist_wf l'"
  by (fastforce simp: flist_wf_def Add_def)

lemma flist_wf_Remove: "flist_wf l \<Longrightarrow> Remove it l = Inr l' \<Longrightarrow> flist_wf l'"
  by (force simp: flist_wf_def Remove_def distinct_map_filter split: if_splits)

text \<open>\<open>Remove\<close> undoes its own \<open>Add\<close> whatever was added or removed in between.\<close>

definition listeners :: "'f flist \<Rightarrow> 'f list" where
  "listeners l = map snd (nodes l)"

lemma listeners_Add: "Add f l = (l', it) \<Longrightarrow> listeners l' = listeners l @ [f]"
  by (auto simp: Add_def listeners_def)

lemma Remove_Add:
  assumes "flist_wf l" "Add f l = (l', it)"
  shows "\<exists>l''. Remove it l' = Inr l'' \<and> nodes l'' = nodes l"
proof -
  have "filter (\<lambda>n. fst n \<noteq> next_node l) (nodes l) = nodes l"
    using assms(1) by (auto simp: filter_id_conv dest: flist_wf_fresh)
  with assms(2) show ?thesis by (auto simp: Add_def Remove_def)
qed

lemma Remove_twice: "Remove it l = Inr l' \<Longrightarrow> Remove it l' = Inl BadIterator"
  by (auto simp: Remove_def split: if_splits)

lemma Remove_commute:
  "Remove i l = Inr l1 \<Longrightarrow> Remove j l1 = Inr l2 \<Longrightarrow>
   \<exists>l3. Remove j l = Inr l3 \<and> Remove i l3 = Inr l2"
  by (auto simp: Remove_def conj_commute image_iff split: if_splits)

section \<open>The walk\<close>

lemma successors_split:
  "flist_wf l \<Longrightarrow> nodes l = pre @ n # rest \<Longrightarrow> successors (fst n) l = Inr rest"
proof -
  assume wf: "flist_wf l" and nodes: "nodes l = pre @ n # rest"
  then have "fst n \<notin> fst ` set pre"
    by (simp add: flist_wf_def)
  then have "\<forall>x \<in> set pre. fst x \<noteq> fst n"
    by (metis image_eqI)
  then have "dropWhile (\<lambda>x. fst x \<noteq> fst n) (nodes l) = n # rest"
    by (simp add: nodes)
  then show ?thesis by (simp add: successors_def)
qed

lemma walk_quiet:
  assumes "flist_wf l"
  shows "nodes l = pre @ rest \<Longrightarrow> length rest \<le> fuel \<Longrightarrow>
   walk fuel (quiet call) rest (l, s) =
     Some (bindE (invoke call (map snd rest) s) (\<lambda>s'. Inr (l, s')))"
proof (induction rest arbitrary: pre fuel s)
  case Nil
  then show ?case by simp
next
  case (Cons n rest)
  then obtain fuel' where fuel: "fuel = Suc fuel'" by (cases fuel) auto
  have succ: "successors (fst n) l = Inr rest"
    using assms Cons.prems(1) by (rule successors_split)
  show ?case
  proof (cases "call (snd n) s")
    case (Inl e)
    then show ?thesis by (simp add: fuel quiet_def)
  next
    case (Inr s')
    have "walk fuel' (quiet call) rest (l, s') =
        Some (bindE (invoke call (map snd rest) s') (\<lambda>s'. Inr (l, s')))"
      using Cons.prems fuel by (intro Cons.IH [of "pre @ [n]"]) auto
    moreover have "quiet call (snd n) (l, s) = Inr (l, s')"
      by (simp add: quiet_def Inr)
    ultimately show ?thesis using Inr succ by (simp add: fuel)
  qed
qed

lemma Invoke_quiet:
  "flist_wf l \<Longrightarrow> length (nodes l) \<le> fuel \<Longrightarrow>
   Invoke fuel (quiet call) (l, s) =
     Some (bindE (invoke call (listeners l) s) (\<lambda>s'. Inr (l, s')))"
  using walk_quiet [of l "[]" "nodes l" fuel call s] by (simp add: Invoke_def listeners_def)

text \<open>A listener that erases its own node breaks the walk.\<close>

lemma walk_self_remove:
  assumes call: "call (snd n) (l, s) = Inr (l', s')" and gone: "fst n \<notin> fst ` set (nodes l')"
  shows "walk (Suc fuel) call (n # rest) (l, s) = Some (Inl BadIterator)"
proof -
  have "\<forall>x \<in> set (nodes l'). fst x \<noteq> fst n"
    using gone by (metis image_eqI)
  then have dw: "dropWhile (\<lambda>x. fst x \<noteq> fst n) (nodes l') = []"
    by (simp add: dropWhile_eq_Nil_conv)
  have "successors (fst n) l' = Inl BadIterator"
    by (simp only: successors_def dw list.case)
  then show ?thesis by (simp add: call)
qed

lemma invoke_append: "invoke call (fs @ gs) s = bindE (invoke call fs s) (invoke call gs)"
  by (induction fs arbitrary: s) (auto simp: bindE_def split: sum.splits)

section \<open>Subscriptions as an interface\<close>

text \<open>
  What a subscriber relies on: its subscription stays in the list, whatever others add or
  remove, until it removes it itself, once; the order of the others is not affected. The
  subscribers of the program (the connection attempts of \<open>TcpClient::Connect\<close>, the handlers of
  the process manager) hold their \<open>Remove\<close> closures across arbitrary activity of others.
\<close>

datatype 'f sub_op = SubAdd 'f | SubRemove nat

locale subscriptions =
  fixes add :: "'f \<Rightarrow> 'l \<Rightarrow> 'l \<times> nat"
    and remove :: "nat \<Rightarrow> 'l \<Rightarrow> fault + 'l"
    and content :: "'l \<Rightarrow> (nat \<times> 'f) list"
    and wf :: "'l \<Rightarrow> bool"
  assumes add_content: "wf l \<Longrightarrow> add f l = (l', it) \<Longrightarrow>
      content l' = content l @ [(it, f)] \<and> it \<notin> fst ` set (content l) \<and> wf l'"
    and remove_content: "wf l \<Longrightarrow> it \<in> fst ` set (content l) \<Longrightarrow>
      \<exists>l'. remove it l = Inr l' \<and> content l' = filter (\<lambda>n. fst n \<noteq> it) (content l) \<and> wf l'"
    and remove_absent: "wf l \<Longrightarrow> it \<notin> fst ` set (content l) \<Longrightarrow> remove it l = Inl BadIterator"
begin

fun others :: "'f sub_op list \<Rightarrow> 'l \<Rightarrow> fault + 'l" where
  "others [] l = Inr l"
| "others (SubAdd f # ops) l = others ops (fst (add f l))"
| "others (SubRemove i # ops) l = bindE (remove i l) (others ops)"

lemma remove_keeps:
  assumes "wf l" "remove i l = Inr l'"
  shows "wf l' \<and> content l' = filter (\<lambda>n. fst n \<noteq> i) (content l)"
proof (cases "i \<in> fst ` set (content l)")
  case True
  with remove_content [OF assms(1) True] assms(2) show ?thesis by auto
next
  case False
  with remove_absent [OF assms(1) False] assms(2) show ?thesis by simp
qed

lemma stays:
  assumes "wf l" "(it, f) \<in> set (content l)" "SubRemove it \<notin> set ops" "others ops l = Inr l'"
  shows "wf l' \<and> (it, f) \<in> set (content l')"
  using assms
proof (induction ops arbitrary: l)
  case Nil
  then show ?case by simp
next
  case (Cons op ops)
  show ?case
  proof (cases op)
    case (SubAdd g)
    obtain m j where mj: "add g l = (m, j)" by force
    from add_content [OF Cons.prems(1) mj] have "wf m" "(it, f) \<in> set (content m)"
      using Cons.prems(2) by auto
    with Cons.IH Cons.prems(3,4) SubAdd mj show ?thesis by simp
  next
    case (SubRemove i)
    with Cons.prems(4) obtain m where m: "remove i l = Inr m" "others ops m = Inr l'"
      by (auto simp: bindE_Inr_iff)
    have "it \<noteq> i" using Cons.prems(3) SubRemove by auto
    with remove_keeps [OF Cons.prems(1) m(1)] Cons.prems(2)
    have "wf m" "(it, f) \<in> set (content m)" by auto
    with Cons.IH Cons.prems(3) m(2) show ?thesis by simp
  qed
qed

lemma scoped:
  assumes "wf l" "add f l = (l1, it)" "SubRemove it \<notin> set ops" "others ops l1 = Inr l2"
  shows "\<exists>l3. remove it l2 = Inr l3 \<and> wf l3 \<and> content l3 = filter (\<lambda>n. fst n \<noteq> it) (content l2)
    \<and> (it, f) \<in> set (content l2) \<and> remove it l3 = Inl BadIterator"
proof -
  have 1: "wf l1" "(it, f) \<in> set (content l1)" using add_content [OF assms(1,2)] by auto
  have 2: "wf l2" "(it, f) \<in> set (content l2)" using stays [OF 1 assms(3,4)] by auto
  then have "it \<in> fst ` set (content l2)" by force
  from remove_content [OF 2(1) this] obtain l3 where
    l3: "remove it l2 = Inr l3" "content l3 = filter (\<lambda>n. fst n \<noteq> it) (content l2)" "wf l3" by blast
  have "it \<notin> fst ` set (content l3)" using l3(2) by auto
  with l3 2 remove_absent show ?thesis by blast
qed

end

lemma Add_spec:
  assumes "flist_wf l" "Add f l = (l', it)"
  shows "nodes l' = nodes l @ [(it, f)] \<and> it \<notin> fst ` set (nodes l) \<and> flist_wf l'"
  using assms flist_wf_Add [OF assms] by (auto simp: Add_def flist_wf_def)

lemma Remove_spec:
  assumes "flist_wf l" "it \<in> fst ` set (nodes l)"
  shows "\<exists>l'. Remove it l = Inr l' \<and> nodes l' = filter (\<lambda>n. fst n \<noteq> it) (nodes l) \<and> flist_wf l'"
proof -
  have r: "Remove it l = Inr (l\<lparr>nodes := filter (\<lambda>n. fst n \<noteq> it) (nodes l)\<rparr>)"
    using assms(2) by (simp add: Remove_def)
  with flist_wf_Remove [OF assms(1) r] show ?thesis by auto
qed

interpretation fl: subscriptions Add Remove nodes flist_wf
proof unfold_locales
  fix l :: "'b flist" and it
  assume "flist_wf l" "it \<notin> fst ` set (nodes l)"
  then show "Remove it l = Inl BadIterator" by (simp add: Remove_def)
qed (erule Add_spec Remove_spec, assumption)+

text \<open>
  A sequence of additions and removals by other subscribers, as the program makes them.
\<close>

fun activity :: "'f sub_op list \<Rightarrow> 'f flist \<Rightarrow> fault + 'f flist" where
  "activity [] l = Inr l"
| "activity (SubAdd f # ops) l = activity ops (fst (Add f l))"
| "activity (SubRemove i # ops) l = bindE (Remove i l) (activity ops)"

lemma activity_others: "activity ops l = fl.others ops l"
proof (induction ops arbitrary: l)
  case Nil
  show ?case by simp
next
  case (Cons op ops)
  then have "activity ops = fl.others ops" by (simp add: fun_eq_iff)
  then show ?case by (cases op) simp_all
qed

section \<open>Properties\<close>

text \<open>
  C15: a subscription survives whatever other subscribers do: it is still in the list, its
  \<open>Remove\<close> succeeds and removes it and nothing else, and a second \<open>Remove\<close> is an invalid
  iterator.
\<close>

theorem subscription_scoped:
  assumes "flist_wf l" "Add f l = (l1, it)" "SubRemove it \<notin> set ops" "activity ops l1 = Inr l2"
  shows "(it, f) \<in> set (nodes l2) \<and> (\<exists>l3. Remove it l2 = Inr l3
     \<and> nodes l3 = filter (\<lambda>n. fst n \<noteq> it) (nodes l2) \<and> Remove it l3 = Inl BadIterator)"
  using fl.scoped [OF assms(1-3)] assms(4) by (auto simp: activity_others)

theorem subscription_scoped_witness:
  "\<exists>l2 l3. activity [SubAdd (7::nat), SubRemove 0] (fst (Add 6 (fst (Add 5 empty_flist)))) = Inr l2
     \<and> Remove 1 l2 = Inr l3 \<and> listeners l3 = [7]"
proof -
  have wf: "flist_wf (fst (Add (5::nat) empty_flist))"
    by (simp add: Add_def empty_flist_def flist_wf_def)
  have add: "Add 6 (fst (Add 5 empty_flist)) = (fst (Add 6 (fst (Add (5::nat) empty_flist))), 1)"
    by (simp add: Add_def empty_flist_def)
  obtain l2 where act: "activity [SubAdd (7::nat), SubRemove 0] (fst (Add 6 (fst (Add 5 empty_flist)))) = Inr l2"
    and n2: "nodes l2 = [(1, 6), (2, 7)]"
    by (simp add: Add_def empty_flist_def Remove_def)
  from subscription_scoped [OF wf add _ act] n2 act show ?thesis by (auto simp: listeners_def)
qed

text \<open>
  When no listener changes the list, \<open>Invoke\<close> terminates within as many steps as there are
  listeners and is the fold of the listeners in the order they were added, stopping at the
  first fault.
\<close>

theorem invoke_in_order:
  assumes "flist_wf l"
  shows "Invoke (length (nodes l)) (quiet call) (l, s)
    = Some (bindE (invoke call (listeners l) s) (\<lambda>s'. Inr (l, s')))"
  using assms by (intro Invoke_quiet) simp_all

theorem invoke_in_order_witness:
  "Invoke 2 (quiet (\<lambda>f (s::nat list). Inr (s @ [f]))) (fst (Add 6 (fst (Add 5 empty_flist))), [])
    = Some (Inr (fst (Add 6 (fst (Add 5 empty_flist))), [5, 6]))"
  using invoke_in_order [of "fst (Add (6::nat) (fst (Add 5 empty_flist)))" "\<lambda>f s. Inr (s @ [f])" "[]"]
  by (simp add: Add_def empty_flist_def flist_wf_def listeners_def numeral_2_eq_2)

end
