(* ===== verification/Forwarder.thy ===== *)
theory Forwarder
  imports FunctionLists
begin

text \<open>
  \<open>TcpForwarder\<close> (\<open>include/tcp_forwarder.h\<close>, \<open>src/tcp_forwarder.cc\<close>) on top of the
  \<open>TcpClient\<close> and \<open>Handle\<close> callbacks that drive it (\<open>src/tcp_client.cc\<close>,
  \<open>src/handle.cc\<close>): two connections, two double-buffered directions, and the handlers
  \<open>Init\<close> registers for data, completed writes, errors and close.

  The four \<open>std::string\<close>s of the two \<open>Client\<close> structs live in a store addressed by
  slots; \<open>data_in\<close> and \<open>data_out\<close> are pointers into it, which \<open>Swap\<close> exchanges and the
  echo set-up aliases. \<open>uv_write\<close> does not copy, so a write in flight is recorded with the
  slot it points to.
\<close>

section \<open>State\<close>

datatype side = Incoming | Outgoing

fun peer :: "side \<Rightarrow> side" where
  "peer Incoming = Outgoing"
| "peer Outgoing = Incoming"

datatype slot = Slot (owner: side) (index: bool)

record client =
  ftcp :: "nat option"
  data_in :: slot
  data_out :: slot

text \<open>
  A \<open>TcpClient\<close> with its libuv handle: whether \<open>uv_close\<close> was called, whether the object was
  deleted (by \<open>Handle::OnClose\<close>), the writes libuv still holds (the slot pointed to and the
  bytes it held at the call) and the listener lists, which hold the side whose \<open>Init\<close>
  registered them. \<open>rcvd\<close> and \<open>wire\<close> record the bytes read from the connection and the
  bytes \<open>uv_write\<close> accepted for it.
\<close>

record conn =
  closing :: bool
  gone :: bool
  inflight :: "(slot \<times> bytes) list"
  on_data :: "side list"
  on_send :: "side list"
  on_error :: "side list"
  on_close :: "side list"
  rcvd :: bytes
  wire :: bytes

definition new_conn :: conn where
  "new_conn = \<lparr>closing = False, gone = False, inflight = [], on_data = [], on_send = [],
     on_error = [], on_close = [], rcvd = [], wire = []\<rparr>"

lemma new_conn_sel [simp]:
  "closing new_conn = False" "gone new_conn = False" "inflight new_conn = []"
  "on_data new_conn = []" "on_send new_conn = []" "on_error new_conn = []"
  "on_close new_conn = []" "rcvd new_conn = []" "wire new_conn = []"
  by (simp_all add: new_conn_def)

record fwd =
  cl :: "side \<Rightarrow> client"
  store :: "slot \<Rightarrow> bytes"
  conns :: "nat \<Rightarrow> conn"
  deleted :: bool
  closed_calls :: nat

section \<open>Primitive updates\<close>

definition upd_conn :: "nat \<Rightarrow> (conn \<Rightarrow> conn) \<Rightarrow> fwd \<Rightarrow> fwd" where
  "upd_conn t f w = w\<lparr>conns := (conns w)(t := f (conns w t))\<rparr>"

definition upd_client :: "side \<Rightarrow> (client \<Rightarrow> client) \<Rightarrow> fwd \<Rightarrow> fwd" where
  "upd_client c f w = w\<lparr>cl := (cl w)(c := f (cl w c))\<rparr>"

definition set_slot :: "slot \<Rightarrow> bytes \<Rightarrow> fwd \<Rightarrow> fwd" where
  "set_slot p bs w = w\<lparr>store := (store w)(p := bs)\<rparr>"

definition in_buf :: "fwd \<Rightarrow> side \<Rightarrow> bytes" where
  "in_buf w c = store w (data_in (cl w c))"

definition out_buf :: "fwd \<Rightarrow> side \<Rightarrow> bytes" where
  "out_buf w c = store w (data_out (cl w c))"

definition swap_ptrs :: "client \<Rightarrow> client" where
  "swap_ptrs c = c\<lparr>data_in := data_out c, data_out := data_in c\<rparr>"

text \<open>\<open>TcpForwarder::Swap\<close>: pointers, and the aliased peer's pointers with them.\<close>

definition Swap :: "side \<Rightarrow> fwd \<Rightarrow> fwd" where
  "Swap c w =
     (let w1 = upd_client c swap_ptrs w
      in if ftcp (cl w1 Incoming) = ftcp (cl w1 Outgoing)
         then upd_client (peer c) swap_ptrs w1 else w1)"

section \<open>Closing and errors\<close>

text \<open>\<open>Handle::Close\<close> and \<open>Handle::IsClosing\<close> through a \<open>TcpClient\<close> pointer.\<close>

definition conn_Close :: "nat \<Rightarrow> fwd \<Rightarrow> fault + fwd" where
  "conn_Close t w =
     (if gone (conns w t) then Inl UseAfterFree
      else if \<not> closing (conns w t) then Inr (upd_conn t (\<lambda>k. k\<lparr>closing := True\<rparr>) w)
      else Inr w)"

definition close_unless_closing :: "nat \<Rightarrow> fwd \<Rightarrow> fault + fwd" where
  "close_unless_closing t w =
     (if gone (conns w t) then Inl UseAfterFree
      else if \<not> closing (conns w t) then conn_Close t w else Inr w)"

text \<open>The error listener of \<open>Init\<close>.\<close>

definition error_listener :: "side \<Rightarrow> fwd \<Rightarrow> fault + fwd" where
  "error_listener c w =
     (if deleted w then Inl UseAfterFree
      else case ftcp (cl w c) of
        None \<Rightarrow> Inl NullDeref
      | Some t \<Rightarrow>
          bindE (conn_Close t w) (\<lambda>w.
            case ftcp (cl w (peer c)) of
              None \<Rightarrow> Inr w
            | Some q \<Rightarrow> close_unless_closing q w))"

text \<open>\<open>Handle::OnError\<close>: invoke the error listeners of the connection.\<close>

definition conn_OnError :: "nat \<Rightarrow> fwd \<Rightarrow> fault + fwd" where
  "conn_OnError t w =
     (if gone (conns w t) then Inl UseAfterFree
      else invoke error_listener (on_error (conns w t)) w)"

section \<open>Writing\<close>

text \<open>
  \<open>TcpClient::Write(data, len)\<close>; \<open>st\<close> is the status \<open>uv_write\<close> returns.
\<close>

definition conn_Write :: "nat \<Rightarrow> slot \<Rightarrow> int \<Rightarrow> fwd \<Rightarrow> fault + fwd" where
  "conn_Write t p st w =
     (if gone (conns w t) then Inl UseAfterFree
      else if st \<noteq> 0 then conn_OnError t w
      else Inr (upd_conn t (\<lambda>k. k\<lparr>inflight := inflight k @ [(p, store w p)],
                                   wire := wire k @ store w p\<rparr>) w))"

text \<open>
  The data listener: append to the input buffer; when the peer can take data and the output
  buffer is empty, swap and write. \<open>wr\<close> is what \<open>uv_is_writable\<close> answers for the peer.
\<close>

definition data_listener :: "bytes \<Rightarrow> bool \<Rightarrow> int \<Rightarrow> side \<Rightarrow> fwd \<Rightarrow> fault + fwd" where
  "data_listener s wr st c w =
     (if deleted w then Inl UseAfterFree
      else if length s > 0 then
        let w1 = set_slot (data_in (cl w c)) (in_buf w c @ s) w
        in case ftcp (cl w1 (peer c)) of
             None \<Rightarrow> Inr w1
           | Some q \<Rightarrow>
               if gone (conns w1 q) then Inl UseAfterFree
               else if wr \<and> length (out_buf w1 c) = 0
               then let w2 = Swap c w1 in conn_Write q (data_out (cl w2 c)) st w2
               else Inr w1
      else Inr w)"

text \<open>
  The send listener of a connection: what was in flight came from the peer; drop it and send
  what the peer received meanwhile.
\<close>

definition send_listener :: "int \<Rightarrow> side \<Rightarrow> fwd \<Rightarrow> fault + fwd" where
  "send_listener st c w =
     (if deleted w then Inl UseAfterFree
      else
        let p = peer c;
            w1 = set_slot (data_out (cl w p)) [] w
        in if length (in_buf w1 p) > 0 then
             let w2 = Swap p w1
             in case ftcp (cl w2 c) of
                  None \<Rightarrow> Inl NullDeref
                | Some t \<Rightarrow> conn_Write t (data_out (cl w2 p)) st w2
           else Inr w1)"

text \<open>
  The close listener: forget the connection; the second of the two to close deletes the
  forwarder, the first one closes the other.
\<close>

definition close_listener :: "side \<Rightarrow> fwd \<Rightarrow> fault + fwd" where
  "close_listener c w =
     (if deleted w then Inl UseAfterFree
      else
        let w1 = (if ftcp (cl w (peer c)) = ftcp (cl w c)
                  then upd_client (peer c) (\<lambda>k. k\<lparr>ftcp := None\<rparr>) w else w);
            w2 = upd_client c (\<lambda>k. k\<lparr>ftcp := None\<rparr>) w1
        in case ftcp (cl w2 (peer c)) of
             None \<Rightarrow> Inr (w2\<lparr>closed_calls := Suc (closed_calls w2), deleted := True\<rparr>)
           | Some q \<Rightarrow> close_unless_closing q w2)"

section \<open>Callbacks of TcpClient\<close>

text \<open>\<open>TcpClient::OnRead\<close>: \<open>nread\<close> negative is an error or end of file.\<close>

definition conn_OnRead :: "nat \<Rightarrow> int \<Rightarrow> bytes \<Rightarrow> bool \<Rightarrow> int \<Rightarrow> fwd \<Rightarrow> fault + fwd" where
  "conn_OnRead t nread buf wr st w =
     (if nread < 0
      then if nread = UV_EOF then conn_Close t w else conn_OnError t w
      else let s = take (nat nread) buf
           in invoke (data_listener s wr st) (on_data (conns w t))
                (upd_conn t (\<lambda>k. k\<lparr>rcvd := rcvd k @ s\<rparr>) w))"

text \<open>\<open>TcpClient::OnWrite\<close>: libuv has dropped the request, \<open>status\<close> is its result.\<close>

definition conn_OnWrite :: "nat \<Rightarrow> int \<Rightarrow> int \<Rightarrow> fwd \<Rightarrow> fault + fwd" where
  "conn_OnWrite t status st w =
     (let w1 = upd_conn t (\<lambda>k. k\<lparr>inflight := tl (inflight k)\<rparr>) w
      in if status \<noteq> 0 then conn_OnError t w1
         else invoke (send_listener st) (on_send (conns w1 t)) w1)"

text \<open>\<open>Handle::OnClose\<close>: the close listeners, then \<open>delete self\<close>.\<close>

definition conn_OnClose :: "nat \<Rightarrow> fwd \<Rightarrow> fault + fwd" where
  "conn_OnClose t w =
     bindE (invoke close_listener (on_close (conns w t)) w)
       (\<lambda>w. Inr (upd_conn t (\<lambda>k. k\<lparr>gone := True\<rparr>) w))"

section \<open>Construction\<close>

text \<open>\<open>TcpForwarder::Init\<close> registers one listener of each kind on the client's connection.\<close>

definition fwd_Init :: "side \<Rightarrow> nat \<Rightarrow> fwd \<Rightarrow> fwd" where
  "fwd_Init c t w = upd_conn t (\<lambda>k. k\<lparr>on_data := on_data k @ [c], on_send := on_send k @ [c],
     on_error := on_error k @ [c], on_close := on_close k @ [c]\<rparr>) w"

definition new_client :: "side \<Rightarrow> nat option \<Rightarrow> client" where
  "new_client c t = \<lparr>ftcp = t, data_in = Slot c False, data_out = Slot c True\<rparr>"

definition fwd_Create :: "nat \<Rightarrow> fwd" where
  "fwd_Create a = fwd_Init Incoming a
     \<lparr>cl = (\<lambda>c. new_client c (if c = Incoming then Some a else None)),
      store = (\<lambda>_. []), conns = (\<lambda>_. new_conn), deleted = False, closed_calls = 0\<rparr>"

definition SetOutgoing :: "nat \<Rightarrow> int \<Rightarrow> fwd \<Rightarrow> fault + fwd" where
  "SetOutgoing t st w =
     (let w1 = upd_client Outgoing (\<lambda>k. k\<lparr>ftcp := Some t\<rparr>) w;
          w2 = (if ftcp (cl w1 Outgoing) \<noteq> ftcp (cl w1 Incoming) then fwd_Init Outgoing t w1
                else upd_client Outgoing (\<lambda>o'. o'\<lparr>data_in := data_in (cl w1 Incoming),
                       data_out := data_out (cl w1 Incoming)\<rparr>) w1)
      in if length (in_buf w2 Incoming) > 0 \<and> length (out_buf w2 Incoming) = 0
         then let w3 = Swap Incoming w2 in conn_Write t (data_out (cl w3 Incoming)) st w3
         else Inr w2)"

text \<open>The echo server: \<open>TcpForwarder::Create(client, client)\<close>.\<close>

definition CreateEcho :: "nat \<Rightarrow> int \<Rightarrow> fault + fwd" where
  "CreateEcho a st = SetOutgoing a st (fwd_Create a)"

text \<open>Whether a connection that was one of the two has closed.\<close>

definition IsClosed :: "nat option \<Rightarrow> fwd \<Rightarrow> bool" where
  "IsClosed t w \<longleftrightarrow> t \<noteq> None \<and> ftcp (cl w Incoming) \<noteq> t \<and> ftcp (cl w Outgoing) \<noteq> t"

end
