(* ===== verification/ForwarderInv.thy ===== *)
theory ForwarderInv
  imports Forwarder
begin

text \<open>
  The forwarder as an event-driven system. The events are the callbacks libuv may make and
  the two calls the proxy makes (\<open>SetOutgoing\<close> when the upstream connection is up, \<open>Close\<close> on
  the incoming connection when it is not); \<open>allowed\<close> states what libuv documents about when
  they happen. The invariant has a part about the sockets (who is registered where, what is
  closed) and a part about the data of the two directions.
\<close>

section \<open>Events\<close>

datatype fev =
    EvRead nat int bytes bool int
  | EvWrote nat int int
  | EvClosed nat
  | EvAttach nat int
  | EvClose nat

fun handle :: "fev \<Rightarrow> fwd \<Rightarrow> fault + fwd" where
  "handle (EvRead t nread buf wr st) w = conn_OnRead t nread buf wr st w"
| "handle (EvWrote t status st) w = conn_OnWrite t status st w"
| "handle (EvClosed t) w = conn_OnClose t w"
| "handle (EvAttach t st) w = SetOutgoing t st w"
| "handle (EvClose t) w = conn_Close t w"

text \<open>
  libuv makes no read callback once \<open>uv_close\<close> was called, calls a write back once, and calls
  the close callback once, after \<open>uv_close\<close> and after every pending write was called back
  (with an error when it was cancelled). A connection that is not closing is writable. The
  proxy attaches at most one connection, a fresh one, while the forwarder exists.
\<close>

definition writable_if_open :: "fwd \<Rightarrow> nat \<Rightarrow> bool \<Rightarrow> bool" where
  "writable_if_open w t wr \<longleftrightarrow> (\<forall>c \<in> set (on_data (conns w t)). \<forall>q.
     ftcp (cl w (peer c)) = Some q \<longrightarrow> \<not> closing (conns w q) \<longrightarrow> wr)"

inductive allowed :: "fwd \<Rightarrow> fev \<Rightarrow> bool" where
  allow_read: "\<not> closing (conns w t) \<Longrightarrow> \<not> gone (conns w t) \<Longrightarrow> on_data (conns w t) \<noteq> [] \<Longrightarrow>
     writable_if_open w t wr \<Longrightarrow> allowed w (EvRead t nread buf wr st)"
| allow_wrote: "\<not> gone (conns w t) \<Longrightarrow> inflight (conns w t) \<noteq> [] \<Longrightarrow> allowed w (EvWrote t status st)"
| allow_closed: "closing (conns w t) \<Longrightarrow> \<not> gone (conns w t) \<Longrightarrow> inflight (conns w t) = [] \<Longrightarrow>
     allowed w (EvClosed t)"
| allow_attach: "\<not> deleted w \<Longrightarrow> conns w t = new_conn \<Longrightarrow>
     (\<And>k. Outgoing \<notin> set (on_data (conns w k))) \<Longrightarrow> allowed w (EvAttach t st)"
| allow_close: "\<not> gone (conns w t) \<Longrightarrow> on_data (conns w t) \<noteq> [] \<Longrightarrow> allowed w (EvClose t)"

inductive_cases allowed_readE: "allowed w (EvRead t nread buf wr st)"
inductive_cases allowed_wroteE: "allowed w (EvWrote t status st)"
inductive_cases allowed_closedE: "allowed w (EvClosed t)"
inductive_cases allowed_attachE: "allowed w (EvAttach t st)"
inductive_cases allowed_closeE: "allowed w (EvClose t)"

definition fwd_step :: "fwd \<Rightarrow> fev \<Rightarrow> fwd \<Rightarrow> bool" where
  "fwd_step w e w' \<longleftrightarrow> allowed w e \<and> handle e w = Inr w'"

section \<open>The two parts of the invariant\<close>

text \<open>The connection of each side, once known; \<open>b\<close> is the attached upstream connection.\<close>

fun sock :: "nat \<Rightarrow> nat option \<Rightarrow> side \<Rightarrow> nat option" where
  "sock a b Incoming = Some a"
| "sock a b Outgoing = b"

definition conn_of :: "fwd \<Rightarrow> nat option \<Rightarrow> conn" where
  "conn_of w so = (case so of None \<Rightarrow> new_conn | Some t \<Rightarrow> conns w t)"

definition registered :: "side \<Rightarrow> conn \<Rightarrow> bool" where
  "registered c k \<longleftrightarrow> on_data k = [c] \<and> on_send k = [c] \<and> on_error k = [c] \<and> on_close k = [c]"

definition side_ok :: "nat \<Rightarrow> nat option \<Rightarrow> fwd \<Rightarrow> side \<Rightarrow> bool" where
  "side_ok a b w c \<longleftrightarrow> (case sock a b c of
       None \<Rightarrow> ftcp (cl w c) = None
     | Some t \<Rightarrow> registered c (conns w t)
         \<and> ftcp (cl w c) = (if gone (conns w t) then None else Some t)
         \<and> (gone (conns w t) \<longrightarrow> closing (conns w t) \<and> inflight (conns w t) = []
              \<and> (\<forall>q. sock a b (peer c) = Some q \<longrightarrow> closing (conns w q))))"

definition socks_ok :: "nat \<Rightarrow> nat option \<Rightarrow> fwd \<Rightarrow> bool" where
  "socks_ok a b w \<longleftrightarrow> b \<noteq> Some a
     \<and> (\<forall>t. t \<noteq> a \<longrightarrow> b \<noteq> Some t \<longrightarrow> conns w t = new_conn)
     \<and> side_ok a b w Incoming \<and> side_ok a b w Outgoing
     \<and> (deleted w \<longleftrightarrow> gone (conns w a) \<and> (\<forall>t. b = Some t \<longrightarrow> gone (conns w t)))
     \<and> closed_calls w = (if deleted w then 1 else 0)"

text \<open>
  One direction, from the connection with received bytes \<open>r\<close> to the connection \<open>d\<close>:
  at most one write is in flight, it points at the output buffer and the buffer still holds
  what was written; everything received is on the wire or waiting in the input buffer, in
  order; and an open destination with bytes waiting has a write in flight.
\<close>

definition dir_ok :: "client \<Rightarrow> (slot \<Rightarrow> bytes) \<Rightarrow> bool \<Rightarrow> bytes \<Rightarrow> conn \<Rightarrow> bool" where
  "dir_ok c st att r d \<longleftrightarrow>
     data_in c \<noteq> data_out c
   \<and> (inflight d = [] \<or> inflight d = [(data_out c, st (data_out c))] \<and> st (data_out c) \<noteq> [])
   \<and> (if st (data_out c) \<noteq> [] \<and> inflight d = [] then closing d \<and> prefix (wire d) r
      else r = wire d @ st (data_in c))
   \<and> (att \<and> \<not> closing d \<and> st (data_in c) \<noteq> [] \<longrightarrow> inflight d \<noteq> [])"

definition own_slots :: "fwd \<Rightarrow> side \<Rightarrow> bool" where
  "own_slots w c \<longleftrightarrow> owner (data_in (cl w c)) = c \<and> owner (data_out (cl w c)) = c"

definition flow_ok :: "nat \<Rightarrow> nat option \<Rightarrow> fwd \<Rightarrow> side \<Rightarrow> bool" where
  "flow_ok a b w c \<longleftrightarrow> own_slots w c
     \<and> dir_ok (cl w c) (store w) (sock a b (peer c) \<noteq> None)
         (rcvd (conn_of w (sock a b c))) (conn_of w (sock a b (peer c)))"

definition finv :: "nat \<Rightarrow> nat option \<Rightarrow> fwd \<Rightarrow> bool" where
  "finv a b w \<longleftrightarrow> socks_ok a b w \<and> flow_ok a b w Incoming \<and> flow_ok a b w Outgoing
     \<and> (b = None \<longrightarrow> out_buf w Outgoing = [])"

lemma peer_peer [simp]: "peer (peer c) = c"
  by (cases c) auto

lemma peer_neq [simp]: "peer c \<noteq> c" "c \<noteq> peer c"
  by (cases c; simp)+

lemma side_exhaust_peer: "c' = c \<or> c' = peer c"
  by (cases c; cases c') auto

lemma all_sides: "P Incoming \<and> P Outgoing \<longleftrightarrow> P c \<and> P (peer c)"
  by (cases c) auto

lemma socks_ok_side: "socks_ok a b w \<Longrightarrow> side_ok a b w c"
  by (cases c) (auto simp: socks_ok_def)

lemma finv_flow: "finv a b w \<Longrightarrow> flow_ok a b w c"
  by (cases c) (auto simp: finv_def)

lemma finv_Create: "finv a None (fwd_Create a)"
  by (simp add: finv_def socks_ok_def side_ok_def flow_ok_def own_slots_def dir_ok_def
      registered_def fwd_Create_def fwd_Init_def upd_conn_def new_conn_def new_client_def
      conn_of_def out_buf_def)

section \<open>Closing\<close>

text \<open>Marking a connection as closing is all \<open>Close\<close> does to it.\<close>

definition mark :: "nat \<Rightarrow> fwd \<Rightarrow> fwd" where
  "mark t w = upd_conn t (\<lambda>k. k\<lparr>closing := True\<rparr>) w"

lemma mark_id: "closing (conns w t) \<Longrightarrow> mark t w = w"
  by (simp add: mark_def upd_conn_def fun_upd_idem)

lemma conn_Close_eq: "\<not> gone (conns w t) \<Longrightarrow> conn_Close t w = Inr (mark t w)"
  by (auto simp: conn_Close_def mark_def [symmetric] mark_id)

lemma close_unless_closing_eq:
  "\<not> gone (conns w t) \<Longrightarrow> close_unless_closing t w = Inr (mark t w)"
  by (auto simp: close_unless_closing_def conn_Close_eq mark_id)

lemma mark_sel [simp]:
  "cl (mark t w) = cl w" "store (mark t w) = store w" "deleted (mark t w) = deleted w"
  "closed_calls (mark t w) = closed_calls w"
  "conns (mark t w) k = (if k = t then (conns w t)\<lparr>closing := True\<rparr> else conns w k)"
  by (simp_all add: mark_def upd_conn_def)

lemma conn_of_mark: "conn_of (mark t w) so =
    (if so = Some t then (conn_of w so)\<lparr>closing := True\<rparr> else conn_of w so)"
  by (auto simp: conn_of_def split: option.splits)

lemma conn_of_simps [simp]: "conn_of w None = new_conn" "conn_of w (Some t) = conns w t"
  by (simp_all add: conn_of_def)

lemma out_buf_mark [simp]: "out_buf (mark t w) c = out_buf w c"
  by (simp add: out_buf_def)

lemma in_buf_mark [simp]: "in_buf (mark t w) c = in_buf w c"
  by (simp add: in_buf_def)

lemma dir_ok_close: "dir_ok c st att r d \<Longrightarrow> dir_ok c st att r (d\<lparr>closing := True\<rparr>)"
  by (auto simp: dir_ok_def split: if_splits)

lemma flow_ok_mark: "flow_ok a b w c \<Longrightarrow> flow_ok a b (mark t w) c"
  by (auto simp: flow_ok_def own_slots_def conn_of_mark dir_ok_close)

lemma side_ok_mark: "side_ok a b w c \<Longrightarrow> side_ok a b (mark t w) c"
  by (auto simp: side_ok_def registered_def split: option.splits)

lemma sock_cases: "sock a b c = Some t \<Longrightarrow> t = a \<or> b = Some t"
  by (cases c) auto

lemma socks_ok_mark: "socks_ok a b w \<Longrightarrow> sock a b c = Some t \<Longrightarrow> socks_ok a b (mark t w)"
  by (cases c; cases b) (simp_all add: socks_ok_def side_ok_mark)

lemma finv_mark: "finv a b w \<Longrightarrow> sock a b c = Some t \<Longrightarrow> finv a b (mark t w)"
  by (auto simp: finv_def flow_ok_mark intro: socks_ok_mark)

definition mark_live :: "nat option \<Rightarrow> fwd \<Rightarrow> fwd" where
  "mark_live so w = (case so of None \<Rightarrow> w | Some q \<Rightarrow> if gone (conns w q) then w else mark q w)"

lemma mark_live_sel [simp]:
  "cl (mark_live so w) = cl w" "store (mark_live so w) = store w" "deleted (mark_live so w) = deleted w"
  by (simp_all add: mark_live_def split: option.split)

lemma mark_live_ok:
  "socks_ok a b w \<Longrightarrow> socks_ok a b (mark_live (sock a b c) w)"
  "flow_ok a b w c' \<Longrightarrow> flow_ok a b (mark_live (sock a b c) w) c'"
  by (auto simp: mark_live_def flow_ok_mark split: option.split intro: socks_ok_mark)

lemma finv_mark_live: "finv a b w \<Longrightarrow> finv a b (mark_live (sock a b c) w)"
  by (auto simp: finv_def mark_live_ok out_buf_def)

lemma not_deleted: "socks_ok a b w \<Longrightarrow> sock a b c = Some t \<Longrightarrow> \<not> gone (conns w t) \<Longrightarrow> \<not> deleted w"
  by (cases c) (auto simp: socks_ok_def)

lemma ftcp_sock:
  "socks_ok a b w \<Longrightarrow> ftcp (cl w c) =
     (case sock a b c of None \<Rightarrow> None | Some t \<Rightarrow> if gone (conns w t) then None else Some t)"
  using socks_ok_side [of a b w c] by (auto simp: side_ok_def split: option.splits)

lemma sock_distinct: "socks_ok a b w \<Longrightarrow> sock a b c = Some t \<Longrightarrow> sock a b (peer c) \<noteq> Some t"
  by (cases c) (auto simp: socks_ok_def)

lemma sock_registered: "socks_ok a b w \<Longrightarrow> sock a b c = Some t \<Longrightarrow> registered c (conns w t)"
  using socks_ok_side [of a b w c] by (auto simp: side_ok_def)

lemma error_listener_eq:
  assumes "socks_ok a b w" "sock a b c = Some t" "\<not> gone (conns w t)"
  shows "error_listener c w = Inr (mark_live (sock a b (peer c)) (mark t w))"
  using assms not_deleted [OF assms] sock_distinct [OF assms(1,2)]
    ftcp_sock [OF assms(1), of c] ftcp_sock [OF assms(1), of "peer c"]
  by (auto simp: error_listener_def conn_Close_eq close_unless_closing_eq mark_live_def
      split: option.split)

lemma conn_OnError_eq:
  assumes "socks_ok a b w" "sock a b c = Some t" "\<not> gone (conns w t)"
  shows "conn_OnError t w = Inr (mark_live (sock a b (peer c)) (mark t w))"
  using assms error_listener_eq [OF assms] sock_registered [OF assms(1,2)]
  by (simp add: conn_OnError_def registered_def)

lemma finv_socks: "finv a b w \<Longrightarrow> socks_ok a b w"
  by (simp add: finv_def)

lemma finv_OnError:
  assumes "finv a b w" "sock a b c = Some t" "\<not> gone (conns w t)"
  shows "\<exists>w'. conn_OnError t w = Inr w' \<and> finv a b w'"
  using assms by (simp add: conn_OnError_eq [OF finv_socks] finv_mark_live finv_mark)

section \<open>Data\<close>

text \<open>
  Between the moment data arrives and the moment it is written the progress part of
  \<open>dir_ok\<close> does not hold; the core does.
\<close>

definition dir_core :: "client \<Rightarrow> (slot \<Rightarrow> bytes) \<Rightarrow> bytes \<Rightarrow> conn \<Rightarrow> bool" where
  "dir_core c st r d \<longleftrightarrow>
     data_in c \<noteq> data_out c
   \<and> (inflight d = [] \<or> inflight d = [(data_out c, st (data_out c))] \<and> st (data_out c) \<noteq> [])
   \<and> (if st (data_out c) \<noteq> [] \<and> inflight d = [] then closing d \<and> prefix (wire d) r
      else r = wire d @ st (data_in c))"

lemma dir_ok_core:
  "dir_ok c st att r d \<longleftrightarrow> dir_core c st r d \<and>
     (att \<and> \<not> closing d \<and> st (data_in c) \<noteq> [] \<longrightarrow> inflight d \<noteq> [])"
  by (auto simp: dir_ok_def dir_core_def)

lemma dir_recv:
  "dir_core c st r d \<Longrightarrow> dir_core c (st(data_in c := st (data_in c) @ s)) (r @ s) d"
  by (auto simp: dir_core_def)

lemma dir_flush:
  "dir_core c st r d \<Longrightarrow> st (data_out c) = [] \<Longrightarrow> st (data_in c) \<noteq> [] \<Longrightarrow>
   dir_ok (swap_ptrs c) st att r
     (d\<lparr>inflight := inflight d @ [(data_in c, st (data_in c))], wire := wire d @ st (data_in c)\<rparr>)"
  by (auto simp: dir_ok_def dir_core_def swap_ptrs_def)

lemma dir_flush_fail:
  "dir_core c st r d \<Longrightarrow> st (data_out c) = [] \<Longrightarrow> st (data_in c) \<noteq> [] \<Longrightarrow>
   dir_ok (swap_ptrs c) st att r (d\<lparr>closing := True\<rparr>)"
  by (auto simp: dir_ok_def dir_core_def swap_ptrs_def)

lemma dir_sent:
  "dir_core c st r d \<Longrightarrow> inflight d \<noteq> [] \<Longrightarrow>
   dir_core c (st(data_out c := [])) r (d\<lparr>inflight := tl (inflight d)\<rparr>)"
  by (auto simp: dir_core_def)

lemma dir_write_error:
  "dir_core c st r d \<Longrightarrow> inflight d \<noteq> [] \<Longrightarrow>
   dir_ok c st att r (d\<lparr>inflight := tl (inflight d), closing := True\<rparr>)"
  by (auto simp: dir_ok_def dir_core_def)

definition flow_core :: "nat \<Rightarrow> nat option \<Rightarrow> fwd \<Rightarrow> side \<Rightarrow> bool" where
  "flow_core a b w c \<longleftrightarrow> own_slots w c
     \<and> dir_core (cl w c) (store w) (rcvd (conn_of w (sock a b c))) (conn_of w (sock a b (peer c)))"

lemma flow_ok_core: "flow_ok a b w c \<Longrightarrow> flow_core a b w c"
  by (simp add: flow_ok_def flow_core_def dir_ok_core)

text \<open>A direction reads only its own client, its own slots and the two connections.\<close>

lemma flow_ok_cong:
  assumes "flow_ok a b w c"
    and "cl w' c = cl w c" "\<And>p. owner p = c \<Longrightarrow> store w' p = store w p"
    and "rcvd (conn_of w' (sock a b c)) = rcvd (conn_of w (sock a b c))"
    and "inflight (conn_of w' (sock a b (peer c))) = inflight (conn_of w (sock a b (peer c)))"
    and "wire (conn_of w' (sock a b (peer c))) = wire (conn_of w (sock a b (peer c)))"
    and "closing (conn_of w' (sock a b (peer c))) = closing (conn_of w (sock a b (peer c)))"
  shows "flow_ok a b w' c"
  using assms by (auto simp: flow_ok_def own_slots_def dir_ok_def)

text \<open>Swapping without aliasing, and the two outcomes of the write that follows.\<close>

lemma Swap_eq:
  "ftcp (cl w Incoming) \<noteq> ftcp (cl w Outgoing) \<Longrightarrow> Swap c w = upd_client c swap_ptrs w"
  by (cases c) (auto simp: Swap_def upd_client_def swap_ptrs_def Let_def)

lemma ftcp_distinct:
  assumes "socks_ok a b w" "sock a b c = Some t" "\<not> gone (conns w t)"
  shows "ftcp (cl w Incoming) \<noteq> ftcp (cl w Outgoing)"
  using assms ftcp_sock [OF assms(1), of Incoming] ftcp_sock [OF assms(1), of Outgoing]
  by (cases c) (auto simp: socks_ok_def split: option.splits if_splits)

lemma upd_client_sel [simp]:
  "cl (upd_client c f w) c' = (if c' = c then f (cl w c) else cl w c')"
  "store (upd_client c f w) = store w" "conns (upd_client c f w) = conns w"
  "deleted (upd_client c f w) = deleted w" "closed_calls (upd_client c f w) = closed_calls w"
  by (simp_all add: upd_client_def)

lemma swap_ptrs_sel [simp]:
  "ftcp (swap_ptrs k) = ftcp k" "data_in (swap_ptrs k) = data_out k" "data_out (swap_ptrs k) = data_in k"
  by (simp_all add: swap_ptrs_def)

lemma upd_conn_sel [simp]:
  "cl (upd_conn t f w) = cl w" "store (upd_conn t f w) = store w"
  "conns (upd_conn t f w) k = (if k = t then f (conns w t) else conns w k)"
  "deleted (upd_conn t f w) = deleted w" "closed_calls (upd_conn t f w) = closed_calls w"
  by (simp_all add: upd_conn_def)

lemma set_slot_sel [simp]:
  "cl (set_slot p bs w) = cl w" "store (set_slot p bs w) = (store w)(p := bs)"
  "conns (set_slot p bs w) = conns w" "deleted (set_slot p bs w) = deleted w"
  "closed_calls (set_slot p bs w) = closed_calls w"
  by (simp_all add: set_slot_def)

lemma conn_of_upd [simp]:
  "conn_of (upd_client c f w) so = conn_of w so" "conn_of (set_slot p bs w) so = conn_of w so"
  "conn_of (upd_conn t g w) so = (if so = Some t then g (conns w t) else conn_of w so)"
  by (auto simp: conn_of_def split: option.splits)

lemma socks_ok_swap: "socks_ok a b w \<Longrightarrow> socks_ok a b (upd_client c swap_ptrs w)"
  by (auto simp: socks_ok_def side_ok_def split: option.splits)

lemma socks_ok_upd_conn:
  assumes "socks_ok a b w" "sock a b c = Some t" "\<not> gone (conns w t)"
    and "registered c (f (conns w t))" "gone (f (conns w t)) = gone (conns w t)"
    and "closing (f (conns w t)) = closing (conns w t)"
  shows "socks_ok a b (upd_conn t f w)"
  using assms
  by (cases c; cases b) (simp_all add: socks_ok_def side_ok_def)

lemma finvI:
  "socks_ok a b w \<Longrightarrow> flow_ok a b w c \<Longrightarrow> flow_ok a b w (peer c) \<Longrightarrow>
   (b = None \<longrightarrow> out_buf w Outgoing = []) \<Longrightarrow> finv a b w"
  by (cases c) (auto simp: finv_def)

text \<open>A write of the swapped buffer that libuv takes, and one it refuses.\<close>

lemma flush_taken:
  assumes socks: "socks_ok a b w" and core: "flow_core a b w c" and other: "flow_ok a b w (peer c)"
    and bufs: "store w (data_out (cl w c)) = []" "store w (data_in (cl w c)) \<noteq> []"
    and q: "sock a b (peer c) = Some q" "\<not> gone (conns w q)" and b: "b \<noteq> None"
  shows "finv a b (upd_conn q (\<lambda>k. k\<lparr>inflight := inflight k @ [(data_in (cl w c), store w (data_in (cl w c)))],
      wire := wire k @ store w (data_in (cl w c))\<rparr>) (upd_client c swap_ptrs w))" (is "finv a b ?w'")
proof (rule finvI [where c = c])
  have own: "own_slots w c" and dir: "dir_core (cl w c) (store w) (rcvd (conn_of w (sock a b c))) (conns w q)"
    using core q(1) by (auto simp: flow_core_def)
  have t: "sock a b c \<noteq> Some q" using sock_distinct [OF socks q(1)] by simp
  show "socks_ok a b ?w'"
    using socks_ok_swap [OF socks, of c] q sock_registered [OF socks q(1)]
    by (intro socks_ok_upd_conn [where c = "peer c"]) (auto simp: registered_def)
  show "flow_ok a b ?w' c"
    using own t dir_flush [OF dir bufs] by (auto simp: flow_ok_def own_slots_def q(1) conn_of_def split: option.splits)
  show "flow_ok a b ?w' (peer c)"
    using t by (intro flow_ok_cong [OF other]) (auto simp: q(1) conn_of_def split: option.splits)
qed (use b in auto)

lemma flush_refused:
  assumes socks: "socks_ok a b w" and core: "flow_core a b w c" and other: "flow_ok a b w (peer c)"
    and bufs: "store w (data_out (cl w c)) = []" "store w (data_in (cl w c)) \<noteq> []"
    and q: "sock a b (peer c) = Some q" "\<not> gone (conns w q)" and b: "b \<noteq> None"
  shows "finv a b (mark q (upd_client c swap_ptrs w))" (is "finv a b ?w'")
proof (rule finvI [where c = c])
  have own: "own_slots w c" and dir: "dir_core (cl w c) (store w) (rcvd (conn_of w (sock a b c))) (conns w q)"
    using core q(1) by (auto simp: flow_core_def)
  have t: "sock a b c \<noteq> Some q" using sock_distinct [OF socks q(1)] by simp
  show "socks_ok a b ?w'" by (rule socks_ok_mark [OF socks_ok_swap [OF socks] q(1)])
  show "flow_ok a b ?w' c"
    using own t dir_flush_fail [OF dir bufs] by (auto simp: flow_ok_def own_slots_def q(1) conn_of_def split: option.splits)
  show "flow_ok a b ?w' (peer c)" by (intro flow_ok_mark flow_ok_cong [OF other]) auto
qed (use b in auto)

lemma finv_flush:
  assumes socks: "socks_ok a b w" and core: "flow_core a b w c" and other: "flow_ok a b w (peer c)"
    and out: "out_buf w c = []" and inb: "in_buf w c \<noteq> []"
    and q: "sock a b (peer c) = Some q" "\<not> gone (conns w q)" and b: "b \<noteq> None"
  shows "\<exists>w'. conn_Write q (data_out (cl (Swap c w) c)) st (Swap c w) = Inr w' \<and> finv a b w'"
proof -
  let ?w2 = "upd_client c swap_ptrs w"
  have swap: "Swap c w = ?w2" by (rule Swap_eq [OF ftcp_distinct [OF socks q]])
  have bufs: "store w (data_out (cl w c)) = []" "store w (data_in (cl w c)) \<noteq> []"
    using out inb by (simp_all add: out_buf_def in_buf_def)
  show ?thesis
  proof (cases "st = 0")
    case True
    then show ?thesis using flush_taken [OF socks core other bufs q b] q(2) by (simp add: swap conn_Write_def)
  next
    case False
    then have "conn_Write q (data_out (cl ?w2 c)) st ?w2 = Inr (mark_live (sock a b c) (mark q ?w2))"
      using q conn_OnError_eq [OF socks_ok_swap [OF socks] q(1)] by (simp add: conn_Write_def)
    then show ?thesis using finv_mark_live [OF flush_refused [OF socks core other bufs q b], of c] by (simp add: swap)
  qed
qed

text \<open>The core and progress make the whole: nothing is to be written, or a write is in flight.\<close>

lemma flow_ok_progress:
  assumes "flow_core a b w c"
    and "sock a b (peer c) \<noteq> None \<Longrightarrow> \<not> closing (conn_of w (sock a b (peer c))) \<Longrightarrow> in_buf w c \<noteq> [] \<Longrightarrow> out_buf w c \<noteq> []"
  shows "flow_ok a b w c"
  using assms by (auto simp: flow_core_def flow_ok_def dir_ok_core dir_core_def in_buf_def out_buf_def split: if_splits)

lemma socks_ok_set_slot: "socks_ok a b w \<Longrightarrow> socks_ok a b (set_slot p bs w)"
  by (simp add: socks_ok_def side_ok_def split: option.splits)

lemma own_slots_neq:
  "own_slots w c \<Longrightarrow> owner p \<noteq> c \<Longrightarrow> p \<noteq> data_in (cl w c) \<and> p \<noteq> data_out (cl w c)"
  by (auto simp: own_slots_def)

lemma flow_ok_own: "flow_ok a b w c \<Longrightarrow> own_slots w c"
  by (simp add: flow_ok_def)

lemma both_socks: "sock a b c = Some t \<Longrightarrow> sock a b (peer c) = Some q \<Longrightarrow> b \<noteq> None"
  by (cases c) auto

text \<open>The state after the data listener appended what was read.\<close>

lemma received:
  assumes inv: "finv a b w" and t: "sock a b c = Some t" "\<not> gone (conns w t)"
    and w1: "w1 = set_slot (data_in (cl w c)) (in_buf w c @ s) (upd_conn t (\<lambda>k. k\<lparr>rcvd := rcvd k @ s\<rparr>) w)"
  shows "socks_ok a b w1 \<and> flow_core a b w1 c \<and> flow_ok a b w1 (peer c)
    \<and> (b = None \<longrightarrow> out_buf w1 Outgoing = [])"
proof (intro conjI)
  note socks = finv_socks [OF inv]
  have own: "own_slots w c" "own_slots w (peer c)"
    using inv by (auto intro: flow_ok_own finv_flow)
  have t': "sock a b (peer c) \<noteq> Some t"
    using sock_distinct [OF socks t(1)] .
  show "socks_ok a b w1"
    unfolding w1 using sock_registered [OF socks t(1)]
    by (intro socks_ok_set_slot socks_ok_upd_conn [OF socks t]) (auto simp: registered_def)
  have "dir_core (cl w c) (store w) (rcvd (conns w t)) (conn_of w (sock a b (peer c)))"
    using flow_ok_core [OF finv_flow [OF inv, of c]] t(1) by (simp add: flow_core_def)
  from dir_recv [OF this] show "flow_core a b w1 c"
    using own(1) t' by (simp add: flow_core_def w1 t(1) own_slots_def in_buf_def)
  show "flow_ok a b w1 (peer c)"
    using own(1) t'
    by (intro flow_ok_cong [OF finv_flow [OF inv]]) (auto simp: w1 t(1) own_slots_def)
  show "b = None \<longrightarrow> out_buf w1 Outgoing = []"
    using inv t(1) own by (cases c) (auto simp: w1 finv_def out_buf_def own_slots_def)
qed

lemma data_listener_body:
  assumes "s \<noteq> []" "\<not> deleted w" and w1: "set_slot (data_in (cl w c)) (in_buf w c @ s) w = w1"
  shows "data_listener s wr st c w = (case ftcp (cl w1 (peer c)) of
       None \<Rightarrow> Inr w1
     | Some q \<Rightarrow> if gone (conns w1 q) then Inl UseAfterFree
         else if wr \<and> length (out_buf w1 c) = 0 then conn_Write q (data_out (cl (Swap c w1) c)) st (Swap c w1) else Inr w1)"
  unfolding data_listener_def Let_def w1 using assms(1,2) by simp

text \<open>With the data in the buffer: nothing more to do when there is no open destination or a write is under way.\<close>

lemma received_idle:
  assumes "socks_ok a b w1" "flow_core a b w1 c" "flow_ok a b w1 (peer c)" "b = None \<longrightarrow> out_buf w1 Outgoing = []"
    and "\<And>q. ftcp (cl w1 (peer c)) = Some q \<Longrightarrow> \<not> closing (conns w1 q) \<Longrightarrow> out_buf w1 c \<noteq> []"
  shows "finv a b w1"
proof -
  have "flow_ok a b w1 c"
    using assms ftcp_sock [OF assms(1), of "peer c"] socks_ok_side [OF assms(1), of "peer c"]
    by (intro flow_ok_progress) (auto simp: side_ok_def split: option.splits if_splits)
  with assms show ?thesis by (auto intro: finvI)
qed

lemma finv_data_listener:
  assumes inv: "finv a b w" and t: "sock a b c = Some t" "\<not> gone (conns w t)"
    and wr: "\<And>q. ftcp (cl w (peer c)) = Some q \<Longrightarrow> \<not> closing (conns w q) \<Longrightarrow> wr"
  shows "\<exists>w'. data_listener s wr st c (upd_conn t (\<lambda>k. k\<lparr>rcvd := rcvd k @ s\<rparr>) w) = Inr w' \<and> finv a b w'"
proof (cases "s = []")
  case True
  have "upd_conn t (\<lambda>k. k) w = w"
    by (simp add: upd_conn_def)
  with True inv not_deleted [OF finv_socks [OF inv] t] show ?thesis
    by (simp add: data_listener_def)
next
  case False
  let ?w0 = "upd_conn t (\<lambda>k. k\<lparr>rcvd := rcvd k @ s\<rparr>) w"
  define w1 where "w1 = set_slot (data_in (cl w c)) (in_buf w c @ s) (upd_conn t (\<lambda>k. k\<lparr>rcvd := rcvd k @ s\<rparr>) w)"
  have rec: "socks_ok a b w1" "flow_core a b w1 c" "flow_ok a b w1 (peer c)" "b = None \<longrightarrow> out_buf w1 Outgoing = []"
    using received [OF inv t w1_def] by blast+
  note idle = received_idle [OF rec]
  have "set_slot (data_in (cl ?w0 c)) (in_buf ?w0 c @ s) ?w0 = w1" by (simp add: w1_def in_buf_def)
  note body = data_listener_body [OF False _ this, of wr st]
  have nd: "\<not> deleted ?w0" using not_deleted [OF finv_socks [OF inv] t] by simp
  show ?thesis
  proof (cases "ftcp (cl w1 (peer c))")
    case None
    with idle body [OF nd] show ?thesis by simp
  next
    case (Some q)
    then have q: "sock a b (peer c) = Some q" "\<not> gone (conns w1 q)"
      using ftcp_sock [OF rec(1), of "peer c"] by (auto split: option.splits if_splits)
    have "\<not> closing (conns w1 q) \<longrightarrow> wr" using wr [of q] Some by (auto simp: w1_def split: if_splits)
    moreover have "in_buf w1 c \<noteq> []" using False by (simp add: w1_def in_buf_def)
    ultimately show ?thesis
      using Some q body [OF nd] idle finv_flush [OF rec(1-3)] both_socks [OF t(1) q(1)] by auto
  qed
qed

lemma finv_OnRead:
  assumes inv: "finv a b w" and t: "sock a b c = Some t" and "allowed w (EvRead t nread buf wr st)"
  shows "\<exists>w'. conn_OnRead t nread buf wr st w = Inr w' \<and> finv a b w'"
proof -
  have ok: "\<not> closing (conns w t)" "\<not> gone (conns w t)" "writable_if_open w t wr"
    using assms(3) by (auto elim: allowed_readE)
  have reg: "on_data (conns w t) = [c]"
    using sock_registered [OF finv_socks [OF inv] t] by (simp add: registered_def)
  have wr: "wr" if "ftcp (cl w (peer c)) = Some q" "\<not> closing (conns w q)" for q
    using ok(3) reg that by (auto simp: writable_if_open_def)
  have data: "\<exists>w'. data_listener s wr st c (upd_conn t (\<lambda>k. k\<lparr>rcvd := rcvd k @ s\<rparr>) w) = Inr w' \<and> finv a b w'" for s
    by (rule finv_data_listener [OF inv t ok(2)]) (rule wr)
  show ?thesis
    using data [of "take (nat nread) buf"] finv_OnError [OF inv t ok(2)] finv_mark [OF inv t] ok(2)
    by (auto simp: conn_OnRead_def reg conn_Close_eq Let_def)
qed

text \<open>A completed write: the send listener clears the output buffer and sends what waits.\<close>

lemma completed:
  assumes inv: "finv a b w" and t: "sock a b c = Some t" "\<not> gone (conns w t)" and fl: "inflight (conns w t) \<noteq> []"
    and w1: "w1 = set_slot (data_out (cl w (peer c))) [] (upd_conn t (\<lambda>k. k\<lparr>inflight := tl (inflight k)\<rparr>) w)"
  shows "socks_ok a b w1" "flow_core a b w1 (peer c)" "flow_ok a b w1 c" "out_buf w1 (peer c) = []"
    "b = None \<longrightarrow> out_buf w1 Outgoing = []" "ftcp (cl w1 c) = Some t" "\<not> gone (conns w1 t)"
proof -
  note socks = finv_socks [OF inv]
  have own: "own_slots w c" "own_slots w (peer c)"
    using inv by (auto intro: flow_ok_own finv_flow)
  have t': "sock a b (peer c) \<noteq> Some t"
    using sock_distinct [OF socks t(1)] .
  show socks1: "socks_ok a b w1"
    unfolding w1 using sock_registered [OF socks t(1)] t
    by (intro socks_ok_set_slot socks_ok_upd_conn [OF socks t]) (auto simp: registered_def)
  have core0: "dir_core (cl w (peer c)) (store w) (rcvd (conn_of w (sock a b (peer c)))) (conns w t)"
    using flow_ok_core [OF finv_flow [OF inv, of "peer c"]] t(1) by (simp add: flow_core_def)
  show "flow_core a b w1 (peer c)"
    using dir_sent [OF core0 fl] own t' by (simp add: flow_core_def w1 t(1) own_slots_def)
  show "flow_ok a b w1 c"
    using own t' by (intro flow_ok_cong [OF finv_flow [OF inv]]) (auto simp: w1 t(1) own_slots_def)
  show out: "out_buf w1 (peer c) = []"
    by (simp add: out_buf_def w1)
  show "b = None \<longrightarrow> out_buf w1 Outgoing = []"
    using t(1) out by (cases c) auto
  show "ftcp (cl w1 c) = Some t"
    using ftcp_sock [OF socks1, of c] t by (simp add: w1)
  show "\<not> gone (conns w1 t)"
    using t by (simp add: w1)
qed

lemma finv_send_listener:
  assumes inv: "finv a b w" and t: "sock a b c = Some t" "\<not> gone (conns w t)"
    and fl: "inflight (conns w t) \<noteq> []"
  shows "\<exists>w'. send_listener st c (upd_conn t (\<lambda>k. k\<lparr>inflight := tl (inflight k)\<rparr>) w) = Inr w' \<and> finv a b w'"
proof -
  let ?w0 = "upd_conn t (\<lambda>k. k\<lparr>inflight := tl (inflight k)\<rparr>) w"
  define w1 where "w1 = set_slot (data_out (cl w (peer c))) [] ?w0"
  note post = completed [OF inv t fl w1_def]
  have alt: "set_slot (data_out (cl ?w0 (peer c))) [] ?w0 = w1"
    by (simp add: w1_def)
  have body: "send_listener st c ?w0 = (if length (in_buf w1 (peer c)) > 0
      then case ftcp (cl (Swap (peer c) w1) c) of None \<Rightarrow> Inl NullDeref
         | Some t \<Rightarrow> conn_Write t (data_out (cl (Swap (peer c) w1) (peer c))) st (Swap (peer c) w1)
      else Inr w1)"
    unfolding send_listener_def Let_def alt using not_deleted [OF finv_socks [OF inv] t] by simp
  show ?thesis
  proof (cases "in_buf w1 (peer c) = []")
    case True
    with flow_ok_progress [OF post(2)] have "finv a b w1"
      using post(1,3,5) by (auto intro: finvI)
    with True body show ?thesis by simp
  next
    case False
    have "b \<noteq> None"
    proof
      assume "b = None"
      then have "c = Incoming" using t(1) by (cases c) auto
      then show False
        using post(2,4) \<open>b = None\<close> False
        by (auto simp: flow_core_def dir_core_def in_buf_def out_buf_def new_conn_def)
    qed
    moreover have "ftcp (cl (Swap (peer c) w1) c) = Some t"
      using post(6) by (simp add: Swap_eq [OF ftcp_distinct [OF post(1) t(1) post(7)]])
    ultimately show ?thesis
      using False body finv_flush [OF post(1,2), of t st] post(3,4,7) t(1) by simp
  qed
qed

lemma finv_OnWrite:
  assumes inv: "finv a b w" and t: "sock a b c = Some t" and "allowed w (EvWrote t status st)"
  shows "\<exists>w'. conn_OnWrite t status st w = Inr w' \<and> finv a b w'"
proof -
  let ?w1 = "upd_conn t (\<lambda>k. k\<lparr>inflight := tl (inflight k)\<rparr>) w"
  have ok: "\<not> gone (conns w t)" "inflight (conns w t) \<noteq> []"
    using assms(3) by (auto elim: allowed_wroteE)
  note socks = finv_socks [OF inv]
  have reg: "registered c (conns w t)"
    by (rule sock_registered [OF socks t])
  have socks1: "socks_ok a b ?w1"
    using reg ok by (intro socks_ok_upd_conn [OF socks t]) (auto simp: registered_def)
  have t': "sock a b (peer c) \<noteq> Some t"
    using sock_distinct [OF socks t] .
  have core0: "dir_core (cl w (peer c)) (store w) (rcvd (conn_of w (sock a b (peer c)))) (conns w t)"
    using flow_ok_core [OF finv_flow [OF inv, of "peer c"]] t by (simp add: flow_core_def)
  have "finv a b (mark t ?w1)"
  proof (rule finvI [where c = c])
    show "socks_ok a b (mark t ?w1)" by (rule socks_ok_mark [OF socks1 t])
    show "flow_ok a b (mark t ?w1) c"
      using t' by (intro flow_ok_mark flow_ok_cong [OF finv_flow [OF inv]]) (auto simp: t)
    have "flow_ok a b w (peer c)" by (rule finv_flow [OF inv])
    then show "flow_ok a b (mark t ?w1) (peer c)"
      using dir_write_error [OF core0 ok(2)] t' by (simp add: flow_ok_def own_slots_def t conn_of_mark)
    show "b = None \<longrightarrow> out_buf (mark t ?w1) Outgoing = []"
      using inv by (simp add: finv_def out_buf_def)
  qed
  from finv_mark_live [OF this]
  have "\<exists>w'. conn_OnError t ?w1 = Inr w' \<and> finv a b w'"
    using conn_OnError_eq [OF socks1 t] ok(1) by simp
  then show ?thesis
    using finv_send_listener [OF inv t ok] reg
    by (auto simp: conn_OnWrite_def registered_def bindE_Inr_iff Let_def)
qed

section \<open>Close callbacks\<close>

definition drop_conn :: "side \<Rightarrow> nat \<Rightarrow> fwd \<Rightarrow> fwd" where
  "drop_conn c t w = upd_conn t (\<lambda>k. k\<lparr>gone := True\<rparr>) (upd_client c (\<lambda>k. k\<lparr>ftcp := None\<rparr>) w)"

lemma drop_conn_sel [simp]:
  "cl (drop_conn c t w) c' = (if c' = c then (cl w c)\<lparr>ftcp := None\<rparr> else cl w c')"
  "store (drop_conn c t w) = store w" "deleted (drop_conn c t w) = deleted w"
  "closed_calls (drop_conn c t w) = closed_calls w"
  "conns (drop_conn c t w) k = (if k = t then (conns w t)\<lparr>gone := True\<rparr> else conns w k)"
  by (simp_all add: drop_conn_def)

lemma conn_of_drop: "conn_of (drop_conn c t w) so =
    (if so = Some t then (conn_of w so)\<lparr>gone := True\<rparr> else conn_of w so)"
  by (auto simp: conn_of_def split: option.splits)

lemma dir_ok_drop [simp]:
  "dir_ok c st att r (d\<lparr>gone := True\<rparr>) = dir_ok c st att r d"
  "dir_ok (c\<lparr>ftcp := None\<rparr>) st att r d = dir_ok c st att r d"
  by (simp_all add: dir_ok_def)

lemma drop_conn_flow: "flow_ok a b w c' \<Longrightarrow> flow_ok a b (drop_conn c t w) c'"
  by (auto simp: flow_ok_def own_slots_def conn_of_drop)

lemma conn_of_flags [simp]: "conn_of (w\<lparr>closed_calls := n, deleted := d\<rparr>) so = conn_of w so"
  by (cases so) simp_all

lemma flow_ok_flags [simp]:
  "flow_ok a b (w\<lparr>closed_calls := n, deleted := d\<rparr>) c = flow_ok a b w c"
  by (simp add: flow_ok_def own_slots_def)

lemma finv_drop:
  assumes inv: "finv a b w" and t: "sock a b c = Some t" "\<not> gone (conns w t)"
    and cl: "closing (conns w t)" "inflight (conns w t) = []"
    and peer: "\<And>q. sock a b (peer c) = Some q \<Longrightarrow> closing (conns w q)"
    and w': "w' = (if ftcp (cl w (peer c)) = None
      then (drop_conn c t w)\<lparr>closed_calls := Suc (closed_calls w), deleted := True\<rparr> else drop_conn c t w)"
  shows "finv a b w'"
proof -
  note socks = finv_socks [OF inv]
  have "socks_ok a b w'"
    using socks t cl peer not_deleted [OF socks t] ftcp_sock [OF socks, of "peer c"]
    by (cases c; cases b) (auto simp: w' socks_ok_def side_ok_def registered_def split: if_splits)
  moreover have "flow_ok a b w' c'" for c'
  proof -
    have "flow_ok a b (drop_conn c t w) c'"
      by (rule drop_conn_flow [OF finv_flow [OF inv]])
    then show ?thesis by (simp add: w' flow_ok_flags)
  qed
  moreover have "b = None \<longrightarrow> out_buf w' Outgoing = []"
    using inv by (simp add: w' finv_def out_buf_def)
  ultimately show ?thesis by (simp add: finv_def)
qed

lemma finv_OnClose:
  assumes inv: "finv a b w" and t: "sock a b c = Some t" and "allowed w (EvClosed t)"
  shows "\<exists>w'. conn_OnClose t w = Inr w' \<and> finv a b w'"
proof -
  have ok: "closing (conns w t)" "\<not> gone (conns w t)" "inflight (conns w t) = []"
    using assms(3) by (auto elim: allowed_closedE)
  note socks = finv_socks [OF inv]
  have reg: "on_close (conns w t) = [c]"
    using sock_registered [OF socks t] by (simp add: registered_def)
  have alive: "\<not> deleted w" by (rule not_deleted [OF socks t ok(2)])
  have ftcps: "ftcp (cl w c) = Some t" "ftcp (cl w (peer c)) \<noteq> Some t"
    using ftcp_sock [OF socks, of c] ftcp_sock [OF socks, of "peer c"] t ok(2) sock_distinct [OF socks t]
    by (auto split: option.splits)
  show ?thesis
  proof (cases "ftcp (cl w (peer c))")
    case None
    let ?w' = "(drop_conn c t w)\<lparr>closed_calls := Suc (closed_calls w), deleted := True\<rparr>"
    have "conn_OnClose t w = Inr ?w'"
      using None alive ftcps
      by (simp add: conn_OnClose_def reg close_listener_def Let_def drop_conn_def upd_conn_def upd_client_def)
    moreover have "closing (conns w q)" if "sock a b (peer c) = Some q" for q
      using None that ftcp_sock [OF socks, of "peer c"] socks_ok_side [OF socks, of "peer c"]
      by (auto simp: side_ok_def split: option.splits if_splits)
    then have "finv a b ?w'"
      using None by (intro finv_drop [OF inv t ok(2,1,3)]) auto
    ultimately show ?thesis by blast
  next
    case (Some q)
    then have q: "sock a b (peer c) = Some q" "\<not> gone (conns w q)" "q \<noteq> t"
      using ftcp_sock [OF socks, of "peer c"] ftcps by (auto split: option.splits if_splits)
    let ?w' = "drop_conn c t (mark q w)"
    have "conn_OnClose t w = Inr ?w'"
      using Some alive ftcps q
      by (simp add: conn_OnClose_def reg close_listener_def Let_def close_unless_closing_eq)
        (simp add: drop_conn_def mark_def upd_conn_def upd_client_def)
    moreover have "finv a b ?w'"
      using Some q ok t by (intro finv_drop [OF finv_mark [OF inv q(1)] t]) auto
    ultimately show ?thesis by blast
  qed
qed

section \<open>Attaching the upstream connection\<close>

lemma attached:
  assumes inv: "finv a None w" and ok: "\<not> deleted w" "conns w t = new_conn"
    and w2: "w2 = fwd_Init Outgoing t (upd_client Outgoing (\<lambda>k. k\<lparr>ftcp := Some t\<rparr>) w)"
  shows "ftcp (cl w Incoming) = Some a" "t \<noteq> a" "socks_ok a (Some t) w2" "flow_core a (Some t) w2 Incoming"
    "flow_ok a (Some t) w2 Outgoing" "out_buf w2 Incoming = []" "\<not> gone (conns w2 t)"
proof -
  note socks = finv_socks [OF inv]
  show a: "ftcp (cl w Incoming) = Some a" using socks ok(1) by (auto simp: socks_ok_def side_ok_def)
  have "registered Incoming (conns w a)" using sock_registered [OF socks, of Incoming] by simp
  then show ta: "t \<noteq> a" using ok(2) by (auto simp: registered_def)
  have conn2: "conns w2 k = (if k = t then new_conn\<lparr>on_data := [Outgoing], on_send := [Outgoing],
      on_error := [Outgoing], on_close := [Outgoing]\<rparr> else conns w k)" for k
    using ok(2) by (simp add: w2 fwd_Init_def)
  have cl2: "cl w2 Incoming = cl w Incoming" "cl w2 Outgoing = (cl w Outgoing)\<lparr>ftcp := Some t\<rparr>"
    and st2: "store w2 = store w" "deleted w2 = deleted w" "closed_calls w2 = closed_calls w"
    by (simp_all add: w2 fwd_Init_def)
  show "socks_ok a (Some t) w2"
    using socks ta ok(1) a by (auto simp: socks_ok_def side_ok_def conn2 cl2 st2 registered_def)
  have flowI: "flow_ok a None w Incoming" and flowO: "flow_ok a None w Outgoing" and outO: "out_buf w Outgoing = []"
    using inv by (auto simp: finv_def)
  show outI: "out_buf w2 Incoming = []"
    using flowI by (auto simp: flow_ok_def dir_ok_def out_buf_def cl2 st2 split: if_splits)
  show "flow_core a (Some t) w2 Incoming"
    using flow_ok_core [OF flowI] ta outI
    by (auto simp: flow_core_def dir_core_def own_slots_def conn2 cl2 st2 out_buf_def)
  show "flow_ok a (Some t) w2 Outgoing"
    using flowO outO ta by (auto simp: flow_ok_def dir_ok_def own_slots_def conn2 cl2 st2 out_buf_def)
  show "\<not> gone (conns w2 t)" by (simp add: conn2)
qed

lemma finv_Attach:
  assumes inv: "finv a b w" and "allowed w (EvAttach t st)"
  shows "\<exists>w'. SetOutgoing t st w = Inr w' \<and> finv a (Some t) w'"
proof -
  have ok: "\<not> deleted w" "conns w t = new_conn" "\<And>k. Outgoing \<notin> set (on_data (conns w k))"
    using assms(2) by (auto elim: allowed_attachE)
  have "b = None"
  proof (cases b)
    case (Some q)
    then have "registered Outgoing (conns w q)"
      using sock_registered [OF finv_socks [OF inv], of Outgoing q] by simp
    with ok(3) [of q] show ?thesis by (simp add: registered_def)
  qed
  note inv = inv [unfolded this]
  define w2 where "w2 = fwd_Init Outgoing t (upd_client Outgoing (\<lambda>k. k\<lparr>ftcp := Some t\<rparr>) w)"
  note post = attached [OF inv ok(1,2) w2_def]
  have body: "SetOutgoing t st w =
     (if length (in_buf w2 Incoming) > 0 \<and> length (out_buf w2 Incoming) = 0
      then conn_Write t (data_out (cl (Swap Incoming w2) Incoming)) st (Swap Incoming w2) else Inr w2)"
    unfolding SetOutgoing_def Let_def using post(1,2) by (simp add: w2_def)
  show ?thesis
  proof (cases "in_buf w2 Incoming = []")
    case True
    with flow_ok_progress [OF post(4)] have "finv a (Some t) w2" using post(3,5) by (simp add: finv_def)
    with True body show ?thesis by simp
  next
    case False
    with body finv_flush [OF post(3,4), of t st] post(5-7) show ?thesis by simp
  qed
qed

section \<open>Every allowed event is handled\<close>

lemma sock_of_conn:
  assumes "socks_ok a b w" "conns w t \<noteq> new_conn"
  shows "\<exists>c. sock a b c = Some t"
proof -
  have "t = a \<or> b = Some t" using assms by (auto simp: socks_ok_def)
  then have "sock a b Incoming = Some t \<or> sock a b Outgoing = Some t" by auto
  then show ?thesis by blast
qed

lemma allowed_sock:
  assumes "socks_ok a b w" "allowed w e" "e = EvRead t nread buf wr st \<or> e = EvWrote t status st
    \<or> e = EvClosed t \<or> e = EvClose t"
  shows "\<exists>c. sock a b c = Some t"
  using assms(2,3)
  by (intro sock_of_conn [OF assms(1)])
    (auto simp: new_conn_def elim!: allowed_readE allowed_wroteE allowed_closedE allowed_closeE)

text \<open>Only an attachment changes which connections there are.\<close>

lemma finv_handle_same:
  assumes inv: "finv a b w" and al: "allowed w e" and "\<And>t st. e \<noteq> EvAttach t st"
  shows "\<exists>w'. handle e w = Inr w' \<and> finv a b w'"
proof (cases e)
  case (EvRead t nread buf wr st)
  with allowed_sock [OF finv_socks [OF inv] al] obtain c where "sock a b c = Some t" by blast
  from finv_OnRead [OF inv this] al EvRead show ?thesis by (metis handle.simps(1))
next
  case (EvWrote t status st)
  with allowed_sock [OF finv_socks [OF inv] al] obtain c where "sock a b c = Some t" by blast
  from finv_OnWrite [OF inv this] al EvWrote show ?thesis by (metis handle.simps(2))
next
  case (EvClosed t)
  with allowed_sock [OF finv_socks [OF inv] al] obtain c where "sock a b c = Some t" by blast
  from finv_OnClose [OF inv this] al EvClosed show ?thesis by (metis handle.simps(3))
next
  case (EvAttach t st)
  with assms(3) show ?thesis by blast
next
  case (EvClose t)
  with allowed_sock [OF finv_socks [OF inv] al] obtain c where c: "sock a b c = Some t" by blast
  have "\<not> gone (conns w t)" using al EvClose by (auto elim: allowed_closeE)
  with finv_mark [OF inv c] EvClose show ?thesis by (auto simp: conn_Close_eq)
qed

lemma finv_handle:
  assumes "finv a b w" "allowed w e"
  shows "\<exists>w' b'. handle e w = Inr w' \<and> finv a b' w'"
proof (cases e)
  case (EvAttach t st)
  with finv_Attach [OF assms(1)] assms(2) show ?thesis by (metis handle.simps(4))
qed (use finv_handle_same [OF assms] in blast)+

lemma fwd_step_finv: "\<exists>b. finv a b w \<Longrightarrow> fwd_step w e w' \<Longrightarrow> \<exists>b. finv a b w'"
  using finv_handle by (fastforce simp: fwd_step_def)

interpretation fwd_sys: invariant_system "\<lambda>w. w = fwd_Create a" fwd_step "\<lambda>w. \<exists>b. finv a b w" for a
proof unfold_locales
  show "w = fwd_Create a \<Longrightarrow> \<exists>b. finv a b w" for w
    using finv_Create by blast
qed (rule fwd_step_finv)

section \<open>A concrete run\<close>

text \<open>
  Two bytes arrive before the upstream connection exists; attaching it flushes them; two more
  wait while the first write is in flight. The witnesses below evaluate the handlers on it.
\<close>

lemmas run_defs = conn_OnRead_def conn_OnWrite_def conn_OnClose_def data_listener_def
  send_listener_def close_listener_def SetOutgoing_def conn_Write_def Swap_def fwd_Init_def
  in_buf_def out_buf_def Let_def new_client_def

lemma reach_by:
  "reach init fwd_step w \<Longrightarrow> allowed w e \<Longrightarrow> handle e w = Inr w' \<Longrightarrow> reach init fwd_step w'"
  by (rule reach_step) (auto simp: fwd_step_def)

definition demo1 :: fwd where
  "demo1 = set_slot (Slot Incoming False) ''ab'' (upd_conn 0 (\<lambda>k. k\<lparr>rcvd := rcvd k @ ''ab''\<rparr>) (fwd_Create 0))"

definition demo2 :: fwd where
  "demo2 = projr (handle (EvAttach 7 0) demo1)"

definition demo3 :: fwd where
  "demo3 = projr (handle (EvRead 0 2 ''cd'' True 0) demo2)"

lemma fwd_Create_sel [simp]:
  "cl (fwd_Create a) c = new_client c (if c = Incoming then Some a else None)"
  "store (fwd_Create a) p = []" "deleted (fwd_Create a) = False" "closed_calls (fwd_Create a) = 0"
  "conns (fwd_Create a) t = (if t = a then new_conn\<lparr>on_data := [Incoming], on_send := [Incoming],
     on_error := [Incoming], on_close := [Incoming]\<rparr> else new_conn)"
  by (simp_all add: fwd_Create_def fwd_Init_def)

lemma demo1_reach: "reach (\<lambda>w. w = fwd_Create 0) fwd_step demo1"
proof (rule reach_by [OF reach_init])
  show "allowed (fwd_Create 0) (EvRead 0 2 ''ab'' True 0)"
    by (rule allow_read) (simp_all add: writable_if_open_def)
  show "handle (EvRead 0 2 ''ab'' True 0) (fwd_Create 0) = Inr demo1"
    by (simp add: run_defs demo1_def numeral_2_eq_2)
qed simp

lemma handle_projr:
  assumes "reach (\<lambda>w. w = fwd_Create a) fwd_step w" "allowed w e"
  shows "handle e w = Inr (projr (handle e w))"
proof -
  obtain b where "finv a b w" using fwd_sys.reach_inv [OF assms(1)] by blast
  from finv_handle [OF this assms(2)] show ?thesis by auto
qed

lemma demo2_conns:
  "conns demo2 7 = new_conn\<lparr>on_data := [Outgoing], on_send := [Outgoing], on_error := [Outgoing],
     on_close := [Outgoing], inflight := [(Slot Incoming False, ''ab'')], wire := ''ab''\<rparr>"
  "conns demo2 0 = new_conn\<lparr>on_data := [Incoming], on_send := [Incoming], on_error := [Incoming],
     on_close := [Incoming], rcvd := ''ab''\<rparr>"
  "cl demo2 Incoming = \<lparr>ftcp = Some 0, data_in = Slot Incoming True, data_out = Slot Incoming False\<rparr>"
  "cl demo2 Outgoing = \<lparr>ftcp = Some 7, data_in = Slot Outgoing False, data_out = Slot Outgoing True\<rparr>"
  "store demo2 = (\<lambda>_. [])(Slot Incoming False := ''ab'')" "deleted demo2 = False"
  by (simp_all add: demo2_def demo1_def run_defs swap_ptrs_def fun_eq_iff)

lemma demo2_reach: "reach (\<lambda>w. w = fwd_Create 0) fwd_step demo2"
proof -
  have "allowed demo1 (EvAttach 7 0)"
    by (rule allow_attach) (simp_all add: demo1_def)
  from reach_by [OF demo1_reach this handle_projr [OF demo1_reach this]]
  show ?thesis by (simp add: demo2_def)
qed

lemma demo3_conns:
  "conns demo3 7 = conns demo2 7"
  "conns demo3 0 = (conns demo2 0)\<lparr>rcvd := ''abcd''\<rparr>"
  "cl demo3 = cl demo2" "deleted demo3 = False"
  "store demo3 = (\<lambda>_. [])(Slot Incoming False := ''ab'', Slot Incoming True := ''cd'')"
  by (simp_all add: demo3_def run_defs demo2_conns numeral_2_eq_2)

lemma demo3_allowed: "allowed demo2 (EvRead 0 2 ''cd'' True 0)"
  by (rule allow_read) (simp_all add: writable_if_open_def demo2_conns)

lemma demo3_reach: "reach (\<lambda>w. w = fwd_Create 0) fwd_step demo3"
  using reach_by [OF demo2_reach demo3_allowed handle_projr [OF demo2_reach demo3_allowed]]
  by (simp add: demo3_def)

end
