(* ===== verification/ForwarderEcho.thy ===== *)
theory ForwarderEcho
  imports ForwarderInv
begin

text \<open>
  The same handlers with both sides on one connection, as the echo server sets them up
  (\<open>TcpForwarder::Create(client, client)\<close>, used by \<open>StartDummyTcpServer\<close>): the outgoing
  client's buffer pointers alias the incoming client's, and \<open>Swap\<close> keeps the two pairs of
  pointers equal.
\<close>

definition echo_step :: "fwd \<Rightarrow> fev \<Rightarrow> fwd \<Rightarrow> bool" where
  "echo_step w e w' \<longleftrightarrow> fwd_step w e w' \<and> (\<forall>t st. e \<noteq> EvAttach t st)"

definition esocks :: "nat \<Rightarrow> fwd \<Rightarrow> bool" where
  "esocks a w \<longleftrightarrow> registered Incoming (conns w a) \<and> (\<forall>t. t \<noteq> a \<longrightarrow> conns w t = new_conn)
     \<and> ftcp (cl w Incoming) = (if gone (conns w a) then None else Some a)
     \<and> ftcp (cl w Outgoing) = ftcp (cl w Incoming)
     \<and> data_in (cl w Outgoing) = data_in (cl w Incoming)
     \<and> data_out (cl w Outgoing) = data_out (cl w Incoming)
     \<and> (deleted w \<longleftrightarrow> gone (conns w a)) \<and> closed_calls w = (if deleted w then 1 else 0)
     \<and> (gone (conns w a) \<longrightarrow> closing (conns w a) \<and> inflight (conns w a) = [])"

definition einv :: "nat \<Rightarrow> fwd \<Rightarrow> bool" where
  "einv a w \<longleftrightarrow> esocks a w
     \<and> dir_ok (cl w Incoming) (store w) True (rcvd (conns w a)) (conns w a)"

lemma einv_CreateEcho: "\<exists>w. CreateEcho a st = Inr w \<and> einv a w"
  by (simp add: CreateEcho_def SetOutgoing_def in_buf_def new_client_def einv_def esocks_def
      registered_def dir_ok_def)

lemma Swap_echo:
  "ftcp (cl w Incoming) = ftcp (cl w Outgoing) \<Longrightarrow>
   Swap c w = upd_client (peer c) swap_ptrs (upd_client c swap_ptrs w)"
  by (cases c) (auto simp: Swap_def Let_def)

lemma Swap_echo_sel:
  assumes "ftcp (cl w Incoming) = ftcp (cl w Outgoing)"
  shows "cl (Swap c w) c' = swap_ptrs (cl w c')" "store (Swap c w) = store w"
    "conns (Swap c w) = conns w" "deleted (Swap c w) = deleted w"
    "closed_calls (Swap c w) = closed_calls w"
  using side_exhaust_peer [of c' c] by (auto simp: Swap_echo [OF assms])

lemma echo_OnError:
  "esocks a w \<Longrightarrow> \<not> gone (conns w a) \<Longrightarrow> conn_OnError a w = Inr (mark a w)"
  by (simp add: esocks_def conn_OnError_def error_listener_def registered_def conn_Close_eq
      close_unless_closing_eq mark_id)

lemma esocks_mark: "esocks a w \<Longrightarrow> esocks a (mark a w)"
  by (auto simp: esocks_def registered_def)

lemma einv_mark: "einv a w \<Longrightarrow> einv a (mark a w)"
  by (simp add: einv_def esocks_mark dir_ok_close)

lemma esocks_upd_conn:
  "esocks a w \<Longrightarrow> \<not> gone (conns w a) \<Longrightarrow> registered Incoming (f (conns w a)) \<Longrightarrow>
   gone (f (conns w a)) = gone (conns w a) \<Longrightarrow> esocks a (upd_conn a f w)"
  by (auto simp: esocks_def)

lemma esocks_set_slot: "esocks a w \<Longrightarrow> esocks a (set_slot p bs w)"
  by (simp add: esocks_def)

lemma esocks_Swap: "esocks a w \<Longrightarrow> esocks a (Swap c w)"
  by (simp add: esocks_def Swap_echo_sel)

lemma einv_flush:
  assumes socks: "esocks a w" and alive: "\<not> gone (conns w a)"
    and core: "dir_core (cl w Incoming) (store w) (rcvd (conns w a)) (conns w a)"
    and bufs: "out_buf w Incoming = []" "in_buf w Incoming \<noteq> []"
  shows "\<exists>w'. conn_Write a (data_out (cl (Swap c w) c)) st (Swap c w) = Inr w' \<and> einv a w'"
proof -
  note sel = Swap_echo_sel [OF socks [unfolded esocks_def, THEN conjunct2, THEN conjunct2,
    THEN conjunct2, THEN conjunct1, symmetric]]
  have slot: "data_in (cl w c) = data_in (cl w Incoming)"
    using socks by (cases c) (auto simp: esocks_def)
  have b: "store w (data_out (cl w Incoming)) = []" "store w (data_in (cl w Incoming)) \<noteq> []"
    using bufs by (simp_all add: out_buf_def in_buf_def)
  have socks2: "esocks a (Swap c w)" by (rule esocks_Swap [OF socks])
  show ?thesis
  proof (cases "st = 0")
    case True
    have "esocks a (upd_conn a (\<lambda>k. k\<lparr>inflight := inflight k @ [(data_in (cl w Incoming),
        store w (data_in (cl w Incoming)))], wire := wire k @ store w (data_in (cl w Incoming))\<rparr>) (Swap c w))"
      using socks alive by (intro esocks_upd_conn [OF socks2]) (auto simp: sel esocks_def registered_def)
    then show ?thesis
      using True alive dir_flush [OF core b, of True] by (simp add: conn_Write_def slot sel einv_def)
  next
    case False
    have "einv a (mark a (Swap c w))"
      using esocks_mark [OF socks2] dir_flush_fail [OF core b, of True] by (simp add: einv_def sel)
    then show ?thesis
      using False alive echo_OnError [OF socks2] by (simp add: conn_Write_def sel)
  qed
qed

lemma dir_core_rcvd: "dir_core c st r (d\<lparr>rcvd := x\<rparr>) = dir_core c st r d"
  by (simp add: dir_core_def)

lemma einv_data_listener:
  assumes inv: "einv a w" and alive: "\<not> gone (conns w a)" and wr: "\<not> closing (conns w a) \<Longrightarrow> wr"
  shows "\<exists>w'. data_listener s wr st Incoming (upd_conn a (\<lambda>k. k\<lparr>rcvd := rcvd k @ s\<rparr>) w) = Inr w'
    \<and> einv a w'"
proof (cases "s = []")
  case True
  have "upd_conn a (\<lambda>k. k) w = w" by (simp add: upd_conn_def)
  with True inv alive show ?thesis by (simp add: data_listener_def einv_def esocks_def)
next
  case False
  let ?w0 = "upd_conn a (\<lambda>k. k\<lparr>rcvd := rcvd k @ s\<rparr>) w"
  define w1 where "w1 = set_slot (data_in (cl w Incoming)) (in_buf w Incoming @ s) ?w0"
  have alt: "set_slot (data_in (cl ?w0 Incoming)) (in_buf ?w0 Incoming @ s) ?w0 = w1"
    by (simp add: w1_def in_buf_def)
  have socks: "esocks a w" and core0: "dir_core (cl w Incoming) (store w) (rcvd (conns w a)) (conns w a)"
    using inv by (auto simp: einv_def dir_ok_core)
  have socks1: "esocks a w1"
    unfolding w1_def using socks alive
    by (intro esocks_set_slot esocks_upd_conn) (auto simp: esocks_def registered_def)
  have core: "dir_core (cl w1 Incoming) (store w1) (rcvd (conns w1 a)) (conns w1 a)"
    using dir_recv [OF core0, of s] by (simp add: w1_def in_buf_def dir_core_rcvd)
  have inb: "in_buf w1 Incoming \<noteq> []"
    using False by (simp add: w1_def in_buf_def)
  have alive1: "\<not> gone (conns w1 a)" "ftcp (cl w1 Outgoing) = Some a" "\<not> deleted w"
    using socks alive by (auto simp: w1_def esocks_def)
  have body: "data_listener s wr st Incoming ?w0 = (if wr \<and> length (out_buf w1 Incoming) = 0
      then conn_Write a (data_out (cl (Swap Incoming w1) Incoming)) st (Swap Incoming w1) else Inr w1)"
    unfolding data_listener_def Let_def alt using alive1 False by simp
  show ?thesis
  proof (cases "wr \<and> out_buf w1 Incoming = []")
    case True
    with body einv_flush [OF socks1 alive1(1) core _ inb, of Incoming st] show ?thesis by simp
  next
    case False
    then have "einv a w1"
      using socks1 core wr by (auto simp: einv_def dir_ok_core dir_core_def out_buf_def w1_def split: if_splits)
    with body False show ?thesis by auto
  qed
qed

lemma einv_OnWrite:
  assumes inv: "einv a w" and ok: "\<not> gone (conns w a)" "inflight (conns w a) \<noteq> []"
  shows "\<exists>w'. conn_OnWrite a status st w = Inr w' \<and> einv a w'"
proof -
  let ?w0 = "upd_conn a (\<lambda>k. k\<lparr>inflight := tl (inflight k)\<rparr>) w"
  have socks: "esocks a w"
    and core0: "dir_core (cl w Incoming) (store w) (rcvd (conns w a)) (conns w a)"
    using inv by (auto simp: einv_def dir_ok_core)
  have reg: "registered Incoming (conns w a)" using socks by (simp add: esocks_def)
  have socks0: "esocks a ?w0"
    using reg ok by (intro esocks_upd_conn [OF socks]) (auto simp: registered_def)
  have err: "einv a (mark a ?w0)"
    using esocks_mark [OF socks0] dir_write_error [OF core0 ok(2), of True]
    by (simp add: einv_def) 
  define w1 where "w1 = set_slot (data_out (cl w Outgoing)) [] ?w0"
  have alt: "set_slot (data_out (cl ?w0 (peer Incoming))) [] ?w0 = w1" by (simp add: w1_def)
  have socks1: "esocks a w1" unfolding w1_def by (rule esocks_set_slot [OF socks0])
  have out: "data_out (cl w Outgoing) = data_out (cl w Incoming)" using socks by (simp add: esocks_def)
  have core: "dir_core (cl w1 Incoming) (store w1) (rcvd (conns w1 a)) (conns w1 a)"
    using dir_sent [OF core0 ok(2)] by (simp add: w1_def out)
  have bufs: "out_buf w1 Incoming = []" "in_buf w1 Outgoing = in_buf w1 Incoming"
    using socks1 by (simp_all add: out_buf_def in_buf_def w1_def out esocks_def)
  have alive1: "\<not> gone (conns w1 a)" "\<not> deleted w" using socks ok by (auto simp: w1_def esocks_def)
  have swapped: "ftcp (cl (Swap Outgoing w1) Incoming) = Some a"
    using esocks_Swap [OF socks1, of Outgoing] alive1(1) socks1
    by (simp add: esocks_def Swap_echo_sel)
  have send: "\<exists>w'. send_listener st Incoming ?w0 = Inr w' \<and> einv a w'"
  proof (cases "in_buf w1 Incoming = []")
    case True
    then have "einv a w1" using socks1 core by (auto simp: einv_def dir_ok_core in_buf_def)
    then show ?thesis
      unfolding send_listener_def Let_def alt using alive1 True bufs by simp
  next
    case False
    then show ?thesis
      unfolding send_listener_def Let_def alt
      using alive1 bufs swapped einv_flush [OF socks1 alive1(1) core bufs(1) False, of Outgoing st]
      by simp
  qed
  show ?thesis
    using send err reg echo_OnError [OF socks0] ok
    by (auto simp: conn_OnWrite_def registered_def Let_def)
qed

lemma einv_OnClose:
  assumes inv: "einv a w" and ok: "closing (conns w a)" "\<not> gone (conns w a)" "inflight (conns w a) = []"
  shows "\<exists>w'. conn_OnClose a w = Inr w' \<and> einv a w'"
proof -
  have d: "dir_ok (k\<lparr>ftcp := None\<rparr>) s True r (c\<lparr>gone := True\<rparr>) = dir_ok k s True r c" for k s r c
    by simp
  show ?thesis
    using inv ok
    by (simp add: conn_OnClose_def einv_def esocks_def registered_def close_listener_def Let_def)
qed

lemma einv_handle:
  assumes inv: "einv a w" and al: "allowed w e" and na: "\<forall>t st. e \<noteq> EvAttach t st"
  shows "\<exists>w'. handle e w = Inr w' \<and> einv a w'"
proof -
  have only: "t = a" if "conns w t \<noteq> new_conn" for t
    using inv that by (auto simp: einv_def esocks_def)
  have reg: "registered Incoming (conns w a)" using inv by (simp add: einv_def esocks_def)
  have socks: "esocks a w" using inv by (simp add: einv_def)
  from al na show ?thesis
  proof (cases rule: allowed.cases)
    case (allow_read t wr nread buf st)
    then have t: "t = a" by (intro only) auto
    have wr: "wr" if "\<not> closing (conns w a)"
      using allow_read reg socks that t by (auto simp: writable_if_open_def registered_def esocks_def)
    have "\<exists>w'. data_listener s wr st Incoming (upd_conn a (\<lambda>k. k\<lparr>rcvd := rcvd k @ s\<rparr>) w) = Inr w'
        \<and> einv a w'" for s
      using allow_read t by (intro einv_data_listener [OF inv]) (auto intro: wr)
    from this [of "take (nat nread) buf"] show ?thesis
      using allow_read t reg echo_OnError [OF socks] einv_mark [OF inv]
      by (auto simp: conn_OnRead_def registered_def conn_Close_eq Let_def)
  next
    case (allow_wrote t status st)
    then have "t = a" by (intro only) auto
    with allow_wrote einv_OnWrite [OF inv] show ?thesis by simp
  next
    case (allow_closed t)
    then have "t = a" by (intro only) auto
    with allow_closed einv_OnClose [OF inv] show ?thesis by simp
  next
    case (allow_close t)
    then have "t = a" by (intro only) auto
    with allow_close einv_mark [OF inv] show ?thesis by (simp add: conn_Close_eq)
  qed auto
qed

interpretation echo_sys: invariant_system "\<lambda>w. \<exists>st. CreateEcho a st = Inr w" echo_step "einv a" for a
proof unfold_locales
  show "\<exists>st. CreateEcho a st = Inr w \<Longrightarrow> einv a w" for w
    using einv_CreateEcho [of a] by (metis sum.inject(2))
  show "einv a w \<Longrightarrow> echo_step w e w' \<Longrightarrow> einv a w'" for w e w'
    using einv_handle by (fastforce simp: echo_step_def fwd_step_def)
qed

end
