(* ===== verification/ForwarderProps.thy ===== *)
theory ForwarderProps
  imports ForwarderEcho
begin

text \<open>
  What the forwarder promises, read off the invariants of \<open>ForwarderInv\<close> and
  \<open>ForwarderEcho\<close>: no handler ever faults, the two directions are FIFO channels without loss
  or duplication, buffers handed to libuv stay unchanged while it holds them, nothing stalls,
  and closing one connection closes the other and frees the forwarder exactly once.
\<close>

lemma reach_finv: "reach (\<lambda>w. w = fwd_Create a) fwd_step w \<Longrightarrow> \<exists>b. finv a b w"
  by (rule fwd_sys.reach_inv)

lemma registered_sock:
  assumes "finv a b w" "on_data (conns w t) = [c]"
  shows "sock a b c = Some t"
proof -
  have "conns w t \<noteq> new_conn" using assms(2) by auto
  then obtain c' where c': "sock a b c' = Some t"
    using sock_of_conn [OF finv_socks [OF assms(1)]] by blast
  have "c' = c"
    using sock_registered [OF finv_socks [OF assms(1)] c'] assms(2) by (simp add: registered_def)
  with c' show ?thesis by simp
qed

lemma finv_dir:
  assumes "finv a b w" "on_data (conns w s) = [c]" "on_data (conns w d) = [peer c]"
  shows "dir_ok (cl w c) (store w) True (rcvd (conns w s)) (conns w d)"
  using finv_flow [OF assms(1), of c] registered_sock [OF assms(1,2)] registered_sock [OF assms(1,3)]
  by (simp add: flow_ok_def)

lemma dir_fifo:
  "dir_ok k st att r d \<Longrightarrow> prefix (wire d) r
    \<and> (\<not> closing d \<longrightarrow> r = wire d @ st (data_in k))"
  by (auto simp: dir_ok_def split: if_splits)

lemma dir_progress:
  "dir_ok k st True r d \<Longrightarrow> \<not> closing d \<Longrightarrow> inflight d = [] \<Longrightarrow> st (data_in k) = [] \<and> wire d = r"
  by (auto simp: dir_ok_def split: if_splits)

lemma dir_stable:
  "dir_ok k st att r d \<Longrightarrow> length (inflight d) \<le> 1 \<and> (\<forall>x \<in> set (inflight d). st (fst x) = snd x \<and> fst x = data_out k)"
  by (auto simp: dir_ok_def)

section \<open>Two connections\<close>

text \<open>
  C6: whatever callbacks libuv makes, in whatever order, no handler of the forwarder dereferences
  a null connection pointer or touches a deleted connection or forwarder.
\<close>

theorem forwarder_no_fault:
  assumes "reach (\<lambda>w. w = fwd_Create a) fwd_step w" and "allowed w e"
  shows "\<exists>w'. handle e w = Inr w'"
  using reach_finv [OF assms(1)] finv_handle assms(2) by blast

theorem forwarder_no_fault_witness:
  "\<exists>w'. handle (EvRead 0 2 ''cd'' True 0) demo2 = Inr w'"
  by (rule forwarder_no_fault [OF demo2_reach demo3_allowed])

text \<open>
  C2: in either direction the bytes given to the destination are a prefix of the bytes received
  from the source, and while the destination is open the rest is exactly what the input buffer
  holds: nothing is lost, duplicated or reordered.
\<close>

theorem forwarder_fifo:
  assumes "reach (\<lambda>w. w = fwd_Create a) fwd_step w"
    and "on_data (conns w s) = [c]" and "on_data (conns w d) = [peer c]"
  shows "prefix (wire (conns w d)) (rcvd (conns w s))
    \<and> (\<not> closing (conns w d) \<longrightarrow> rcvd (conns w s) = wire (conns w d) @ in_buf w c)"
proof -
  obtain b where "finv a b w" using reach_finv [OF assms(1)] by blast
  from dir_fifo [OF finv_dir [OF this assms(2,3)]] show ?thesis by (simp add: in_buf_def)
qed

theorem forwarder_fifo_witness:
  "rcvd (conns demo3 0) = ''abcd'' \<and> wire (conns demo3 7) = ''ab'' \<and> in_buf demo3 Incoming = ''cd''
   \<and> prefix (wire (conns demo3 7)) (rcvd (conns demo3 0))"
  using forwarder_fifo [OF demo3_reach, of 0 Incoming 7]
  by (simp add: demo3_conns demo2_conns in_buf_def)

text \<open>
  C11: a write in flight is never disturbed. libuv holds at most one request per connection,
  it points at the output buffer of the direction, and that buffer still contains exactly the
  bytes that were submitted, although input keeps arriving and buffers keep being swapped.
\<close>

theorem forwarder_inflight_stable:
  assumes "reach (\<lambda>w. w = fwd_Create a) fwd_step w"
    and "on_data (conns w s) = [c]" and "on_data (conns w d) = [peer c]"
    and "(p, bs) \<in> set (inflight (conns w d))"
  shows "store w p = bs \<and> p = data_out (cl w c) \<and> p \<noteq> data_in (cl w c) \<and> length (inflight (conns w d)) = 1"
proof -
  obtain b where "finv a b w" using reach_finv [OF assms(1)] by blast
  from finv_dir [OF this assms(2,3)] assms(4) show ?thesis by (auto simp: dir_ok_def)
qed

theorem forwarder_inflight_stable_witness:
  "store demo3 (Slot Incoming False) = ''ab'' \<and> Slot Incoming False = data_out (cl demo3 Incoming)
   \<and> Slot Incoming False \<noteq> data_in (cl demo3 Incoming) \<and> length (inflight (conns demo3 7)) = 1"
  by (rule forwarder_inflight_stable [OF demo3_reach, of 0 Incoming 7])
    (simp_all add: demo3_conns demo2_conns)

text \<open>
  C12: nothing stalls. While the destination is open, data waiting in the input buffer implies a
  write in flight, whose completion sends it; so when no write is in flight everything received
  has been sent.
\<close>

theorem forwarder_no_stall:
  assumes "reach (\<lambda>w. w = fwd_Create a) fwd_step w"
    and "on_data (conns w s) = [c]" and "on_data (conns w d) = [peer c]"
    and "\<not> closing (conns w d)" and "inflight (conns w d) = []"
  shows "in_buf w c = [] \<and> wire (conns w d) = rcvd (conns w s)"
proof -
  obtain b where "finv a b w" using reach_finv [OF assms(1)] by blast
  from dir_progress [OF finv_dir [OF this assms(2,3)] assms(4,5)] show ?thesis
    by (simp add: in_buf_def)
qed

theorem forwarder_no_stall_witness:
  "in_buf demo3 Outgoing = [] \<and> wire (conns demo3 0) = rcvd (conns demo3 7)"
  by (rule forwarder_no_stall [OF demo3_reach, of 7 Outgoing 0])
    (simp_all add: demo3_conns demo2_conns)

text \<open>
  C13: closing propagates. Once one connection's close callback has run, the other connection is
  closing; the forwarder is deleted, and its close listeners are called once, exactly when the
  close callbacks of all its connections have run, and then libuv holds none of its buffers.
\<close>

theorem forwarder_close:
  assumes "reach (\<lambda>w. w = fwd_Create a) fwd_step w"
  shows "(\<forall>s d c. on_data (conns w s) = [c] \<longrightarrow> on_data (conns w d) = [peer c] \<longrightarrow>
            gone (conns w s) \<longrightarrow> closing (conns w d))
    \<and> (deleted w \<longleftrightarrow> (\<forall>t. on_data (conns w t) \<noteq> [] \<longrightarrow> gone (conns w t)))
    \<and> closed_calls w = (if deleted w then 1 else 0)
    \<and> (deleted w \<longrightarrow> (\<forall>t. inflight (conns w t) = []))"
proof -
  obtain b where inv: "finv a b w" using reach_finv [OF assms] by blast
  note socks = finv_socks [OF inv]
  have 1: "closing (conns w d)" if "on_data (conns w s) = [c]" "on_data (conns w d) = [peer c]"
    "gone (conns w s)" for s d c
    using socks_ok_side [OF socks, of c] registered_sock [OF inv that(1)]
      registered_sock [OF inv that(2)] that(3) by (simp add: side_ok_def)
  have conn: "t = a \<or> b = Some t" if "on_data (conns w t) \<noteq> []" for t
    using socks that by (auto simp: socks_ok_def)
  have reg: "on_data (conns w a) = [Incoming]" "b = Some q \<Longrightarrow> on_data (conns w q) = [Outgoing]" for q
    using sock_registered [OF socks, of Incoming a] sock_registered [OF socks, of Outgoing q]
    by (auto simp: registered_def)
  have 2: "deleted w \<longleftrightarrow> (\<forall>t. on_data (conns w t) \<noteq> [] \<longrightarrow> gone (conns w t))"
    using socks conn reg by (fastforce simp: socks_ok_def)
  have 3: "inflight (conns w t) = []" if "deleted w" for t
  proof (cases "conns w t = new_conn")
    case False
    then obtain c where c: "sock a b c = Some t" using sock_of_conn [OF socks] by blast
    then have "on_data (conns w t) \<noteq> []" using sock_registered [OF socks c] by (simp add: registered_def)
    with 2 that have "gone (conns w t)" by blast
    with socks_ok_side [OF socks, of c] c show ?thesis by (simp add: side_ok_def)
  qed simp
  show ?thesis using 1 2 3 socks by (simp add: socks_ok_def)
qed

text \<open>The client of two connections goes: its close callback closes the upstream, whose own deletes the forwarder.\<close>

definition closing1 :: fwd where "closing1 = projr (handle (EvAttach 7 0) (fwd_Create 0))"
definition closing2 :: fwd where "closing2 = projr (handle (EvClose 0) closing1)"
definition closing3 :: fwd where "closing3 = projr (handle (EvClosed 0) closing2)"
definition closing4 :: fwd where "closing4 = projr (handle (EvClosed 7) closing3)"

lemmas closing_defs = closing1_def closing2_def closing3_def closing4_def

lemma closing_states:
  "conns closing1 7 = new_conn\<lparr>on_data := [Outgoing], on_send := [Outgoing], on_error := [Outgoing], on_close := [Outgoing]\<rparr>"
  "on_data (conns closing2 0) = [Incoming]" "closing (conns closing2 0)" "\<not> gone (conns closing2 0)" "inflight (conns closing2 0) = []"
  "gone (conns closing3 0)" "closing (conns closing3 7)" "\<not> gone (conns closing3 7)" "inflight (conns closing3 7) = []"
  "\<not> deleted closing3" "deleted closing4"
  by (simp_all add: closing_defs run_defs swap_ptrs_def conn_Close_def close_unless_closing_def)

lemma closing_reach:
  "reach (\<lambda>w. w = fwd_Create 0) fwd_step closing3" "reach (\<lambda>w. w = fwd_Create 0) fwd_step closing4"
proof -
  have step: "reach (\<lambda>w. w = fwd_Create 0) fwd_step (projr (handle e w))"
    if "reach (\<lambda>w. w = fwd_Create 0) fwd_step w" "allowed w e" for w e
    using reach_by [OF that handle_projr [OF that]] .
  have 1: "reach (\<lambda>w. w = fwd_Create 0) fwd_step closing1"
    unfolding closing1_def by (rule step [OF reach_init]) (auto intro!: allow_attach split: if_splits)
  have "allowed closing1 (EvClose 0)" by (rule allow_close) (simp_all add: closing_defs run_defs swap_ptrs_def)
  from step [OF 1 this] have 2: "reach (\<lambda>w. w = fwd_Create 0) fwd_step closing2" by (simp add: closing2_def)
  show 3: "reach (\<lambda>w. w = fwd_Create 0) fwd_step closing3"
    unfolding closing3_def by (rule step [OF 2]) (simp add: allow_closed closing_states)
  show "reach (\<lambda>w. w = fwd_Create 0) fwd_step closing4"
    unfolding closing4_def by (rule step [OF 3]) (simp add: allow_closed closing_states)
qed

theorem forwarder_close_witness:
  "reach (\<lambda>w. w = fwd_Create 0) fwd_step closing3 \<and> gone (conns closing3 0) \<and> closing (conns closing3 7) \<and> closed_calls closing3 = 0
    \<and> reach (\<lambda>w. w = fwd_Create 0) fwd_step closing4 \<and> deleted closing4 \<and> closed_calls closing4 = 1"
  using forwarder_close [OF closing_reach(1)] forwarder_close [OF closing_reach(2)] closing_reach
  by (simp add: closing_states)

section \<open>The echo server\<close>

text \<open>
  C14: the echo server. With both sides on one connection and the buffer pointers aliased, no
  handler faults, what is written back is a prefix of what was received, all of it whenever the
  connection is open and no write is in flight, and a write in flight is undisturbed.
\<close>

theorem echo_faithful:
  assumes "reach (\<lambda>w. \<exists>st. CreateEcho a st = Inr w) echo_step w"
  shows "prefix (wire (conns w a)) (rcvd (conns w a))
    \<and> (\<not> closing (conns w a) \<and> inflight (conns w a) = [] \<longrightarrow> wire (conns w a) = rcvd (conns w a))
    \<and> (\<forall>x \<in> set (inflight (conns w a)). store w (fst x) = snd x)
    \<and> (\<forall>e. allowed w e \<longrightarrow> (\<forall>t st. e \<noteq> EvAttach t st) \<longrightarrow> (\<exists>w'. handle e w = Inr w'))"
proof -
  have inv: "einv a w" using assms by (rule echo_sys.reach_inv)
  then have dir: "dir_ok (cl w Incoming) (store w) True (rcvd (conns w a)) (conns w a)"
    by (simp add: einv_def)
  show ?thesis
    using dir_fifo [OF dir] dir_progress [OF dir] dir_stable [OF dir] einv_handle [OF inv] by blast
qed

lemma echo_demo:
  "\<exists>w w'. CreateEcho 0 0 = Inr w \<and> handle (EvRead 0 2 ''ab'' True 0) w = Inr w'
    \<and> reach (\<lambda>w. \<exists>st. CreateEcho 0 st = Inr w) echo_step w' \<and> wire (conns w' 0) = ''ab''
    \<and> inflight (conns w' 0) \<noteq> []"
proof -
  obtain w where w: "CreateEcho 0 0 = Inr w" "einv 0 w" using einv_CreateEcho by blast
  have al: "allowed w (EvRead 0 2 ''ab'' True 0)"
    using w by (intro allow_read)
      (auto simp: writable_if_open_def CreateEcho_def SetOutgoing_def in_buf_def new_client_def)
  obtain w' where w': "handle (EvRead 0 2 ''ab'' True 0) w = Inr w'"
    using einv_handle [OF w(2) al] by auto
  have "reach (\<lambda>w. \<exists>st. CreateEcho 0 st = Inr w) echo_step w'"
    using w al w' by (intro reach_step [OF reach_init]) (auto simp: echo_step_def fwd_step_def)
  moreover have "wire (conns w' 0) = ''ab'' \<and> inflight (conns w' 0) \<noteq> []"
    using w(1) w'
    by (auto simp: CreateEcho_def run_defs upd_client_def swap_ptrs_def numeral_2_eq_2)
  ultimately show ?thesis using w w' by blast
qed

theorem echo_faithful_witness:
  "\<exists>w. reach (\<lambda>w. \<exists>st. CreateEcho 0 st = Inr w) echo_step w \<and> wire (conns w 0) = ''ab''
     \<and> prefix ''ab'' (rcvd (conns w 0))"
proof -
  obtain w where w: "reach (\<lambda>w. \<exists>st. CreateEcho 0 st = Inr w) echo_step w" "wire (conns w 0) = ''ab''"
    using echo_demo by blast
  with echo_faithful [OF w(1)] show ?thesis by (metis (no_types))
qed

end
