(* ===== verification/Loggers.thy ===== *)
theory Loggers
  imports Prelude
begin

text \<open>
  The logger of \<open>src/logger.cc\<close> and \<open>include/logger.h\<close>: the levels and their order, the
  seven level methods with their guards, \<open>vprint\<close> on the logger's own 4096-byte line
  buffer, and \<open>ParseLevel\<close>. A formatted message is the list of bytes \<open>vsnprintf\<close>
  produces for the format and its arguments; a time stamp is what \<open>strftime\<close> leaves in the
  buffer. What reaches a file descriptor and what reaches \<open>stderr\<close> is recorded in order.
\<close>

section \<open>Levels\<close>

datatype Level = TRACE | DEBUG | INFO | WARN | ERROR | FATAL | CRITICAL

fun level_int :: "Level \<Rightarrow> nat" where
  "level_int TRACE = 0"
| "level_int DEBUG = 1"
| "level_int INFO = 2"
| "level_int WARN = 3"
| "level_int ERROR = 4"
| "level_int FATAL = 5"
| "level_int CRITICAL = 6"

lemma level_int_eq [simp]: "level_int a = level_int b \<longleftrightarrow> a = b"
  by (cases a; cases b) simp_all

text \<open>The C++ enumeration compares by its underlying integers.\<close>

instantiation Level :: linorder
begin

definition less_eq_Level :: "Level \<Rightarrow> Level \<Rightarrow> bool" where
  "less_eq_Level a b \<longleftrightarrow> level_int a \<le> level_int b"

definition less_Level :: "Level \<Rightarrow> Level \<Rightarrow> bool" where
  "less_Level a b \<longleftrightarrow> level_int a < level_int b"

instance
  by standard (auto simp: less_eq_Level_def less_Level_def)

end

definition level_names :: "(Level \<times> bytes) list" where
  "level_names = [(TRACE, ''TRACE ''), (DEBUG, ''DEBUG ''), (INFO, ''INFO ''), (WARN, ''WARN ''),
     (ERROR, ''ERROR ''), (FATAL, ''FATAL ''), (CRITICAL, ''CRITICAL '')]"

fun level_name :: "Level \<Rightarrow> bytes" where
  "level_name TRACE = ''TRACE ''"
| "level_name DEBUG = ''DEBUG ''"
| "level_name INFO = ''INFO ''"
| "level_name WARN = ''WARN ''"
| "level_name ERROR = ''ERROR ''"
| "level_name FATAL = ''FATAL ''"
| "level_name CRITICAL = ''CRITICAL ''"

fun level_name_length :: "Level \<Rightarrow> nat" where
  "level_name_length TRACE = 6"
| "level_name_length DEBUG = 6"
| "level_name_length INFO = 5"
| "level_name_length WARN = 5"
| "level_name_length ERROR = 6"
| "level_name_length FATAL = 6"
| "level_name_length CRITICAL = 9"

lemma length_level_name: "length (level_name l) = level_name_length l"
  by (cases l) simp_all

lemma level_name_length_le: "level_name_length l \<le> 9"
  by (cases l) simp_all

section \<open>Parsing a level\<close>

text \<open>
  The loop of \<open>ParseLevel\<close>: the lengths agree without the trailing blank of the table and
  the first \<open>name_length\<close> characters agree.
\<close>

fun parse_level_loop :: "(Level \<times> bytes) list \<Rightarrow> bytes \<Rightarrow> Level option" where
  "parse_level_loop [] name = None"
| "parse_level_loop ((l, n) # rest) name =
     (if length name = length n - 1 \<and> take (length name) name = take (length name) n then Some l
      else parse_level_loop rest name)"

definition ParseLevel :: "Level \<Rightarrow> bytes \<Rightarrow> bool \<times> Level" where
  "ParseLevel level name = (case parse_level_loop level_names name of
     None \<Rightarrow> (False, level) | Some l \<Rightarrow> (True, l))"

section \<open>The logger\<close>

record logger =
  log_fd :: int
  log_level :: Level
  log_buf :: bytes
  written :: "(int \<times> bytes) list"
  errout :: bytes

text \<open>
  \<open>open\<close> has what the system call returned as its argument (\<open>- 1\<close> for a failure); an
  empty name is the standard output.
\<close>

definition open_log :: "int \<Rightarrow> bytes \<Rightarrow> Level \<Rightarrow> logger \<Rightarrow> logger \<times> int" where
  "open_log fd filename level lg =
     (if filename \<noteq> []
      then if fd = - 1 then (lg\<lparr>log_fd := 2, log_level := level\<rparr>, 1) else (lg\<lparr>log_fd := fd, log_level := level\<rparr>, 0)
      else (lg\<lparr>log_fd := 1, log_level := level\<rparr>, 0))"

text \<open>\<open>memcpy (b + i, xs)\<close>, and what \<open>vsnprintf\<close> stores in the \<open>n\<close> bytes from \<open>i\<close> on.\<close>

definition overlay :: "nat \<Rightarrow> bytes \<Rightarrow> bytes \<Rightarrow> bytes" where
  "overlay i xs b = take i b @ xs @ drop (i + length xs) b"

definition bufsize :: nat where
  "bufsize = 4096"

definition vprint :: "Level \<Rightarrow> bytes \<Rightarrow> bytes \<Rightarrow> logger \<Rightarrow> logger" where
  "vprint level ts msg lg = (
     let b1 = overlay 0 (ts @ [nul]) (log_buf lg);
         b2 = overlay 20 (level_name level) b1;
         offset = 20 + level_name_length level;
         b3 = overlay offset (take (bufsize - offset - 1) msg @ [nul]) b2;
         len = length msg
     in if len > 0
        then if offset + len < bufsize
             then let b4 = b3[offset + len := CHR 0x0A]
                  in lg\<lparr>log_buf := b4, written := written lg @ [(log_fd lg, take (offset + len + 1) b4)]\<rparr>
             else let b4 = overlay (bufsize - 4) ''...\<newline>'' b3
                  in lg\<lparr>log_buf := b4, written := written lg @ [(log_fd lg, take bufsize b4)],
                       errout := errout lg @ take 20 b3 @ level_name level @ msg @ [CHR 0x0A]\<rparr>
        else lg\<lparr>log_buf := b3\<rparr>)"

definition log_trace :: "bytes \<Rightarrow> bytes \<Rightarrow> logger \<Rightarrow> logger" where
  "log_trace ts msg lg = (if log_level lg \<le> TRACE then vprint TRACE ts msg lg else lg)"

definition log_debug :: "bytes \<Rightarrow> bytes \<Rightarrow> logger \<Rightarrow> logger" where
  "log_debug ts msg lg = (if log_level lg \<le> DEBUG then vprint DEBUG ts msg lg else lg)"

definition log_info :: "bytes \<Rightarrow> bytes \<Rightarrow> logger \<Rightarrow> logger" where
  "log_info ts msg lg = (if log_level lg \<le> INFO then vprint INFO ts msg lg else lg)"

definition log_warn :: "bytes \<Rightarrow> bytes \<Rightarrow> logger \<Rightarrow> logger" where
  "log_warn ts msg lg = (if log_level lg \<le> WARN then vprint WARN ts msg lg else lg)"

definition log_error :: "bytes \<Rightarrow> bytes \<Rightarrow> logger \<Rightarrow> logger" where
  "log_error ts msg lg = (if log_level lg \<le> ERROR then vprint ERROR ts msg lg else lg)"

definition log_fatal :: "bytes \<Rightarrow> bytes \<Rightarrow> logger \<Rightarrow> logger" where
  "log_fatal ts msg lg = vprint FATAL ts msg lg"

definition log_critical :: "bytes \<Rightarrow> bytes \<Rightarrow> logger \<Rightarrow> logger" where
  "log_critical ts msg lg = (if log_level lg \<le> TRACE then vprint CRITICAL ts msg lg else lg)"

text \<open>The method of each level.\<close>

fun log_at :: "Level \<Rightarrow> bytes \<Rightarrow> bytes \<Rightarrow> logger \<Rightarrow> logger" where
  "log_at TRACE = log_trace"
| "log_at DEBUG = log_debug"
| "log_at INFO = log_info"
| "log_at WARN = log_warn"
| "log_at ERROR = log_error"
| "log_at FATAL = log_fatal"
| "log_at CRITICAL = log_critical"

section \<open>Lemmas\<close>

lemma length_overlay: "i + length xs \<le> length b \<Longrightarrow> length (overlay i xs b) = length b"
  by (simp add: overlay_def)

lemma take_overlay: "i \<le> length b \<Longrightarrow> take (i + length xs) (overlay i xs b) = take i b @ xs"
  by (simp add: overlay_def)

lemma take_overlay_more:
  "i \<le> length b \<Longrightarrow> take (i + n) (overlay i xs b) = take i b @ take n (xs @ drop (i + length xs) b)"
  by (simp add: overlay_def)

lemma take_within: "n \<le> length msg \<Longrightarrow> n \<le> k \<Longrightarrow> take n ((take k msg @ xs) @ ys) = take n msg"
  by (simp add: min_absorb1)

lemma take_update_snoc: "n < length b \<Longrightarrow> take (n + 1) (b[n := x]) = take n b @ [x]"
  by (simp add: take_Suc_conv_app_nth)

lemma take_overlay_prefix: "i \<le> length b \<Longrightarrow> n \<le> i \<Longrightarrow> take n (overlay i xs b) = take n b"
  by (simp add: overlay_def)

text \<open>The buffer after the three pieces are laid over each other.\<close>

definition line_buf :: "Level \<Rightarrow> bytes \<Rightarrow> bytes \<Rightarrow> bytes \<Rightarrow> bytes" where
  "line_buf level ts msg b =
     overlay (20 + level_name_length level) (take (bufsize - (20 + level_name_length level) - 1) msg @ [nul])
       (overlay 20 (level_name level) (overlay 0 (ts @ [nul]) b))"

lemma line_buf_take:
  assumes "length b = bufsize" "length ts = 20"
  shows "length (line_buf level ts msg b) = bufsize"
    and "n \<le> length msg \<Longrightarrow> n \<le> bufsize - (20 + level_name_length level) - 1 \<Longrightarrow>
      take (20 + level_name_length level + n) (line_buf level ts msg b) = ts @ level_name level @ take n msg"
proof -
  let ?off = "20 + level_name_length level"
  let ?k = "bufsize - ?off - 1"
  have off: "?off \<le> 29" using level_name_length_le [of level] by simp
  have l1: "length (overlay 0 (ts @ [nul]) b) = bufsize"
    using assms by (simp add: length_overlay bufsize_def)
  have t1: "take 20 (overlay 0 (ts @ [nul]) b) = ts" using assms by (simp add: overlay_def)
  let ?b2 = "overlay 20 (level_name level) (overlay 0 (ts @ [nul]) b)"
  have l2: "length ?b2 = bufsize"
    using off l1 by (simp add: length_overlay bufsize_def length_level_name)
  have t2: "take ?off ?b2 = ts @ level_name level"
    using take_overlay [of 20 "overlay 0 (ts @ [nul]) b" "level_name level"] l1 t1
    by (simp add: bufsize_def length_level_name)
  have "?off + length (take ?k msg @ [nul]) \<le> bufsize" using off by (simp add: bufsize_def)
  then show "length (line_buf level ts msg b) = bufsize"
    using l2 by (simp add: line_buf_def length_overlay)
  assume n: "n \<le> length msg" "n \<le> ?k"
  have "?off \<le> length ?b2" using l2 off by (simp add: bufsize_def)
  then have "take (?off + n) (line_buf level ts msg b)
      = take ?off ?b2 @ take n ((take ?k msg @ [nul]) @ drop (?off + length (take ?k msg @ [nul])) ?b2)"
    unfolding line_buf_def by (rule take_overlay_more)
  also have "take n ((take ?k msg @ [nul]) @ drop (?off + length (take ?k msg @ [nul])) ?b2) = take n msg"
    using n by (rule take_within)
  finally show "take (?off + n) (line_buf level ts msg b) = ts @ level_name level @ take n msg"
    using t2 by simp
qed

lemma vprint_alt: "vprint level ts msg lg = (
     let offset = 20 + level_name_length level; b3 = line_buf level ts msg (log_buf lg); len = length msg
     in if len > 0
        then if offset + len < bufsize
             then let b4 = b3[offset + len := CHR 0x0A]
                  in lg\<lparr>log_buf := b4, written := written lg @ [(log_fd lg, take (offset + len + 1) b4)]\<rparr>
             else let b4 = overlay (bufsize - 4) ''...\<newline>'' b3
                  in lg\<lparr>log_buf := b4, written := written lg @ [(log_fd lg, take bufsize b4)],
                       errout := errout lg @ take 20 b3 @ level_name level @ msg @ [CHR 0x0A]\<rparr>
        else lg\<lparr>log_buf := b3\<rparr>)"
  by (simp add: vprint_def line_buf_def Let_def)

text \<open>What one call adds to the log, as the header file describes it.\<close>

definition log_line :: "bytes \<Rightarrow> bytes" where
  "log_line text = (if length text < bufsize then text @ [CHR 0x0A] else take (bufsize - 4) text @ ''...\<newline>'')"

definition overflow_text :: "bytes \<Rightarrow> bytes" where
  "overflow_text text = (if length text < bufsize then [] else text @ [CHR 0x0A])"

lemma vprint_short:
  assumes "length (log_buf lg) = bufsize" "length ts = 20" "msg \<noteq> []"
    and "20 + level_name_length level + length msg < bufsize"
  shows "length (log_buf (vprint level ts msg lg)) = bufsize
    \<and> written (vprint level ts msg lg) = written lg @ [(log_fd lg, ts @ level_name level @ msg @ [CHR 0x0A])]
    \<and> errout (vprint level ts msg lg) = errout lg"
proof -
  let ?b = "line_buf level ts msg (log_buf lg)" and ?n = "20 + level_name_length level + length msg"
  have l: "length ?b = bufsize" by (rule line_buf_take(1) [OF assms(1,2)])
  have t: "take ?n ?b = ts @ level_name level @ msg"
    using line_buf_take(2) [OF assms(1,2), of "length msg" msg level] assms(4) by simp
  have "take (?n + 1) (?b[?n := CHR 0x0A]) = take ?n ?b @ [CHR 0x0A]"
    by (rule take_update_snoc) (use l assms(4) in simp)
  with t have "take (?n + 1) (?b[?n := CHR 0x0A]) = ts @ level_name level @ msg @ [CHR 0x0A]" by simp
  with l assms(3,4) show ?thesis by (simp add: vprint_alt Let_def)
qed

lemma vprint_long:
  assumes "length (log_buf lg) = bufsize" "length ts = 20" "msg \<noteq> []"
    and "\<not> 20 + level_name_length level + length msg < bufsize"
  shows "length (log_buf (vprint level ts msg lg)) = bufsize
    \<and> written (vprint level ts msg lg) = written lg
        @ [(log_fd lg, take (bufsize - 4) (ts @ level_name level @ msg) @ ''...\<newline>'')]
    \<and> errout (vprint level ts msg lg) = errout lg @ ts @ level_name level @ msg @ [CHR 0x0A]"
proof -
  let ?b = "line_buf level ts msg (log_buf lg)" and ?off = "20 + level_name_length level"
  have l: "length ?b = bufsize" by (rule line_buf_take(1) [OF assms(1,2)])
  have off: "?off \<le> 29" using level_name_length_le [of level] by simp
  have t20: "take 20 ?b = ts"
  proof -
    have "take ?off ?b = ts @ level_name level" using line_buf_take(2) [OF assms(1,2), of 0 msg level] by simp
    then have "take 20 (take ?off ?b) = ts" using assms(2) by simp
    then show ?thesis by (simp add: min_def)
  qed
  let ?n = "bufsize - 4 - ?off"
  have n: "?n \<le> length msg" "?n \<le> bufsize - ?off - 1" "?off + ?n = bufsize - 4"
    using assms(4) off by (auto simp: bufsize_def)
  have "take (bufsize - 4) ?b = ts @ level_name level @ take ?n msg"
    using line_buf_take(2) [OF assms(1,2) n(1,2)] n(3) by simp
  also have "\<dots> = take (bufsize - 4) (ts @ level_name level @ msg)"
    using assms(2) off by (simp add: length_level_name bufsize_def)
  finally have t: "take (bufsize - 4) ?b = take (bufsize - 4) (ts @ level_name level @ msg)" .
  have "drop (bufsize - 4 + length ''...\<newline>'') ?b = []" using l by (simp add: bufsize_def)
  with t have o: "overlay (bufsize - 4) ''...\<newline>'' ?b = take (bufsize - 4) (ts @ level_name level @ msg) @ ''...\<newline>''"
    unfolding overlay_def by (simp only: append_Nil2)
  have lo: "length (overlay (bufsize - 4) ''...\<newline>'' ?b) = bufsize"
    using l by (simp add: length_overlay bufsize_def)
  have "take bufsize (overlay (bufsize - 4) ''...\<newline>'' ?b) = overlay (bufsize - 4) ''...\<newline>'' ?b"
    using lo by simp
  with o have o2: "take bufsize (overlay (bufsize - 4) ''...\<newline>'' ?b)
      = take (bufsize - 4) (ts @ level_name level @ msg) @ ''...\<newline>''" by (simp only:)
  have w: "vprint level ts msg lg = lg\<lparr>log_buf := overlay (bufsize - 4) ''...\<newline>'' ?b,
      written := written lg @ [(log_fd lg, take bufsize (overlay (bufsize - 4) ''...\<newline>'' ?b))],
      errout := errout lg @ take 20 ?b @ level_name level @ msg @ [CHR 0x0A]\<rparr>"
    using assms(3,4) by (simp add: vprint_alt Let_def)
  show ?thesis unfolding w o2 t20 using lo by simp
qed

lemma vprint_line:
  assumes "length (log_buf lg) = bufsize" "length ts = 20" "msg \<noteq> []"
  shows "length (log_buf (vprint level ts msg lg)) = bufsize
    \<and> written (vprint level ts msg lg) = written lg @ [(log_fd lg, log_line (ts @ level_name level @ msg))]
    \<and> errout (vprint level ts msg lg) = errout lg @ overflow_text (ts @ level_name level @ msg)"
proof (cases "20 + level_name_length level + length msg < bufsize")
  case True
  with vprint_short [OF assms True] assms(2) show ?thesis
    by (simp add: log_line_def overflow_text_def length_level_name add.assoc)
next
  case False
  with vprint_long [OF assms False] assms(2) show ?thesis
    by (simp add: log_line_def overflow_text_def length_level_name add.assoc)
qed

lemma log_line_bound: "length (log_line text) \<le> bufsize"
proof (cases "length text < bufsize")
  case True
  then show ?thesis by (simp add: log_line_def)
next
  case False
  have "length (take (bufsize - 4) text) \<le> bufsize - 4" by (simp del: length_take add: length_take)
  with False show ?thesis by (simp add: log_line_def bufsize_def del: length_take)
qed

lemma parse_level_loop_names:
  "parse_level_loop level_names name = Some l \<longleftrightarrow> name @ '' '' = level_name l"
proof
  assume "parse_level_loop level_names name = Some l"
  then show "name @ '' '' = level_name l"
    by (auto simp: level_names_def split: if_splits)
next
  assume "name @ '' '' = level_name l"
  then have "name = butlast (level_name l)" by (metis butlast_snoc)
  then show "parse_level_loop level_names name = Some l"
    by (cases l) (simp_all add: level_names_def)
qed

section \<open>Properties\<close>

text \<open>
  The line a logger method writes never exceeds its 4096-byte buffer: a short entry is
  written whole with its newline, a longer one is cut to 4092 bytes with \<open>...\<close> and the
  newline after them and goes in full to \<open>stderr\<close>. Each call that passes the level test
  writes exactly one line; the others leave the logger as it is.
\<close>

theorem log_entry_written:
  assumes "length (log_buf lg) = bufsize" "length ts = 20" "msg \<noteq> []"
    and "log_level lg \<le> level" "level \<noteq> CRITICAL"
  shows "length (log_buf (log_at level ts msg lg)) = bufsize
    \<and> written (log_at level ts msg lg) = written lg @ [(log_fd lg, log_line (ts @ level_name level @ msg))]
    \<and> errout (log_at level ts msg lg) = errout lg @ overflow_text (ts @ level_name level @ msg)
    \<and> length (log_line (ts @ level_name level @ msg)) \<le> bufsize"
proof -
  have "log_at level ts msg lg = vprint level ts msg lg" using assms(4,5)
    by (cases level) (simp_all add: log_trace_def log_debug_def log_info_def log_warn_def log_error_def log_fatal_def)
  moreover have "length (log_line (ts @ level_name level @ msg)) \<le> bufsize"
    by (rule log_line_bound)
  ultimately show ?thesis using vprint_line [OF assms(1-3)] by simp
qed

theorem log_entry_written_witness:
  "written (log_at WARN (replicate 20 CHR ''t'') ''disk''
      \<lparr>log_fd = 1, log_level = INFO, log_buf = replicate bufsize nul, written = [], errout = []\<rparr>)
    = [(1, replicate 20 CHR ''t'' @ ''WARN disk'' @ [CHR 0x0A])]"
  using log_entry_written [of "\<lparr>log_fd = 1, log_level = INFO, log_buf = replicate bufsize nul, written = [], errout = []\<rparr>"
      "replicate 20 CHR ''t''" "''disk''" WARN]
  by (simp add: less_eq_Level_def log_line_def bufsize_def)

text \<open>
  The level a logger is set to decides which methods write: below it a method changes
  nothing, \<open>fatal\<close> always writes, and \<open>critical\<close>, although it is the highest level,
  changes nothing unless the level is \<open>TRACE\<close>.
\<close>

theorem log_level_gate:
  "(\<forall>level. log_at level ts msg lg = lg \<or> log_at level ts msg lg = vprint level ts msg lg)
    \<and> log_at FATAL ts msg lg = vprint FATAL ts msg lg
    \<and> (log_level lg > level \<longrightarrow> level \<noteq> FATAL \<longrightarrow> log_at level ts msg lg = lg)
    \<and> (log_level lg \<noteq> TRACE \<longrightarrow> log_at CRITICAL ts msg lg = lg)"
proof (intro conjI allI impI)
  fix l
  show "log_at l ts msg lg = lg \<or> log_at l ts msg lg = vprint l ts msg lg"
    by (cases l) (simp_all add: log_trace_def log_debug_def log_info_def log_warn_def log_error_def
        log_fatal_def log_critical_def)
  show "log_at FATAL ts msg lg = vprint FATAL ts msg lg" by (simp add: log_fatal_def)
next
  assume "log_level lg > level" "level \<noteq> FATAL"
  then show "log_at level ts msg lg = lg"
    by (cases level; cases "log_level lg") (simp_all add: log_trace_def log_debug_def log_info_def log_warn_def
        log_error_def log_critical_def less_eq_Level_def less_Level_def)
next
  assume "log_level lg \<noteq> TRACE"
  then show "log_at CRITICAL ts msg lg = lg"
    by (cases "log_level lg") (simp_all add: log_critical_def less_eq_Level_def)
qed

theorem log_level_gate_witness:
  "log_at CRITICAL [] ''lost'' \<lparr>log_fd = 1, log_level = INFO, log_buf = [], written = [], errout = []\<rparr>
    = \<lparr>log_fd = 1, log_level = INFO, log_buf = [], written = [], errout = []\<rparr>"
  using log_level_gate [of "[]" "''lost''" "\<lparr>log_fd = 1, log_level = INFO, log_buf = [], written = [], errout = []\<rparr>"]
  by simp

text \<open>
  \<open>ParseLevel\<close> accepts exactly the seven level names, gives back the level whose name
  it read, and leaves the destination alone otherwise.
\<close>

theorem parse_level_roundtrip:
  "(ParseLevel old name = (True, l)) = (name @ '' '' = level_name l)
    \<and> (fst (ParseLevel old name) \<or> ParseLevel old name = (False, old))"
  using parse_level_loop_names [of name l]
  by (auto simp: ParseLevel_def split: option.splits)

end
