(* ===== verification/Configs.thy ===== *)
theory Configs
  imports Loggers
begin

text \<open>
  The configuration and its parser, \<open>src/config.cc\<close> and \<open>include/config.h\<close>. The text is
  read by the jsini library, which is not part of the repository: the parser is modelled on
  the value tree jsini hands over, with jsini's reader and its \<open>dump\<close> as arguments. An
  \<open>App\<close> pointer is an index into \<open>apps\<close>, which every allocation extends; a parsing method
  takes the object it fills and the configuration and returns its boolean and both of them
  as they are then, on success and on failure.
\<close>

section \<open>Values of the jsini library\<close>

text \<open>
  What the parser asks of a value: its type, the conversions to \<open>int\<close>, \<open>bool\<close> and C string,
  the elements of an array and the members of an object in iteration order. \<open>JOther\<close> stands
  for the types the parser never accepts by themselves (null, real numbers).
\<close>

datatype json =
    JUndef
  | JBool bool
  | JInt int
  | JStr bytes
  | JOther bytes
  | JArr "json list"
  | JObj "(bytes \<times> json) list"

datatype json_type = TUndefined | TBool | TInteger | TString | TOther | TArray | TObject

fun json_typeof :: "json \<Rightarrow> json_type" where
  "json_typeof JUndef = TUndefined"
| "json_typeof (JBool b) = TBool"
| "json_typeof (JInt i) = TInteger"
| "json_typeof (JStr s) = TString"
| "json_typeof (JOther x) = TOther"
| "json_typeof (JArr xs) = TArray"
| "json_typeof (JObj kvs) = TObject"

section \<open>The configuration\<close>

record Command =
  cmd_file :: bytes
  cmd_args :: "bytes list"
  cmd_env :: "bytes list"
  cmd_cwd :: bytes
  cmd_timeout :: int

record App =
  app_name :: bytes
  app_command :: Command
  app_checker :: "Command option"
  app_max_start_time :: int
  app_preamble :: "nat list"
  app_tags :: "bytes list"

record Upstream =
  up_host :: bytes
  up_port :: int
  up_connect_timeout :: int
  up_app :: "nat option"
  up_tags :: "bytes list"

record Proxy =
  proxy_port :: int
  proxy_upstream :: Upstream

record Admin =
  admin_port :: int

record LoggerConf =
  lc_file :: bytes
  lc_level :: Level

datatype DummyType = Udp | Tcp | Http

record Dummy =
  dummy_type :: DummyType
  dummy_port :: int
  dummy_echo :: bool

text \<open>
  The lines the parser logs, with what they print: the value gives its line number and type,
  the key its text.
\<close>

datatype diag =
    BadType bytes json json_type
  | BadValue bytes json
  | UnknownKey bytes bytes
  | UnknownEntry bytes
  | UnknownProtocol bytes
  | ParseFailed

record Config =
  admin :: Admin
  logger_conf :: LoggerConf
  proxies :: "Proxy list"
  apps :: "App list"
  app_map :: "bytes \<rightharpoonup> nat"
  dummies :: "Dummy list"
  diags :: "diag list"

definition new_command :: Command where
  "new_command = \<lparr>cmd_file = [], cmd_args = [], cmd_env = [], cmd_cwd = [], cmd_timeout = 0\<rparr>"

definition new_app :: App where
  "new_app = \<lparr>app_name = [], app_command = new_command, app_checker = None, app_max_start_time = 0,
     app_preamble = [], app_tags = []\<rparr>"

definition new_upstream :: Upstream where
  "new_upstream = \<lparr>up_host = [], up_port = 0, up_connect_timeout = 30000, up_app = None, up_tags = []\<rparr>"

definition new_proxy :: Proxy where
  "new_proxy = \<lparr>proxy_port = 0, proxy_upstream = new_upstream\<rparr>"

definition new_dummy :: Dummy where
  "new_dummy = \<lparr>dummy_type = Tcp, dummy_port = 0, dummy_echo = False\<rparr>"

definition DEFAULT_ADMIN_PORT :: int where
  "DEFAULT_ADMIN_PORT = 19500"

definition new_config :: Config where
  "new_config = \<lparr>admin = \<lparr>admin_port = DEFAULT_ADMIN_PORT\<rparr>,
     logger_conf = \<lparr>lc_file = [], lc_level = INFO\<rparr>, proxies = [], apps = [], app_map = Map.empty,
     dummies = [], diags = []\<rparr>"

text \<open>\<open>Config::GetApp\<close>: the app of that name, allocated at its first mention.\<close>

definition GetApp :: "bytes \<Rightarrow> Config \<Rightarrow> nat \<times> Config" where
  "GetApp name c =
     (case (if name \<noteq> [] then app_map c name else None) of
        Some a \<Rightarrow> (a, c)
      | None \<Rightarrow>
          (let a = length (apps c);
               c1 = c\<lparr>apps := apps c @ [new_app\<lparr>app_name := name\<rparr>]\<rparr>
           in (a, if name \<noteq> [] then c1\<lparr>app_map := (app_map c1)(name \<mapsto> a)\<rparr> else c1)))"

section \<open>The generic parsing methods\<close>

definition log_diag :: "diag \<Rightarrow> Config \<Rightarrow> Config" where
  "log_diag d c = c\<lparr>diags := diags c @ [d]\<rparr>"

definition Error_value :: "json \<Rightarrow> bytes \<Rightarrow> json_type \<Rightarrow> Config \<Rightarrow> Config" where
  "Error_value v name expected c =
     (if expected \<noteq> TUndefined \<and> expected \<noteq> json_typeof v then log_diag (BadType name v expected) c
      else log_diag (BadValue name v) c)"

definition Error_key :: "bytes \<Rightarrow> bytes \<Rightarrow> Config \<Rightarrow> Config" where
  "Error_key key name c = log_diag (UnknownKey name key) c"

fun members :: "(bytes \<Rightarrow> json \<Rightarrow> 's \<Rightarrow> bool \<times> 's) \<Rightarrow> (bytes \<times> json) list \<Rightarrow> 's \<Rightarrow> bool \<times> 's" where
  "members fn [] s = (True, s)"
| "members fn ((k, v) # kvs) s = (case fn k v s of (ok, s') \<Rightarrow> if ok then members fn kvs s' else (False, s'))"

fun elements :: "(json \<Rightarrow> 's \<Rightarrow> bool \<times> 's) \<Rightarrow> json list \<Rightarrow> 's \<Rightarrow> bool \<times> 's" where
  "elements fn [] s = (True, s)"
| "elements fn (v # vs) s = (case fn v s of (ok, s') \<Rightarrow> if ok then elements fn vs s' else (False, s'))"

fun parse_object :: "bytes \<Rightarrow> (bytes \<Rightarrow> json \<Rightarrow> 'd \<times> Config \<Rightarrow> bool \<times> 'd \<times> Config) \<Rightarrow> json \<Rightarrow> 'd \<times> Config
    \<Rightarrow> bool \<times> 'd \<times> Config" where
  "parse_object name fn (JObj kvs) (d, c) = members fn kvs (d, c)"
| "parse_object name fn v (d, c) = (False, d, Error_value v name TObject c)"

fun parse_array :: "bytes \<Rightarrow> (json \<Rightarrow> 'd \<times> Config \<Rightarrow> bool \<times> 'd \<times> Config) \<Rightarrow> json \<Rightarrow> 'd \<times> Config
    \<Rightarrow> bool \<times> 'd \<times> Config" where
  "parse_array name fn (JArr vs) (d, c) = elements fn vs (d, c)"
| "parse_array name fn v (d, c) = (False, d, Error_value v name TArray c)"

fun parse_int :: "json \<Rightarrow> int \<Rightarrow> bool \<times> int" where
  "parse_int (JInt i) dst = (True, i)"
| "parse_int v dst = (False, dst)"

fun parse_bool :: "json \<Rightarrow> bool \<Rightarrow> bool \<times> bool" where
  "parse_bool (JBool b) dst = (True, b)"
| "parse_bool v dst = (False, dst)"

fun parse_string :: "(json \<Rightarrow> bytes) \<Rightarrow> bool \<Rightarrow> json \<Rightarrow> bytes \<Rightarrow> bool \<times> bytes" where
  "parse_string dump force (JStr s) dst = (True, s)"
| "parse_string dump force v dst = (if force then (True, dump v) else (False, dst))"

definition parse_strings :: "(json \<Rightarrow> bytes) \<Rightarrow> bytes \<Rightarrow> json \<Rightarrow> bytes list \<times> Config \<Rightarrow> bool \<times> bytes list \<times> Config" where
  "parse_strings dump name = parse_array name (\<lambda>v (dst, c).
     let (ok, s) = parse_string dump True v [] in (ok, dst @ [s], c))"

text \<open>
  The recurring form of a member that holds a scalar: parse it into place, log the type that
  was expected if that fails.
\<close>

definition scalar :: "('v \<Rightarrow> bool \<times> 'v) \<Rightarrow> ('d \<Rightarrow> 'v) \<Rightarrow> ('v \<Rightarrow> 'd \<Rightarrow> 'd) \<Rightarrow> json \<Rightarrow> bytes \<Rightarrow> json_type
    \<Rightarrow> 'd \<times> Config \<Rightarrow> bool \<times> 'd \<times> Config" where
  "scalar parse get put v name expected s =
     (case s of (d, c) \<Rightarrow> let (ok, x) = parse (get d) in
        (ok, put x d, if ok then c else Error_value v name expected c))"

text \<open>The form of a member that is an object or array of its own, parsed into a part of \<open>d\<close>.\<close>

definition nested :: "('v \<times> Config \<Rightarrow> bool \<times> 'v \<times> Config) \<Rightarrow> ('d \<Rightarrow> 'v) \<Rightarrow> ('v \<Rightarrow> 'd \<Rightarrow> 'd)
    \<Rightarrow> 'd \<times> Config \<Rightarrow> bool \<times> 'd \<times> Config" where
  "nested parse get put s = (case s of (d, c) \<Rightarrow> let (ok, x, c') = parse (get d, c) in (ok, put x d, c'))"

section \<open>Sections of the configuration\<close>

definition admin_member :: "bytes \<Rightarrow> json \<Rightarrow> Admin \<times> Config \<Rightarrow> bool \<times> Admin \<times> Config" where
  "admin_member key v s =
     (if key = ''listen'' then scalar (parse_int v) admin_port (\<lambda>x d. d\<lparr>admin_port := x\<rparr>) v ''admin port'' TInteger s
      else (case s of (d, c) \<Rightarrow> (False, d, Error_key key ''admin'' c)))"

definition parse_admin :: "json \<Rightarrow> Admin \<times> Config \<Rightarrow> bool \<times> Admin \<times> Config" where
  "parse_admin = parse_object ''admin'' admin_member"

definition logger_member :: "(json \<Rightarrow> bytes) \<Rightarrow> bytes \<Rightarrow> json \<Rightarrow> LoggerConf \<times> Config
    \<Rightarrow> bool \<times> LoggerConf \<times> Config" where
  "logger_member dump key v s =
     (if key = ''file'' then scalar (parse_string dump False v) lc_file (\<lambda>x d. d\<lparr>lc_file := x\<rparr>) v ''log file'' TString s
      else if key = ''level'' then
        (case s of (d, c) \<Rightarrow>
           (case parse_string dump False v [] of
              (False, level) \<Rightarrow> (False, d, Error_value v ''log level'' TString c)
            | (True, level) \<Rightarrow>
                (case ParseLevel (lc_level d) level of
                   (ok, l) \<Rightarrow> (True, d\<lparr>lc_level := l\<rparr>, if ok then c else Error_value v ''log level'' TUndefined c))))
      else (case s of (d, c) \<Rightarrow> (False, d, Error_key key ''logger'' c)))"

definition parse_logger :: "(json \<Rightarrow> bytes) \<Rightarrow> json \<Rightarrow> LoggerConf \<times> Config \<Rightarrow> bool \<times> LoggerConf \<times> Config" where
  "parse_logger dump = parse_object ''logger'' (logger_member dump)"

definition command_member :: "(json \<Rightarrow> bytes) \<Rightarrow> bytes \<Rightarrow> json \<Rightarrow> Command \<times> Config \<Rightarrow> bool \<times> Command \<times> Config" where
  "command_member dump key v s =
     (if key = ''file'' then
        scalar (parse_string dump False v) cmd_file (\<lambda>x d. d\<lparr>cmd_file := x\<rparr>) v ''command file'' TString s
      else if key = ''args'' then
        nested (parse_strings dump ''command args'' v) cmd_args (\<lambda>x d. d\<lparr>cmd_args := x\<rparr>) s
      else if key = ''env'' then
        nested (parse_strings dump ''command env'' v) cmd_env (\<lambda>x d. d\<lparr>cmd_env := x\<rparr>) s
      else if key = ''cwd'' then
        nested (parse_strings dump ''command env'' v) cmd_env (\<lambda>x d. d\<lparr>cmd_env := x\<rparr>) s
      else if key = ''timeout'' then
        scalar (parse_int v) cmd_timeout (\<lambda>x d. d\<lparr>cmd_timeout := x\<rparr>) v ''command timeout'' TInteger s
      else (case s of (d, c) \<Rightarrow> (False, d, Error_key key ''command'' c)))"

definition parse_command :: "(json \<Rightarrow> bytes) \<Rightarrow> json \<Rightarrow> Command \<times> Config \<Rightarrow> bool \<times> Command \<times> Config" where
  "parse_command dump = parse_object ''command'' (command_member dump)"

text \<open>
  The members of an app. \<open>rec\<close> is \<open>ParseApp\<close>, which calls this function for inline apps: the
  recursion is tied below.
\<close>

definition preamble_element :: "(json \<Rightarrow> Config \<Rightarrow> nat option \<times> Config) \<Rightarrow> json \<Rightarrow> App \<times> Config
    \<Rightarrow> bool \<times> App \<times> Config" where
  "preamble_element rec v s =
     (case s of (app, c) \<Rightarrow>
        (case rec v c of
           (None, c') \<Rightarrow> (False, app, Error_value v ''app preamble'' TUndefined c')
         | (Some p, c') \<Rightarrow> (True, app\<lparr>app_preamble := app_preamble app @ [p]\<rparr>, c')))"

definition app_member :: "(json \<Rightarrow> bytes) \<Rightarrow> (json \<Rightarrow> Config \<Rightarrow> nat option \<times> Config) \<Rightarrow> bytes \<Rightarrow> json
    \<Rightarrow> App \<times> Config \<Rightarrow> bool \<times> App \<times> Config" where
  "app_member dump rec key v s =
     (if key = ''name'' then
        scalar (parse_string dump True v) app_name (\<lambda>x d. d\<lparr>app_name := x\<rparr>) v ''app file'' TString s
      else if key = ''command'' then
        nested (parse_command dump v) app_command (\<lambda>x d. d\<lparr>app_command := x\<rparr>) s
      else if key = ''checker'' then
        nested (parse_command dump v) (\<lambda>d. new_command\<lparr>cmd_timeout := 10000\<rparr>) (\<lambda>x d. d\<lparr>app_checker := Some x\<rparr>) s
      else if key = ''max_start_time'' then
        scalar (parse_int v) app_max_start_time (\<lambda>x d. d\<lparr>app_max_start_time := x\<rparr>) v ''app max_start_time'' TInteger s
      else if key = ''preamble'' then parse_array ''app preamble'' (preamble_element rec) v s
      else if key = ''tags'' then
        nested (parse_strings dump ''app tags'' v) app_tags (\<lambda>x d. d\<lparr>app_tags := x\<rparr>) s
      else (case s of (d, c) \<Rightarrow> (False, d, Error_key key ''app'' c)))"

lemma member_size: "(k, v) \<in> set kvs \<Longrightarrow> size v < size (JObj kvs)"
  by (induction kvs) auto

lemma element_size: "v \<in> set vs \<Longrightarrow> size v < size (JArr vs)"
  by (induction vs) auto

lemma members_cong:
  assumes "\<And>k v t. (k, v) \<in> set kvs \<Longrightarrow> fn k v t = fn' k v t"
  shows "members fn kvs s = members fn' kvs s"
  using assms by (induction kvs arbitrary: s) (auto split: prod.splits)

lemma elements_cong:
  assumes "\<And>v t. v \<in> set vs \<Longrightarrow> fn v t = fn' v t"
  shows "elements fn vs s = elements fn' vs s"
  using assms by (induction vs arbitrary: s) (auto split: prod.splits)

lemma parse_object_cong [fundef_cong]:
  assumes "name = name'" "v = v'" "s = s'"
    and "\<And>kvs k w t. v' = JObj kvs \<Longrightarrow> (k, w) \<in> set kvs \<Longrightarrow> fn k w t = fn' k w t"
  shows "parse_object name fn v s = parse_object name' fn' v' s'"
  using assms by (cases v'; cases s') (auto intro: members_cong)

lemma app_member_cong [fundef_cong]:
  assumes "dump = dump'" "key = key'" "v = v'" "s = s'"
    and "\<And>vs w c. v' = JArr vs \<Longrightarrow> w \<in> set vs \<Longrightarrow> rec w c = rec' w c"
  shows "app_member dump rec key v s = app_member dump' rec' key' v' s'"
proof -
  have "parse_array ''app preamble'' (preamble_element rec) v s
      = parse_array ''app preamble'' (preamble_element rec') v' s'"
    using assms(3-5) by (cases v'; cases s') (auto intro!: elements_cong simp: preamble_element_def)
  with assms(1-4) show ?thesis by (simp add: app_member_def)
qed

text \<open>\<open>ParseApp\<close>: a name is a reference, anything else an app of its own.\<close>

function (sequential) ParseApp :: "(json \<Rightarrow> bytes) \<Rightarrow> json \<Rightarrow> Config \<Rightarrow> nat option \<times> Config" where
  "ParseApp dump (JStr name) c =
     (if name \<noteq> [] then (case GetApp name c of (a, c') \<Rightarrow> (Some a, c')) else (None, c))"
| "ParseApp dump v c =
     (case parse_object ''app'' (\<lambda>key w s. app_member dump (\<lambda>u d. ParseApp dump u d) key w s) v (new_app, c) of
        (True, tmp, c1) \<Rightarrow>
          if app_name tmp \<noteq> []
          then (case GetApp (app_name tmp) c1 of (a, c2) \<Rightarrow> (Some a, c2\<lparr>apps := (apps c2)[a := tmp]\<rparr>))
          else (Some (length (apps c1)), c1\<lparr>apps := apps c1 @ [tmp]\<rparr>)
      | (False, tmp, c1) \<Rightarrow> (None, c1))"
  by pat_completeness auto
termination
  by (relation "measure (\<lambda>(dump, v, c). size v)") (auto dest!: member_size element_size)

definition parse_app :: "(json \<Rightarrow> bytes) \<Rightarrow> json \<Rightarrow> App \<times> Config \<Rightarrow> bool \<times> App \<times> Config" where
  "parse_app dump = parse_object ''app'' (app_member dump (ParseApp dump))"

definition apps_element :: "(json \<Rightarrow> bytes) \<Rightarrow> json \<Rightarrow> unit \<times> Config \<Rightarrow> bool \<times> unit \<times> Config" where
  "apps_element dump v s =
     (case ParseApp dump v (snd s) of
        (None, c') \<Rightarrow> (False, (), Error_value v ''app'' TUndefined c')
      | (Some a, c') \<Rightarrow> (True, (), c'))"

definition parse_apps :: "(json \<Rightarrow> bytes) \<Rightarrow> json \<Rightarrow> unit \<times> Config \<Rightarrow> bool \<times> unit \<times> Config" where
  "parse_apps dump = parse_array ''apps'' (apps_element dump)"

definition upstream_member :: "(json \<Rightarrow> bytes) \<Rightarrow> bytes \<Rightarrow> json \<Rightarrow> Upstream \<times> Config \<Rightarrow> bool \<times> Upstream \<times> Config" where
  "upstream_member dump key v s =
     (if key = ''host'' then
        scalar (parse_string dump False v) up_host (\<lambda>x d. d\<lparr>up_host := x\<rparr>) v ''upstream host'' TString s
      else if key = ''port'' then
        scalar (parse_int v) up_port (\<lambda>x d. d\<lparr>up_port := x\<rparr>) v ''upstream port'' TInteger s
      else if key = ''connect_timeout'' then
        scalar (parse_int v) up_connect_timeout (\<lambda>x d. d\<lparr>up_connect_timeout := x\<rparr>) v ''upstream connect timeout'' TInteger s
      else if key = ''app'' then
        (case s of (d, c) \<Rightarrow>
           (case ParseApp dump v c of
              (a, c') \<Rightarrow> (a \<noteq> None, d\<lparr>up_app := a\<rparr>,
                if a \<noteq> None then c' else Error_value v ''upstream app'' TUndefined c')))
      else if key = ''tags'' then
        nested (parse_strings dump ''upstream tags'' v) up_tags (\<lambda>x d. d\<lparr>up_tags := x\<rparr>) s
      else (case s of (d, c) \<Rightarrow> (False, d, Error_key key ''upstream'' c)))"

definition parse_upstream :: "(json \<Rightarrow> bytes) \<Rightarrow> json \<Rightarrow> Upstream \<times> Config \<Rightarrow> bool \<times> Upstream \<times> Config" where
  "parse_upstream dump = parse_object ''upstream'' (upstream_member dump)"

definition proxy_member :: "(json \<Rightarrow> bytes) \<Rightarrow> bytes \<Rightarrow> json \<Rightarrow> Proxy \<times> Config \<Rightarrow> bool \<times> Proxy \<times> Config" where
  "proxy_member dump key v s =
     (if key = ''upstream'' then
        nested (parse_upstream dump v) proxy_upstream (\<lambda>x d. d\<lparr>proxy_upstream := x\<rparr>) s
      else if key = ''listen'' then
        scalar (parse_int v) proxy_port (\<lambda>x d. d\<lparr>proxy_port := x\<rparr>) v ''forward listening port'' TInteger s
      else (case s of (d, c) \<Rightarrow> (False, d, Error_key key ''proxy'' c)))"

definition parse_proxy :: "(json \<Rightarrow> bytes) \<Rightarrow> json \<Rightarrow> Proxy \<times> Config \<Rightarrow> bool \<times> Proxy \<times> Config" where
  "parse_proxy dump = parse_object ''proxy'' (proxy_member dump)"

text \<open>
  \<open>proxies.emplace_back ()\<close> and parsing into \<open>proxies.back ()\<close>: the new element is in the
  vector whether or not its parsing succeeds.
\<close>

definition parse_proxies :: "(json \<Rightarrow> bytes) \<Rightarrow> json \<Rightarrow> Proxy list \<times> Config \<Rightarrow> bool \<times> Proxy list \<times> Config" where
  "parse_proxies dump = parse_array ''proxies'' (\<lambda>v (ps, c).
     let (ok, p, c') = parse_proxy dump v (new_proxy, c) in (ok, ps @ [p], c'))"

fun parse_dummy_type :: "json \<Rightarrow> DummyType \<times> Config \<Rightarrow> bool \<times> DummyType \<times> Config" where
  "parse_dummy_type (JStr p) (t, c) =
     (if p = ''tcp'' then (True, Tcp, c)
      else if p = ''udp'' then (True, Udp, c)
      else if p = ''http'' then (True, t, c)
      else (False, t, log_diag (UnknownProtocol p) c))"
| "parse_dummy_type v (t, c) = (False, t, Error_value v ''dummy server protocol'' TString c)"

definition dummy_member :: "bytes \<Rightarrow> json \<Rightarrow> Dummy \<times> Config \<Rightarrow> bool \<times> Dummy \<times> Config" where
  "dummy_member key v s =
     (if key = ''type'' then nested (parse_dummy_type v) dummy_type (\<lambda>x d. d\<lparr>dummy_type := x\<rparr>) s
      else if key = ''listen'' then
        scalar (parse_int v) dummy_port (\<lambda>x d. d\<lparr>dummy_port := x\<rparr>) v ''dummy server port'' TInteger s
      else if key = ''echo'' then
        scalar (parse_bool v) dummy_echo (\<lambda>x d. d\<lparr>dummy_echo := x\<rparr>) v ''admin port'' TInteger s
      else (case s of (d, c) \<Rightarrow> (False, d, Error_key key ''dummy'' c)))"

definition parse_dummy :: "json \<Rightarrow> Dummy \<times> Config \<Rightarrow> bool \<times> Dummy \<times> Config" where
  "parse_dummy = parse_object ''dummy'' dummy_member"

definition parse_dummies :: "json \<Rightarrow> Dummy list \<times> Config \<Rightarrow> bool \<times> Dummy list \<times> Config" where
  "parse_dummies = parse_array ''dummies'' (\<lambda>v (ds, c).
     let (ok, d, c') = parse_dummy v (new_dummy, c) in (ok, ds @ [d], c'))"

text \<open>
  The whole configuration. Each section is parsed into its part of the configuration, which
  no parsing of the section reads or writes otherwise: it is taken out before and put back
  after it.
\<close>

definition section_of :: "('v \<times> Config \<Rightarrow> bool \<times> 'v \<times> Config) \<Rightarrow> (Config \<Rightarrow> 'v) \<Rightarrow> ('v \<Rightarrow> Config \<Rightarrow> Config)
    \<Rightarrow> unit \<times> Config \<Rightarrow> bool \<times> unit \<times> Config" where
  "section_of parse get put s = (let c = snd s; (ok, x, c') = parse (get c, c) in (ok, (), put x c'))"

definition config_member :: "(json \<Rightarrow> bytes) \<Rightarrow> bytes \<Rightarrow> json \<Rightarrow> unit \<times> Config \<Rightarrow> bool \<times> unit \<times> Config" where
  "config_member dump key v s =
     (if key = ''admin'' then section_of (parse_admin v) admin (\<lambda>x c. c\<lparr>admin := x\<rparr>) s
      else if key = ''logger'' then section_of (parse_logger dump v) logger_conf (\<lambda>x c. c\<lparr>logger_conf := x\<rparr>) s
      else if key = ''proxies'' then section_of (parse_proxies dump v) proxies (\<lambda>x c. c\<lparr>proxies := x\<rparr>) s
      else if key = ''apps'' then parse_apps dump v s
      else if key = ''dummy'' then section_of (parse_dummies v) dummies (\<lambda>x c. c\<lparr>dummies := x\<rparr>) s
      else (False, (), log_diag (UnknownEntry key) (snd s)))"

definition parse_config :: "(json \<Rightarrow> bytes) \<Rightarrow> json \<Rightarrow> Config \<Rightarrow> bool \<times> Config" where
  "parse_config dump v c =
     (if v = JUndef then (False, log_diag ParseFailed c)
      else (case parse_object ''config'' (config_member dump) v ((), c) of (ok, _, c') \<Rightarrow> (ok, c')))"

text \<open>\<open>Config::Parse\<close> and \<open>Config::ParseFile\<close>, with the library's readers of a text and of a file.\<close>

definition Config_Parse :: "(bytes \<Rightarrow> json) \<Rightarrow> (json \<Rightarrow> bytes) \<Rightarrow> Config \<Rightarrow> bytes \<Rightarrow> bool \<times> Config" where
  "Config_Parse read dump c code = parse_config dump (read code) c"

definition Config_ParseFile :: "(bytes \<Rightarrow> json) \<Rightarrow> (json \<Rightarrow> bytes) \<Rightarrow> Config \<Rightarrow> bytes \<Rightarrow> bool \<times> Config" where
  "Config_ParseFile read_file dump c file = parse_config dump (read_file file) c"

end
