(* ===== verification/ConfigProps.thy ===== *)
theory ConfigProps
  imports Configs
begin

text \<open>
  What parsing a configuration guarantees: which value trees are accepted, what is logged,
  that every app pointer of the result is a live app and every name denotes one app, and that
  parsing the printed form of a configuration gives that configuration back.
\<close>

section \<open>Which values are accepted\<close>

fun is_int :: "json \<Rightarrow> bool" where
  "is_int (JInt i) = True"
| "is_int v = False"

fun is_bool :: "json \<Rightarrow> bool" where
  "is_bool (JBool b) = True"
| "is_bool v = False"

fun is_str :: "json \<Rightarrow> bool" where
  "is_str (JStr s) = True"
| "is_str v = False"

fun array_of :: "(json \<Rightarrow> bool) \<Rightarrow> json \<Rightarrow> bool" where
  "array_of ok (JArr vs) = list_all ok vs"
| "array_of ok v = False"

fun object_of :: "(bytes \<Rightarrow> json \<Rightarrow> bool) \<Rightarrow> json \<Rightarrow> bool" where
  "object_of ok (JObj kvs) = list_all (\<lambda>(k, v). ok k v) kvs"
| "object_of ok v = False"

definition any_value :: "json \<Rightarrow> bool" where
  "any_value v = True"

definition command_schema :: "bytes \<Rightarrow> json \<Rightarrow> bool" where
  "command_schema k v \<longleftrightarrow>
     (if k = ''file'' then is_str v
      else if k = ''args'' then array_of any_value v
      else if k = ''env'' then array_of any_value v
      else if k = ''cwd'' then array_of any_value v
      else if k = ''timeout'' then is_int v
      else False)"

definition app_schema :: "(json \<Rightarrow> bool) \<Rightarrow> bytes \<Rightarrow> json \<Rightarrow> bool" where
  "app_schema ok k v \<longleftrightarrow>
     (if k = ''name'' then True
      else if k = ''command'' then object_of command_schema v
      else if k = ''checker'' then object_of command_schema v
      else if k = ''max_start_time'' then is_int v
      else if k = ''preamble'' then array_of ok v
      else if k = ''tags'' then array_of any_value v
      else False)"

lemma array_of_cong [fundef_cong]:
  "v = v' \<Longrightarrow> (\<And>vs w. v' = JArr vs \<Longrightarrow> w \<in> set vs \<Longrightarrow> ok w = ok' w) \<Longrightarrow> array_of ok v = array_of ok' v'"
  by (cases v') (auto simp: list_all_iff)

lemma app_schema_cong [fundef_cong]:
  "k = k' \<Longrightarrow> v = v' \<Longrightarrow> (\<And>vs w. v' = JArr vs \<Longrightarrow> w \<in> set vs \<Longrightarrow> ok w = ok' w)
    \<Longrightarrow> app_schema ok k v = app_schema ok' k' v'"
  by (cases v') (auto simp: app_schema_def list_all_iff)

text \<open>An app is a non-empty name or an object, whose preambles are apps again.\<close>

function ok_app :: "json \<Rightarrow> bool" where
  "ok_app (JStr n) = (n \<noteq> [])"
| "ok_app (JObj kvs) = list_all (\<lambda>(k, v). app_schema (\<lambda>w. ok_app w) k v) kvs"
| "ok_app JUndef = False"
| "ok_app (JBool b) = False"
| "ok_app (JInt i) = False"
| "ok_app (JOther x) = False"
| "ok_app (JArr vs) = False"
  by pat_completeness auto
termination
  by (relation "measure size") (auto dest!: member_size element_size)

definition upstream_schema :: "bytes \<Rightarrow> json \<Rightarrow> bool" where
  "upstream_schema k v \<longleftrightarrow>
     (if k = ''host'' then is_str v
      else if k = ''port'' then is_int v
      else if k = ''connect_timeout'' then is_int v
      else if k = ''app'' then ok_app v
      else if k = ''tags'' then array_of any_value v
      else False)"

definition proxy_schema :: "bytes \<Rightarrow> json \<Rightarrow> bool" where
  "proxy_schema k v \<longleftrightarrow>
     (if k = ''upstream'' then object_of upstream_schema v
      else if k = ''listen'' then is_int v
      else False)"

definition protocol_name :: "json \<Rightarrow> bool" where
  "protocol_name v \<longleftrightarrow> v \<in> {JStr ''tcp'', JStr ''udp'', JStr ''http''}"

definition dummy_schema :: "bytes \<Rightarrow> json \<Rightarrow> bool" where
  "dummy_schema k v \<longleftrightarrow>
     (if k = ''type'' then protocol_name v
      else if k = ''listen'' then is_int v
      else if k = ''echo'' then is_bool v
      else False)"

definition admin_schema :: "bytes \<Rightarrow> json \<Rightarrow> bool" where
  "admin_schema k v \<longleftrightarrow> (if k = ''listen'' then is_int v else False)"

definition logger_schema :: "bytes \<Rightarrow> json \<Rightarrow> bool" where
  "logger_schema k v \<longleftrightarrow> (if k = ''file'' then is_str v else if k = ''level'' then is_str v else False)"

definition config_schema :: "bytes \<Rightarrow> json \<Rightarrow> bool" where
  "config_schema k v \<longleftrightarrow>
     (if k = ''admin'' then object_of admin_schema v
      else if k = ''logger'' then object_of logger_schema v
      else if k = ''proxies'' then array_of (object_of proxy_schema) v
      else if k = ''apps'' then array_of ok_app v
      else if k = ''dummy'' then array_of (object_of dummy_schema) v
      else False)"

named_theorems accept

lemma fst_members:
  "(\<And>k v s. (k, v) \<in> set kvs \<Longrightarrow> fst (fn k v s) = ok k v) \<Longrightarrow> fst (members fn kvs s) = list_all (\<lambda>(k, v). ok k v) kvs"
proof (induction kvs arbitrary: s)
  case (Cons p kvs)
  obtain k v where p: "p = (k, v)" by (cases p)
  obtain b s' where f: "fn k v s = (b, s')" by (cases "fn k v s")
  have "b = ok k v" using Cons.prems [of k v s] p f by simp
  moreover have "fst (members fn kvs s') = list_all (\<lambda>(k, v). ok k v) kvs"
    using Cons.prems by (intro Cons.IH) simp
  ultimately show ?case using p f by simp
qed simp

lemma fst_elements:
  "(\<And>v s. v \<in> set vs \<Longrightarrow> fst (fn v s) = ok v) \<Longrightarrow> fst (elements fn vs s) = list_all ok vs"
proof (induction vs arbitrary: s)
  case (Cons v vs)
  obtain b s' where f: "fn v s = (b, s')" by (cases "fn v s")
  have "b = ok v" using Cons.prems [of v s] f by simp
  moreover have "fst (elements fn vs s') = list_all ok vs" using Cons.prems by (intro Cons.IH) simp
  ultimately show ?case using f by simp
qed simp

lemma fst_parse_object:
  "(\<And>k w s. fst (fn k w s) = ok k w) \<Longrightarrow> fst (parse_object name fn v s) = object_of ok v"
  by (cases v; cases s) (simp_all add: fst_members)

lemma fst_parse_array:
  "(\<And>vs w s. v = JArr vs \<Longrightarrow> w \<in> set vs \<Longrightarrow> fst (fn w s) = ok w) \<Longrightarrow> fst (parse_array name fn v s) = array_of ok v"
  by (cases v; cases s) (simp_all add: fst_elements)

lemma fst_scalar [accept]: "fst (scalar parse get put v name expected (d, c)) = fst (parse (get d))"
  by (simp add: scalar_def split: prod.split)

lemma fst_nested [accept]: "fst (nested parse get put (d, c)) = fst (parse (get d, c))"
  by (simp add: nested_def split: prod.split)

lemma fst_section_of [accept]: "fst (section_of parse get put s) = fst (parse (get (snd s), snd s))"
  by (simp add: section_of_def Let_def split: prod.split)

lemma fst_parse_int [accept]: "fst (parse_int v x) = is_int v"
  by (cases v) simp_all

lemma fst_parse_bool [accept]: "fst (parse_bool v x) = is_bool v"
  by (cases v) simp_all

lemma fst_parse_string [accept]: "fst (parse_string dump force v x) = (force \<or> is_str v)"
  by (cases v) simp_all

fun text_of :: "(json \<Rightarrow> bytes) \<Rightarrow> json \<Rightarrow> bytes" where
  "text_of dump (JStr s) = s"
| "text_of dump v = dump v"

lemma parse_string_forced: "parse_string dump True v x = (True, text_of dump v)"
  by (cases v) simp_all

lemma fst_parse_strings [accept]: "fst (parse_strings dump name v s) = array_of any_value v"
  unfolding parse_strings_def
  by (rule fst_parse_array) (auto simp: any_value_def Let_def fst_parse_string case_prod_beta)

lemma fst_command_member: "fst (command_member dump k v s) = command_schema k v"
  by (cases s) (simp add: command_member_def command_schema_def accept)

lemma fst_parse_command [accept]: "fst (parse_command dump v s) = object_of command_schema v"
  unfolding parse_command_def by (rule fst_parse_object) (rule fst_command_member)

lemma fst_preamble_element: "fst (preamble_element rec v (d, c)) = (fst (rec v c) \<noteq> None)"
  by (simp add: preamble_element_def split: prod.split option.split)

lemma fst_preambles:
  assumes "\<And>vs w c. v = JArr vs \<Longrightarrow> w \<in> set vs \<Longrightarrow> (fst (rec w c) \<noteq> None) = ok w"
  shows "fst (parse_array name (preamble_element rec) v s) = array_of ok v"
proof (rule fst_parse_array)
  fix vs w t
  assume "v = JArr vs" "w \<in> set vs"
  from assms [OF this] show "fst (preamble_element rec w t) = ok w"
    by (cases t) (simp only: fst_preamble_element)
qed

lemma fst_app_member:
  assumes "\<And>vs w c. v = JArr vs \<Longrightarrow> w \<in> set vs \<Longrightarrow> (fst (rec w c) \<noteq> None) = ok w"
  shows "fst (app_member dump rec k v s) = app_schema ok k v"
proof -
  obtain d c where s: "s = (d, c)" by (cases s)
  show ?thesis
    by (simp add: app_member_def app_schema_def accept s fst_preambles [where ok = ok, OF assms])
qed

text \<open>\<open>ParseApp\<close> on a value that is not a name, in terms of \<open>parse_app\<close>.\<close>

fun place_app :: "bool \<times> App \<times> Config \<Rightarrow> nat option \<times> Config" where
  "place_app (True, tmp, c1) =
     (if app_name tmp \<noteq> []
      then (case GetApp (app_name tmp) c1 of (a, c2) \<Rightarrow> (Some a, c2\<lparr>apps := (apps c2)[a := tmp]\<rparr>))
      else (Some (length (apps c1)), c1\<lparr>apps := apps c1 @ [tmp]\<rparr>))"
| "place_app (False, tmp, c1) = (None, c1)"

lemma ParseApp_alt: "\<not> is_str v \<Longrightarrow> ParseApp dump v c = place_app (parse_app dump v (new_app, c))"
  by (cases v) (auto simp: parse_app_def split: prod.split bool.split)

lemma fst_place_app: "(fst (place_app r) \<noteq> None) = fst r"
  by (cases r rule: place_app.cases) (simp_all split: prod.split)

lemma ParseApp_accepts: "(fst (ParseApp dump v c) \<noteq> None) = ok_app v"
proof (induction v arbitrary: c rule: ok_app.induct)
  case (1 n)
  then show ?case by (simp split: prod.split)
next
  case (2 kvs)
  have "fst (app_member dump (ParseApp dump) k w s) = app_schema ok_app k w" if "(k, w) \<in> set kvs" for k w s
    by (rule fst_app_member) (use 2 that in blast)
  then have "fst (parse_app dump (JObj kvs) (new_app, c)) = ok_app (JObj kvs)"
    by (simp add: parse_app_def fst_members)
  moreover have "ParseApp dump (JObj kvs) c = place_app (parse_app dump (JObj kvs) (new_app, c))"
    by (rule ParseApp_alt) simp
  ultimately show ?case by (simp only: fst_place_app)
qed (simp_all add: ParseApp_alt fst_place_app parse_app_def del: ParseApp.simps)

lemma fst_upstream_member: "fst (upstream_member dump k v s) = upstream_schema k v"
proof -
  obtain d c where s: "s = (d, c)" by (cases s)
  obtain r c' where r: "ParseApp dump v c = (r, c')" by (cases "ParseApp dump v c")
  with ParseApp_accepts [of dump v c] have "(r \<noteq> None) = ok_app v" by simp
  with r show ?thesis by (simp add: upstream_member_def upstream_schema_def accept s)
qed

lemma fst_proxy_member: "fst (proxy_member dump k v s) = proxy_schema k v"
proof -
  obtain d c where s: "s = (d, c)" by (cases s)
  have "fst (parse_upstream dump v t) = object_of upstream_schema v" for t
    unfolding parse_upstream_def by (rule fst_parse_object) (rule fst_upstream_member)
  then show ?thesis by (simp add: proxy_member_def proxy_schema_def accept s)
qed

lemma fst_parse_proxy: "fst (parse_proxy dump v s) = object_of proxy_schema v"
  unfolding parse_proxy_def by (rule fst_parse_object) (rule fst_proxy_member)

lemma fst_parse_proxies [accept]: "fst (parse_proxies dump v s) = array_of (object_of proxy_schema) v"
  unfolding parse_proxies_def
  by (rule fst_parse_array) (auto simp: case_prod_beta Let_def fst_parse_proxy)

lemma fst_apps_element: "fst (apps_element dump v s) = ok_app v"
proof -
  obtain r c' where r: "ParseApp dump v (snd s) = (r, c')" by (cases "ParseApp dump v (snd s)")
  with ParseApp_accepts [of dump v "snd s"] have "(r \<noteq> None) = ok_app v" by simp
  with r show ?thesis by (cases r) (simp_all add: apps_element_def)
qed

lemma fst_parse_apps [accept]: "fst (parse_apps dump v s) = array_of ok_app v"
  unfolding parse_apps_def by (rule fst_parse_array) (rule fst_apps_element)

lemma fst_parse_dummy_type [accept]: "fst (parse_dummy_type v s) = protocol_name v"
  by (cases v; cases s) (simp_all add: protocol_name_def)

lemma fst_dummy_member: "fst (dummy_member k v s) = dummy_schema k v"
  by (cases s) (simp add: dummy_member_def dummy_schema_def accept)

lemma fst_parse_dummy: "fst (parse_dummy v s) = object_of dummy_schema v"
  unfolding parse_dummy_def by (rule fst_parse_object) (rule fst_dummy_member)

lemma fst_parse_dummies [accept]: "fst (parse_dummies v s) = array_of (object_of dummy_schema) v"
  unfolding parse_dummies_def
  by (rule fst_parse_array) (auto simp: case_prod_beta Let_def fst_parse_dummy)

lemma fst_admin_member: "fst (admin_member k v s) = admin_schema k v"
  by (cases s) (simp add: admin_member_def admin_schema_def accept)

lemma fst_logger_member: "fst (logger_member dump k v s) = logger_schema k v"
proof -
  obtain d c where s: "s = (d, c)" by (cases s)
  obtain b l where b: "parse_string dump False v [] = (b, l)" by (cases "parse_string dump False v []")
  obtain b2 l2 where b2: "ParseLevel (lc_level d) l = (b2, l2)" by (cases "ParseLevel (lc_level d) l")
  have "b = is_str v" using fst_parse_string [of dump False v "[]"] b by simp
  with b b2 show ?thesis by (cases b) (simp_all add: logger_member_def logger_schema_def accept s)
qed

lemma fst_config_member: "fst (config_member dump k v s) = config_schema k v"
proof -
  have "fst (parse_admin v t) = object_of admin_schema v" for t
    unfolding parse_admin_def by (rule fst_parse_object) (rule fst_admin_member)
  moreover have "fst (parse_logger dump v t) = object_of logger_schema v" for t
    unfolding parse_logger_def by (rule fst_parse_object) (rule fst_logger_member)
  ultimately show ?thesis by (simp add: config_member_def config_schema_def accept)
qed

lemma parse_config_accepts: "fst (parse_config dump v c) = object_of config_schema v"
proof -
  have "fst (parse_object ''config'' (config_member dump) v ((), c)) = object_of config_schema v"
    by (rule fst_parse_object) (rule fst_config_member)
  then show ?thesis by (auto simp: parse_config_def split: prod.splits)
qed

section \<open>What parsing leaves behind\<close>

text \<open>
  \<open>apps_ok\<close>: every preamble points into the vector of apps, \<open>app_map\<close> is exactly the map
  from the non-empty names of the apps to the apps. No command has a working directory, since
  the parser never stores one.
\<close>

definition app_ok :: "nat \<Rightarrow> App \<Rightarrow> bool" where
  "app_ok n a \<longleftrightarrow> (\<forall>p \<in> set (app_preamble a). p < n) \<and> cmd_cwd (app_command a) = []
     \<and> (\<forall>k. app_checker a = Some k \<longrightarrow> cmd_cwd k = [])"

definition apps_ok :: "Config \<Rightarrow> bool" where
  "apps_ok c \<longleftrightarrow> (\<forall>a \<in> set (apps c). app_ok (length (apps c)) a)
     \<and> (\<forall>n i. app_map c n = Some i \<longleftrightarrow> n \<noteq> [] \<and> i < length (apps c) \<and> app_name (apps c ! i) = n)"

text \<open>A configuration that another one has grown from: apps stay where they are and keep their names.\<close>

definition grown :: "Config \<Rightarrow> Config \<Rightarrow> bool" where
  "grown c c' \<longleftrightarrow> length (apps c) \<le> length (apps c') \<and> app_map c \<subseteq>\<^sub>m app_map c'
     \<and> (\<forall>i < length (apps c). app_name (apps c' ! i) = app_name (apps c ! i))
     \<and> admin c' = admin c \<and> logger_conf c' = logger_conf c \<and> proxies c' = proxies c \<and> dummies c' = dummies c"

definition bad_level :: "diag \<Rightarrow> bool" where
  "bad_level d \<longleftrightarrow> (\<exists>v. d = BadValue ''log level'' v)"

definition logged :: "bool \<Rightarrow> Config \<Rightarrow> Config \<Rightarrow> bool" where
  "logged ok c c' \<longleftrightarrow> (\<exists>ds. diags c' = diags c @ ds \<and> (ok \<longrightarrow> list_all bad_level ds) \<and> (\<not> ok \<longrightarrow> ds \<noteq> []))"

text \<open>
  \<open>outcome P ok s s'\<close>: what any parsing method does to the object it fills, of which \<open>P\<close> is
  the invariant, and to the configuration.
\<close>

definition outcome :: "('d \<Rightarrow> nat \<Rightarrow> bool) \<Rightarrow> bool \<Rightarrow> 'd \<times> Config \<Rightarrow> 'd \<times> Config \<Rightarrow> bool" where
  "outcome P ok s s' \<longleftrightarrow> logged ok (snd s) (snd s')
     \<and> (apps_ok (snd s) \<longrightarrow> P (fst s) (length (apps (snd s))) \<longrightarrow>
          apps_ok (snd s') \<and> P (fst s') (length (apps (snd s'))) \<and> grown (snd s) (snd s'))"

lemma grown_refl [simp]: "grown c c"
  by (simp add: grown_def)

lemma grown_trans: "grown c d \<Longrightarrow> grown d e \<Longrightarrow> grown c e"
  by (auto simp: grown_def intro: map_le_trans)

lemma logged_refl [simp]: "logged True c c"
  by (simp add: logged_def)

lemma logged_trans: "logged True c d \<Longrightarrow> logged ok d e \<Longrightarrow> logged ok c e"
  by (auto simp: logged_def)

lemma logged_fail: "logged ok c d \<Longrightarrow> logged False d e \<Longrightarrow> logged False c e"
  by (auto simp: logged_def)

lemma outcome_refl: "outcome P True s s"
  by (simp add: outcome_def)

lemma outcome_trans: "outcome P True s t \<Longrightarrow> outcome P ok t u \<Longrightarrow> outcome P ok s u"
  unfolding outcome_def using logged_trans grown_trans by blast

lemma apps_ok_cong: "apps c' = apps c \<Longrightarrow> app_map c' = app_map c \<Longrightarrow> apps_ok c' = apps_ok c"
  by (simp add: apps_ok_def)

lemma log_diag_sel [simp]:
  "apps (log_diag d c) = apps c" "app_map (log_diag d c) = app_map c" "admin (log_diag d c) = admin c"
  "logger_conf (log_diag d c) = logger_conf c" "proxies (log_diag d c) = proxies c"
  "dummies (log_diag d c) = dummies c" "diags (log_diag d c) = diags c @ [d]"
  by (simp_all add: log_diag_def)

lemma apps_ok_log [simp]: "apps_ok (log_diag d c) = apps_ok c"
  by (simp add: apps_ok_def)

lemma grown_log [simp]: "grown c (log_diag d c)"
  by (simp add: grown_def)

lemma logged_log [simp]: "logged False c (log_diag d c)" "bad_level d \<Longrightarrow> logged True c (log_diag d c)"
  by (simp_all add: logged_def)

lemma Error_value_log: "\<exists>d. Error_value v name t c = log_diag d c"
  by (simp add: Error_value_def) blast

lemma outcome_log: "outcome P False (d, c) (d, log_diag e c)"
  by (simp add: outcome_def)

lemma outcome_error: "outcome P False (d, c) (d, Error_value v name t c)"
  using Error_value_log [of v name t c] outcome_log by metis

lemma outcome_key: "outcome P False (d, c) (d, Error_key k name c)"
  by (simp add: Error_key_def outcome_log)

text \<open>
  The contract of a property of parsing outcomes: it holds of doing nothing, and of a
  successful outcome followed by any other. Whatever has it carries over from the members of
  an object and the elements of an array to the whole.
\<close>

locale parsing_outcome =
  fixes R :: "bool \<Rightarrow> 's \<Rightarrow> 's \<Rightarrow> bool"
  assumes refl: "R True s s"
    and trans: "R True s t \<Longrightarrow> R ok t u \<Longrightarrow> R ok s u"
begin

lemma members:
  assumes "members fn kvs s = (ok, s')"
    and "\<And>k v t ok t'. (k, v) \<in> set kvs \<Longrightarrow> fn k v t = (ok, t') \<Longrightarrow> R ok t t'"
  shows "R ok s s'"
  using assms
proof (induction kvs arbitrary: s)
  case Nil
  then show ?case using refl [of s] by simp
next
  case (Cons p kvs)
  obtain k v where p: "p = (k, v)" by (cases p)
  obtain b t where f: "fn k v s = (b, t)" by (cases "fn k v s")
  have o: "R b s t" using Cons.prems(2) [of k v s b t] p f by simp
  show ?case
  proof (cases b)
    case True
    then have "members fn kvs t = (ok, s')" using Cons.prems(1) p f by simp
    then have "R ok t s'" using Cons.prems(2) by (rule Cons.IH) auto
    moreover have "R True s t" using o True by simp
    ultimately show ?thesis by (rule trans [rotated])
  next
    case False
    with Cons.prems(1) p f o show ?thesis by simp
  qed
qed

lemma elements:
  assumes "elements fn vs s = (ok, s')"
    and "\<And>v t ok t'. v \<in> set vs \<Longrightarrow> fn v t = (ok, t') \<Longrightarrow> R ok t t'"
  shows "R ok s s'"
  using assms
proof (induction vs arbitrary: s)
  case Nil
  then show ?case using refl [of s] by simp
next
  case (Cons v vs)
  obtain b t where f: "fn v s = (b, t)" by (cases "fn v s")
  have o: "R b s t" using Cons.prems(2) [of v s b t] f by simp
  show ?case
  proof (cases b)
    case True
    then have "elements fn vs t = (ok, s')" using Cons.prems(1) f by simp
    then have "R ok t s'" using Cons.prems(2) by (rule Cons.IH) auto
    moreover have "R True s t" using o True by simp
    ultimately show ?thesis by (rule trans [rotated])
  next
    case False
    with Cons.prems(1) f o show ?thesis by simp
  qed
qed

end

interpretation outcome: parsing_outcome "outcome P" for P
  by unfold_locales (rule outcome_refl, rule outcome_trans)

lemma outcome_object:
  assumes "parse_object name fn v s = (ok, s')"
    and "\<And>kvs k w t ok t'. v = JObj kvs \<Longrightarrow> (k, w) \<in> set kvs \<Longrightarrow> fn k w t = (ok, t') \<Longrightarrow> outcome P ok t t'"
  shows "outcome P ok s s'"
  using assms by (cases v; cases s) (auto intro: outcome_error outcome.members)

lemma outcome_array:
  assumes "parse_array name fn v s = (ok, s')"
    and "\<And>vs w t ok t'. v = JArr vs \<Longrightarrow> w \<in> set vs \<Longrightarrow> fn w t = (ok, t') \<Longrightarrow> outcome P ok t t'"
  shows "outcome P ok s s'"
  using assms by (cases v; cases s) (auto intro: outcome_error outcome.elements)

lemma outcome_scalar:
  assumes "scalar parse get put v name expected s = (ok, s')"
    and "\<And>d x n. P d n \<Longrightarrow> P (put x d) n"
  shows "outcome P ok s s'"
proof -
  obtain d c where s: "s = (d, c)" by (cases s)
  obtain b x where r: "parse (get d) = (b, x)" by (cases "parse (get d)")
  obtain e where e: "Error_value v name expected c = log_diag e c" using Error_value_log by metis
  from assms(1) s r e have "ok = b" "s' = (put x d, if b then c else log_diag e c)"
    by (auto simp: scalar_def)
  with s show ?thesis by (cases b) (simp_all add: outcome_def assms(2))
qed

lemma outcome_nested:
  assumes "nested parse get put s = (ok, s')"
    and "\<And>t ok t'. parse t = (ok, t') \<Longrightarrow> outcome Q ok t t'"
    and "\<And>d n. P d n \<Longrightarrow> Q (get d) n"
    and "\<And>d x n m. P d n \<Longrightarrow> n \<le> m \<Longrightarrow> Q x m \<Longrightarrow> P (put x d) m"
  shows "outcome P ok s s'"
proof -
  obtain d c where s: "s = (d, c)" by (cases s)
  obtain b x c' where r: "parse (get d, c) = (b, x, c')" by (metis prod_cases3)
  from assms(1) s r have s': "ok = b" "s' = (put x d, c')" by (auto simp: nested_def)
  have o: "outcome Q b (get d, c) (x, c')" using r by (rule assms(2))
  have len: "grown c c' \<Longrightarrow> length (apps c) \<le> length (apps c')" by (simp add: grown_def)
  show ?thesis using o len s s' assms(3,4) by (auto simp: outcome_def)
qed

abbreviation no_inv :: "'d \<Rightarrow> nat \<Rightarrow> bool" where
  "no_inv \<equiv> \<lambda>d n. True"

lemma outcome_strings: "parse_strings dump name v s = (ok, s') \<Longrightarrow> outcome no_inv ok s s'"
  unfolding parse_strings_def
  by (erule outcome_array) (auto simp: outcome_def parse_string_forced)

definition command_inv :: "Command \<Rightarrow> nat \<Rightarrow> bool" where
  "command_inv k n \<longleftrightarrow> cmd_cwd k = []"

lemma outcome_command_member:
  assumes "command_member dump k v s = (ok, s')"
  shows "outcome command_inv ok s s'"
proof -
  obtain d c where s: "s = (d, c)" by (cases s)
  show ?thesis
    using assms unfolding command_member_def
    by (auto split: if_splits simp: command_inv_def s intro: outcome_key
        elim!: outcome_scalar outcome_nested [where Q = no_inv] outcome_strings)
qed

lemma outcome_command: "parse_command dump v s = (ok, s') \<Longrightarrow> outcome command_inv ok s s'"
  unfolding parse_command_def by (erule outcome_object) (rule outcome_command_member)

definition tmp_inv :: "App \<Rightarrow> nat \<Rightarrow> bool" where
  "tmp_inv a n \<longleftrightarrow> app_ok n a"

definition app_out :: "nat option \<Rightarrow> Config \<Rightarrow> Config \<Rightarrow> bool" where
  "app_out r c c' \<longleftrightarrow> (\<exists>ds. diags c' = diags c @ ds \<and> (r \<noteq> None \<longrightarrow> list_all bad_level ds))
     \<and> (apps_ok c \<longrightarrow> apps_ok c' \<and> grown c c' \<and> (\<forall>a. r = Some a \<longrightarrow> a < length (apps c')))"

lemma app_ok_mono: "app_ok n a \<Longrightarrow> n \<le> m \<Longrightarrow> app_ok m a"
  by (auto simp: app_ok_def)

lemma outcome_preamble:
  assumes "preamble_element rec v s = (ok, s')"
    and "\<And>r c c'. rec v c = (r, c') \<Longrightarrow> app_out r c c'"
  shows "outcome tmp_inv ok s s'"
proof -
  obtain d c where s: "s = (d, c)" by (cases s)
  obtain r c' where r: "rec v c = (r, c')" by (cases "rec v c")
  obtain e where e: "Error_value v ''app preamble'' TUndefined c' = log_diag e c'" using Error_value_log by metis
  have o: "app_out r c c'" using r by (rule assms(2))
  show ?thesis
  proof (cases r)
    case None
    with assms(1) s r e have "ok = False" "s' = (d, log_diag e c')" by (auto simp: preamble_element_def)
    with o s None show ?thesis
      by (auto simp: outcome_def app_out_def logged_def tmp_inv_def grown_def intro: app_ok_mono)
  next
    case (Some p)
    with assms(1) s r have "ok = True" "s' = (d\<lparr>app_preamble := app_preamble d @ [p]\<rparr>, c')"
      by (auto simp: preamble_element_def)
    with o s Some show ?thesis
      by (auto simp: outcome_def app_out_def logged_def tmp_inv_def app_ok_def grown_def)
  qed
qed

lemma outcome_app_member:
  assumes "app_member dump rec k v s = (ok, s')"
    and "\<And>vs w r c c'. v = JArr vs \<Longrightarrow> w \<in> set vs \<Longrightarrow> rec w c = (r, c') \<Longrightarrow> app_out r c c'"
  shows "outcome tmp_inv ok s s'"
proof -
  obtain d c where s: "s = (d, c)" by (cases s)
  have pre: "parse_array ''app preamble'' (preamble_element rec) v s = (ok, s') \<Longrightarrow> outcome tmp_inv ok s s'"
    by (erule outcome_array) (erule outcome_preamble, rule assms(2))
  show ?thesis
    using assms(1) unfolding app_member_def
    by (auto split: if_splits simp: tmp_inv_def command_inv_def app_ok_def new_command_def s intro: outcome_key
        elim!: outcome_scalar outcome_nested [where Q = no_inv] outcome_nested [where Q = command_inv]
          outcome_strings outcome_command pre [unfolded s]) (meson less_le_trans)+
qed

lemma GetApp_diags: "GetApp n c = (a, c') \<Longrightarrow> diags c' = diags c"
  by (auto simp: GetApp_def Let_def split: option.splits if_splits)

lemma app_ok_new: "app_ok n (new_app\<lparr>app_name := m\<rparr>)"
  by (simp add: app_ok_def new_app_def new_command_def)

lemma GetApp_found: "app_map c n = Some a \<Longrightarrow> n \<noteq> [] \<Longrightarrow> GetApp n c = (a, c)"
  by (simp add: GetApp_def)

lemma GetApp_fresh: "app_map c n = None \<Longrightarrow> n \<noteq> [] \<Longrightarrow> GetApp n c
   = (length (apps c), c\<lparr>apps := apps c @ [new_app\<lparr>app_name := n\<rparr>], app_map := (app_map c)(n \<mapsto> length (apps c))\<rparr>)"
  by (simp add: GetApp_def Let_def)

lemma apps_ok_append:
  assumes "apps_ok c" "app_ok (length (apps c)) a"
    and "app_name a = [] \<and> m = app_map c \<or> app_name a \<noteq> [] \<and> app_map c (app_name a) = None
      \<and> m = (app_map c)(app_name a \<mapsto> length (apps c))"
  shows "apps_ok (c\<lparr>apps := apps c @ [a], app_map := m\<rparr>)"
proof -
  have "app_ok (Suc (length (apps c))) b" if "b \<in> set (apps c)" for b
    using assms(1) that by (auto simp: apps_ok_def intro: app_ok_mono)
  moreover have "app_ok (Suc (length (apps c))) a" using assms(2) by (rule app_ok_mono) simp
  moreover have "m n = Some i \<longleftrightarrow> n \<noteq> [] \<and> i < Suc (length (apps c)) \<and> app_name ((apps c @ [a]) ! i) = n" for n i
  proof -
    have m: "app_map c n = Some i \<longleftrightarrow> n \<noteq> [] \<and> i < length (apps c) \<and> app_name (apps c ! i) = n"
      using assms(1) by (simp add: apps_ok_def)
    have none: "app_map c n = None \<Longrightarrow> n \<noteq> [] \<Longrightarrow> i < length (apps c) \<Longrightarrow> app_name (apps c ! i) \<noteq> n"
      using m by auto
    show ?thesis using assms(3) m none
      by (cases "i = length (apps c)"; cases "n = app_name a") (auto simp: nth_append less_Suc_eq)
  qed
  ultimately show ?thesis by (auto simp: apps_ok_def)
qed

lemma grown_append:
  assumes "app_name a = [] \<and> m = app_map c \<or> app_map c (app_name a) = None \<and> m = (app_map c)(app_name a \<mapsto> length (apps c))"
  shows "grown c (c\<lparr>apps := apps c @ [a], app_map := m\<rparr>)"
  using assms by (auto simp: grown_def nth_append map_le_def)

lemma GetApp_ok:
  assumes "GetApp n c = (a, c')" "n \<noteq> []" "apps_ok c"
  shows "apps_ok c' \<and> grown c c' \<and> a < length (apps c') \<and> app_map c' n = Some a"
proof (cases "app_map c n")
  case None
  let ?a = "new_app\<lparr>app_name := n\<rparr>"
  have c': "a = length (apps c)"
    "c' = c\<lparr>apps := apps c @ [?a], app_map := (app_map c)(n \<mapsto> length (apps c))\<rparr>"
    using assms(1,2) None by (auto simp: GetApp_fresh)
  have "apps_ok c'" unfolding c'
    by (rule apps_ok_append [OF assms(3) app_ok_new]) (use None assms(2) in simp)
  moreover have "grown c c'" unfolding c' by (rule grown_append) (use None in simp)
  ultimately show ?thesis using c' by simp
next
  case (Some i)
  with assms show ?thesis by (auto simp: GetApp_found apps_ok_def)
qed

lemma apps_ok_store:
  assumes "apps_ok c" "app_ok (length (apps c)) t" "app_map c (app_name t) = Some a"
  shows "apps_ok (c\<lparr>apps := (apps c)[a := t]\<rparr>)" "grown c (c\<lparr>apps := (apps c)[a := t]\<rparr>)"
proof -
  have a: "a < length (apps c)" "app_name (apps c ! a) = app_name t"
    using assms(1,3) by (auto simp: apps_ok_def)
  then have n: "app_name ((apps c)[a := t] ! i) = app_name (apps c ! i)" for i
    by (cases "i = a") (simp_all add: nth_list_update)
  show "apps_ok (c\<lparr>apps := (apps c)[a := t]\<rparr>)"
    using assms(1,2) by (auto simp: apps_ok_def n dest!: subsetD [OF set_update_subset_insert])
  show "grown c (c\<lparr>apps := (apps c)[a := t]\<rparr>)" by (simp add: grown_def n)
qed

lemma place_app_out:
  assumes "outcome tmp_inv ok (new_app, c) (t, c1)" "place_app (ok, t, c1) = (r, c')"
  shows "app_out r c c'"
proof -
  have new: "tmp_inv new_app n" for n
    by (simp add: tmp_inv_def app_ok_def new_app_def new_command_def)
  obtain ds where ds: "diags c1 = diags c @ ds" "ok \<longrightarrow> list_all bad_level ds"
    using assms(1) by (auto simp: outcome_def logged_def)
  have o: "apps_ok c \<Longrightarrow> apps_ok c1 \<and> app_ok (length (apps c1)) t \<and> grown c c1"
    using assms(1) new by (auto simp: outcome_def tmp_inv_def)
  consider "\<not> ok" | "ok" "app_name t = []" | "ok" "app_name t \<noteq> []" by blast
  then show ?thesis
  proof cases
    case 1
    with assms(2) have "r = None" "c' = c1" by auto
    with ds(1) o show ?thesis by (auto simp: app_out_def)
  next
    case 2
    with assms(2) have r: "r = Some (length (apps c1))" "c' = c1\<lparr>apps := apps c1 @ [t], app_map := app_map c1\<rparr>"
      by auto
    have "grown c1 c'" unfolding r(2) by (rule grown_append) (simp add: 2)
    moreover have "apps_ok c'" if "apps_ok c"
      unfolding r(2) by (rule apps_ok_append) (use o [OF that] 2 in auto)
    moreover have "length (apps c1) < length (apps c')" by (simp add: r)
    ultimately have "apps_ok c \<Longrightarrow> apps_ok c' \<and> grown c1 c' \<and> length (apps c1) < length (apps c')" by blast
    with r ds o 2 show ?thesis by (auto simp: app_out_def intro: grown_trans)
  next
    case 3
    obtain a c2 where g: "GetApp (app_name t) c1 = (a, c2)" by (cases "GetApp (app_name t) c1")
    with assms(2) 3 have r: "r = Some a" "c' = c2\<lparr>apps := (apps c2)[a := t]\<rparr>" by auto
    have d: "diags c2 = diags c1" using g by (rule GetApp_diags)
    have "apps_ok c' \<and> grown c c' \<and> a < length (apps c')" if "apps_ok c"
    proof -
      from o [OF that] have o1: "apps_ok c1" "app_ok (length (apps c1)) t" "grown c c1" by auto
      from GetApp_ok [OF g 3(2) o1(1)] have o2: "apps_ok c2" "grown c1 c2" "a < length (apps c2)"
        "app_map c2 (app_name t) = Some a" by auto
      have "app_ok (length (apps c2)) t" using o1(2) o2(2) by (auto simp: grown_def intro: app_ok_mono)
      from apps_ok_store [OF o2(1) this o2(4)] o1(3) o2(2,3) r show ?thesis
        by (auto intro: grown_trans)
    qed
    with r d ds 3 show ?thesis by (auto simp: app_out_def)
  qed
qed

lemma ParseApp_out: "ParseApp dump v c = (r, c') \<Longrightarrow> app_out r c c'"
proof (induction v arbitrary: c r c' rule: ok_app.induct)
  case (1 n)
  show ?case
  proof (cases "n = []")
    case True
    with 1 show ?thesis by (auto simp: app_out_def)
  next
    case False
    obtain a d where g: "GetApp n c = (a, d)" by (cases "GetApp n c")
    with 1 False have "r = Some a" "c' = d" by auto
    with GetApp_diags [OF g] GetApp_ok [OF g False] show ?thesis by (auto simp: app_out_def)
  qed
next
  case (2 kvs)
  obtain ok t c1 where p: "parse_app dump (JObj kvs) (new_app, c) = (ok, t, c1)" by (metis prod_cases3)
  have "outcome tmp_inv ok (new_app, c) (t, c1)"
    using p unfolding parse_app_def
    by (rule outcome_object) (erule outcome_app_member, use 2 in blast)
  moreover have "place_app (ok, t, c1) = (r, c')"
    using 2(2) p by (simp add: ParseApp_alt del: ParseApp.simps)
  ultimately show ?case by (rule place_app_out)
qed (auto simp: ParseApp_alt parse_app_def app_out_def Error_value_def log_diag_def grown_def apps_ok_def simp del: ParseApp.simps)

section \<open>The sections\<close>

definition up_inv :: "Upstream \<Rightarrow> nat \<Rightarrow> bool" where
  "up_inv u n \<longleftrightarrow> (\<forall>a. up_app u = Some a \<longrightarrow> a < n)"

definition proxy_inv :: "Proxy \<Rightarrow> nat \<Rightarrow> bool" where
  "proxy_inv p n \<longleftrightarrow> up_inv (proxy_upstream p) n"

definition proxies_inv :: "Proxy list \<Rightarrow> nat \<Rightarrow> bool" where
  "proxies_inv ps n \<longleftrightarrow> (\<forall>p \<in> set ps. proxy_inv p n)"

definition dummy_inv :: "Dummy \<Rightarrow> nat \<Rightarrow> bool" where
  "dummy_inv d n \<longleftrightarrow> dummy_type d \<noteq> Http"

definition dummies_inv :: "Dummy list \<Rightarrow> nat \<Rightarrow> bool" where
  "dummies_inv ds n \<longleftrightarrow> (\<forall>d \<in> set ds. dummy_inv d n)"

lemma proxies_inv_mono: "proxies_inv ps n \<Longrightarrow> n \<le> m \<Longrightarrow> proxies_inv ps m"
  by (auto simp: proxies_inv_def proxy_inv_def up_inv_def)

lemma outcome_upstream_app:
  assumes "ParseApp dump v c = (a, c')"
  shows "outcome up_inv (a \<noteq> None) (d, c) (d\<lparr>up_app := a\<rparr>,
    if a \<noteq> None then c' else Error_value v ''upstream app'' TUndefined c')"
proof -
  obtain e where e: "Error_value v ''upstream app'' TUndefined c' = log_diag e c'" using Error_value_log by metis
  have o: "app_out a c c'" using assms by (rule ParseApp_out)
  then obtain ds where ds: "diags c' = diags c @ ds" "a \<noteq> None \<longrightarrow> list_all bad_level ds"
    by (auto simp: app_out_def)
  show ?thesis
  proof (cases a)
    case None
    with o e ds(1) show ?thesis
      by (auto simp: outcome_def logged_def app_out_def up_inv_def grown_def)
  next
    case (Some i)
    with o ds show ?thesis by (auto simp: outcome_def logged_def app_out_def up_inv_def)
  qed
qed

lemma outcome_upstream_member:
  assumes "upstream_member dump k v s = (ok, s')"
  shows "outcome up_inv ok s s'"
proof -
  obtain d c where s: "s = (d, c)" by (cases s)
  obtain a c' where p: "ParseApp dump v c = (a, c')" by (cases "ParseApp dump v c")
  have mono: "up_inv u n \<Longrightarrow> n \<le> m \<Longrightarrow> up_inv (u\<lparr>up_tags := x\<rparr>) m" for u n m x
    by (auto simp: up_inv_def)
  have keep: "up_inv u n \<Longrightarrow> up_inv (u\<lparr>up_host := h\<rparr>) n" "up_inv u n \<Longrightarrow> up_inv (u\<lparr>up_port := i\<rparr>) n"
    "up_inv u n \<Longrightarrow> up_inv (u\<lparr>up_connect_timeout := i\<rparr>) n" for u n h i
    by (auto simp: up_inv_def)
  show ?thesis
    using assms outcome_upstream_app [OF p, of d] unfolding upstream_member_def
    by (auto split: if_splits simp: s p intro: outcome_key mono keep
        elim!: outcome_scalar outcome_nested [where Q = no_inv] outcome_strings)
qed

lemma outcome_upstream: "parse_upstream dump v s = (ok, s') \<Longrightarrow> outcome up_inv ok s s'"
  unfolding parse_upstream_def by (erule outcome_object) (rule outcome_upstream_member)

lemma outcome_proxy_member:
  assumes "proxy_member dump k v s = (ok, s')"
  shows "outcome proxy_inv ok s s'"
proof -
  obtain d c where s: "s = (d, c)" by (cases s)
  show ?thesis
    using assms unfolding proxy_member_def
    by (auto split: if_splits simp: s proxy_inv_def intro: outcome_key
        elim!: outcome_scalar outcome_nested [where Q = up_inv] outcome_upstream)
qed

lemma outcome_proxy: "parse_proxy dump v s = (ok, s') \<Longrightarrow> outcome proxy_inv ok s s'"
  unfolding parse_proxy_def by (erule outcome_object) (rule outcome_proxy_member)

text \<open>A vector whose new last element is parsed in place.\<close>

lemma outcome_emplace:
  assumes "outcome Q ok (x0, c) (x, c')" and "\<And>n. Q x0 n"
    and "\<And>xs x n m. P xs n \<Longrightarrow> n \<le> m \<Longrightarrow> Q x m \<Longrightarrow> P (xs @ [x]) m"
  shows "outcome P ok (xs, c) (xs @ [x], c')"
proof -
  have "grown c c' \<Longrightarrow> length (apps c) \<le> length (apps c')" by (simp add: grown_def)
  with assms show ?thesis by (auto simp: outcome_def)
qed

lemma outcome_proxies: "parse_proxies dump v s = (ok, s') \<Longrightarrow> outcome proxies_inv ok s s'"
  unfolding parse_proxies_def
proof (erule outcome_array)
  fix w t ok t'
  assume f: "(case t of (ps, c) \<Rightarrow> let (ok, p, c') = parse_proxy dump w (new_proxy, c) in (ok, ps @ [p], c')) = (ok, t')"
  obtain ps c where t: "t = (ps, c)" by (cases t)
  obtain b p c' where r: "parse_proxy dump w (new_proxy, c) = (b, p, c')" by (metis prod_cases3)
  have "outcome proxies_inv b (ps, c) (ps @ [p], c')"
    by (rule outcome_emplace [OF outcome_proxy [OF r]])
      (auto simp: proxies_inv_def proxy_inv_def up_inv_def new_proxy_def new_upstream_def)
  with f t r show "outcome proxies_inv ok t t'" by auto
qed

lemma outcome_set: "(\<And>n. P x n) \<Longrightarrow> outcome P True (d, c) (x, c)"
  by (simp add: outcome_def)

lemma outcome_dummy_type: "parse_dummy_type v s = (ok, s') \<Longrightarrow> outcome (\<lambda>t n. t \<noteq> Http) ok s s'"
  by (cases v; cases s) (auto split: if_splits intro: outcome_set outcome_refl outcome_log outcome_error)

lemma outcome_dummy_member:
  assumes "dummy_member k v s = (ok, s')"
  shows "outcome dummy_inv ok s s'"
proof -
  obtain d c where s: "s = (d, c)" by (cases s)
  show ?thesis
    using assms unfolding dummy_member_def
    by (auto split: if_splits simp: s dummy_inv_def intro: outcome_key
        elim!: outcome_scalar outcome_nested [where Q = "\<lambda>t n. t \<noteq> Http"] outcome_dummy_type)
qed

lemma outcome_dummy: "parse_dummy v s = (ok, s') \<Longrightarrow> outcome dummy_inv ok s s'"
  unfolding parse_dummy_def by (erule outcome_object) (rule outcome_dummy_member)

lemma outcome_dummies: "parse_dummies v s = (ok, s') \<Longrightarrow> outcome dummies_inv ok s s'"
  unfolding parse_dummies_def
proof (erule outcome_array)
  fix w t ok t'
  assume f: "(case t of (ds, c) \<Rightarrow> let (ok, d, c') = parse_dummy w (new_dummy, c) in (ok, ds @ [d], c')) = (ok, t')"
  obtain ds c where t: "t = (ds, c)" by (cases t)
  obtain b d c' where r: "parse_dummy w (new_dummy, c) = (b, d, c')" by (metis prod_cases3)
  have "outcome dummies_inv b (ds, c) (ds @ [d], c')"
    by (rule outcome_emplace [OF outcome_dummy [OF r]])
      (auto simp: dummies_inv_def dummy_inv_def new_dummy_def)
  with f t r show "outcome dummies_inv ok t t'" by auto
qed

lemma outcome_admin: "parse_admin v s = (ok, s') \<Longrightarrow> outcome no_inv ok s s'"
  unfolding parse_admin_def
  by (erule outcome_object) (auto simp: admin_member_def split: if_splits prod.splits intro: outcome_key elim!: outcome_scalar)

lemma outcome_logger_member:
  assumes "logger_member dump k v s = (ok, s')"
  shows "outcome no_inv ok s s'"
proof -
  obtain d c where s: "s = (d, c)" by (cases s)
  obtain b l where b: "parse_string dump False v [] = (b, l)" by (cases "parse_string dump False v []")
  obtain b2 l2 where b2: "ParseLevel (lc_level d) l = (b2, l2)" by (cases "ParseLevel (lc_level d) l")
  have level: "outcome no_inv True (d, c) (d\<lparr>lc_level := l2\<rparr>, if b2 then c else Error_value v ''log level'' TUndefined c)"
    by (auto simp: outcome_def Error_value_def bad_level_def)
  show ?thesis
    using assms level b b2 unfolding logger_member_def
    by (auto split: if_splits bool.splits simp: s intro: outcome_key outcome_error elim!: outcome_scalar)
qed

lemma outcome_logger: "parse_logger dump v s = (ok, s') \<Longrightarrow> outcome no_inv ok s s'"
  unfolding parse_logger_def by (erule outcome_object) (rule outcome_logger_member)

section \<open>The whole configuration\<close>

definition config_ok :: "Config \<Rightarrow> bool" where
  "config_ok c \<longleftrightarrow> apps_ok c \<and> proxies_inv (proxies c) (length (apps c)) \<and> dummies_inv (dummies c) 0"

definition named :: "Config \<Rightarrow> Config \<Rightarrow> bool" where
  "named c c' \<longleftrightarrow> length (apps c) \<le> length (apps c') \<and> app_map c \<subseteq>\<^sub>m app_map c'"

definition config_out :: "bool \<Rightarrow> unit \<times> Config \<Rightarrow> unit \<times> Config \<Rightarrow> bool" where
  "config_out ok s s' \<longleftrightarrow> logged ok (snd s) (snd s')
     \<and> (config_ok (snd s) \<longrightarrow> config_ok (snd s') \<and> named (snd s) (snd s'))"

interpretation config_out: parsing_outcome config_out
proof unfold_locales
  show "config_out True s s" for s by (simp add: config_out_def named_def)
  show "config_out ok s u" if "config_out True s t" "config_out ok t u" for s t ok u
  proof -
    have "named (snd s) (snd u)" if "named (snd s) (snd t)" "named (snd t) (snd u)"
      using that by (auto simp: named_def intro: map_le_trans)
    with that show ?thesis unfolding config_out_def using logged_trans by blast
  qed
qed

lemma config_out_section:
  assumes "section_of parse get put s = (ok, s')"
    and "\<And>t ok t'. parse t = (ok, t') \<Longrightarrow> outcome P ok t t'"
    and "\<And>c. config_ok c \<Longrightarrow> P (get c) (length (apps c))"
    and "\<And>x c. apps (put x c) = apps c \<and> app_map (put x c) = app_map c \<and> diags (put x c) = diags c"
    and "\<And>x c c'. config_ok c \<Longrightarrow> grown c c' \<Longrightarrow> apps_ok c' \<Longrightarrow> P x (length (apps c')) \<Longrightarrow>
      proxies_inv (proxies (put x c')) (length (apps c')) \<and> dummies_inv (dummies (put x c')) 0"
  shows "config_out ok s s'"
proof -
  obtain b x c' where r: "parse (get (snd s), snd s) = (b, x, c')" by (metis prod_cases3)
  from assms(1) r have s': "ok = b" "s' = ((), put x c')" by (auto simp: section_of_def Let_def)
  have o: "outcome P b (get (snd s), snd s) (x, c')" using r by (rule assms(2))
  have "config_ok (put x c') \<and> named (snd s) (put x c')" if c: "config_ok (snd s)"
  proof -
    from o assms(3) [OF c] c have o1: "apps_ok c'" "P x (length (apps c'))" "grown (snd s) c'"
      by (auto simp: outcome_def config_ok_def)
    moreover have "apps_ok (put x c')" using o1(1) assms(4) [of x c'] by (simp add: apps_ok_def)
    ultimately show ?thesis using assms(5) [OF c o1(3,1,2)] assms(4) [of x c']
      by (simp add: config_ok_def named_def grown_def)
  qed
  with o s' assms(4) show ?thesis by (simp add: config_out_def outcome_def logged_def)
qed

lemma config_ok_grown:
  assumes "config_ok c" "grown c c'"
  shows "proxies_inv (proxies c') (length (apps c')) \<and> dummies_inv (dummies c') 0"
  using assms proxies_inv_mono by (auto simp: config_ok_def grown_def)

lemma config_out_apps: "parse_apps dump v s = (ok, s') \<Longrightarrow> config_out ok s s'"
proof -
  assume p: "parse_apps dump v s = (ok, s')"
  have "outcome no_inv ok s s'"
    using p unfolding parse_apps_def
  proof (rule outcome_array)
    fix w and t t' :: "unit \<times> Config" and ok
    assume f: "apps_element dump w t = (ok, t')"
    obtain r c' where r: "ParseApp dump w (snd t) = (r, c')" by (cases "ParseApp dump w (snd t)")
    obtain e where e: "Error_value w ''app'' TUndefined c' = log_diag e c'" using Error_value_log by metis
    show "outcome no_inv ok t t'" using f r e ParseApp_out [OF r]
      by (cases r) (auto simp: apps_element_def outcome_def app_out_def logged_def grown_def)
  qed
  then show ?thesis using config_ok_grown [of "snd s" "snd s'"]
    by (auto simp: config_out_def outcome_def config_ok_def named_def grown_def)
qed

lemma config_out_member:
  assumes "config_member dump k v s = (ok, s')"
  shows "config_out ok s s'"
proof -
  consider "k = ''admin''" | "k = ''logger''" | "k = ''proxies''" | "k = ''apps''" | "k = ''dummy''"
    | "k \<notin> {''admin'', ''logger'', ''proxies'', ''apps'', ''dummy''}" by blast
  then show ?thesis
  proof cases
    case 1
    with assms have p: "section_of (parse_admin v) admin (\<lambda>x c. c\<lparr>admin := x\<rparr>) s = (ok, s')"
      by (simp add: config_member_def)
    show ?thesis
      by (rule config_out_section [OF p, where P = no_inv]) (auto dest: outcome_admin config_ok_grown)
  next
    case 2
    with assms have p: "section_of (parse_logger dump v) logger_conf (\<lambda>x c. c\<lparr>logger_conf := x\<rparr>) s = (ok, s')"
      by (simp add: config_member_def)
    show ?thesis
      by (rule config_out_section [OF p, where P = no_inv]) (auto dest: outcome_logger config_ok_grown)
  next
    case 3
    with assms have p: "section_of (parse_proxies dump v) proxies (\<lambda>x c. c\<lparr>proxies := x\<rparr>) s = (ok, s')"
      by (simp add: config_member_def)
    show ?thesis
      by (rule config_out_section [OF p, where P = proxies_inv])
        (auto dest: outcome_proxies simp: config_ok_def grown_def)
  next
    case 4
    with assms show ?thesis by (simp add: config_member_def config_out_apps)
  next
    case 5
    with assms have p: "section_of (parse_dummies v) dummies (\<lambda>x c. c\<lparr>dummies := x\<rparr>) s = (ok, s')"
      by (simp add: config_member_def)
    show ?thesis
      by (rule config_out_section [OF p, where P = dummies_inv])
        (auto dest: outcome_dummies proxies_inv_mono simp: config_ok_def dummies_inv_def dummy_inv_def grown_def)
  next
    case 6
    with assms have "ok = False" "s' = ((), log_diag (UnknownEntry k) (snd s))" by (auto simp: config_member_def)
    then show ?thesis by (simp add: config_out_def config_ok_def named_def)
  qed
qed

lemma parse_config_out: "parse_config dump v c = (ok, c') \<Longrightarrow> config_out ok ((), c) ((), c')"
proof (cases v)
  case (JObj kvs)
  assume p: "parse_config dump v c = (ok, c')"
  with JObj have "members (config_member dump) kvs ((), c) = (ok, ((), c'))"
    by (auto simp: parse_config_def split: prod.splits)
  then show ?thesis by (rule config_out.members) (rule config_out_member)
qed (auto simp: parse_config_def config_out_def config_ok_def named_def Error_value_def split: if_splits)

lemma config_ok_new: "config_ok new_config"
  by (simp add: config_ok_def new_config_def apps_ok_def proxies_inv_def dummies_inv_def)

section \<open>Properties\<close>


text \<open>
  The configuration of \<open>TestParseUpstream\<close> (\<open>test/test_config.cc\<close>), which asserts that it is
  accepted, and those of \<open>TestParseLogger\<close>, which is not run: the port of a proxy and the level
  of a logger are given as \<open>port\<close>.
\<close>

definition test_upstream :: json where
  "test_upstream = JObj [(''proxies'', JArr [JObj [(''port'', JInt 123)],
     JObj [(''upstream'', JObj [(''port'', JInt 456), (''tags'', JArr [JStr ''abc'', JInt 123]),
       (''app'', JObj [(''command'', JObj [(''file'', JStr ''foo''), (''args'', JArr [JStr ''-x 1 -1''])])])])]])]"

definition test_loggers :: "json list" where
  "test_loggers = [JObj [(''logger'', JObj [(''file'', JStr ''foo.log''), (''port'', JStr ''TRACE'')])],
     JObj [(''logger'', JObj [(''port'', JStr ''CRITICAL'')])]]"

theorem config_test_rejected:
  "\<not> fst (Config_Parse (\<lambda>_. test_upstream) dump c code)
    \<and> (\<forall>v \<in> set test_loggers. \<not> fst (Config_Parse (\<lambda>_. v) dump c code))"
  by (simp add: Config_Parse_def parse_config_accepts test_upstream_def test_loggers_def config_schema_def proxy_schema_def
      logger_schema_def)

text \<open>
  C20: parsing keeps the app pointers of a configuration valid, when it fails half way as much
  as when it succeeds: preambles and upstreams point at apps of the vector, which the
  destructor deletes once each, and \<open>app_map\<close> is exactly the map from the non-empty names
  of the apps to the apps, so that a name, wherever it is mentioned first, denotes one app for
  good.
\<close>

theorem config_pointers_valid:
  assumes "Config_Parse read dump new_config code = (ok, c1)" "Config_Parse read dump c1 code2 = (ok2, c2)"
  shows "apps_ok c1 \<and> proxies_inv (proxies c1) (length (apps c1)) \<and> apps_ok c2
    \<and> proxies_inv (proxies c2) (length (apps c2)) \<and> app_map c1 \<subseteq>\<^sub>m app_map c2"
proof -
  have "config_ok c1" using parse_config_out [OF assms(1) [unfolded Config_Parse_def]] config_ok_new
    by (simp add: config_out_def)
  moreover from this have "config_ok c2 \<and> named c1 c2"
    using parse_config_out [OF assms(2) [unfolded Config_Parse_def]] by (simp add: config_out_def)
  ultimately show ?thesis by (simp add: config_ok_def named_def)
qed

definition sample_tree :: json where
  "sample_tree = JObj [(''proxies'', JArr [JObj [(''upstream'', JObj [(''app'', JStr ''db'')])]]),
     (''apps'', JArr [JObj [(''name'', JStr ''db''), (''preamble'', JArr [JStr ''vpn''])]])]"

theorem config_pointers_valid_witness:
  "\<exists>c1 c2. Config_Parse (\<lambda>_. sample_tree) (\<lambda>_. []) new_config [] = (True, c1)
     \<and> Config_Parse (\<lambda>_. sample_tree) (\<lambda>_. []) c1 [] = (True, c2)
     \<and> apps_ok c2 \<and> app_map c1 \<subseteq>\<^sub>m app_map c2"
proof -
  let ?p = "Config_Parse (\<lambda>_. sample_tree) (\<lambda>_. [])"
  obtain ok1 c1 where 1: "?p new_config [] = (ok1, c1)" by (cases "?p new_config []")
  obtain ok2 c2 where 2: "?p c1 [] = (ok2, c2)" by (cases "?p c1 []")
  have ok: "fst (?p c []) = True" for c
    by (simp add: Config_Parse_def parse_config_accepts sample_tree_def config_schema_def proxy_schema_def
        upstream_schema_def app_schema_def)
  from ok [of new_config] ok [of c1] 1 2 have oks: "ok1 = True" "ok2 = True" by simp_all
  from config_pointers_valid [OF 1 2] 1 2 show ?thesis unfolding oks by blast
qed

text \<open>
  A rejected configuration is always explained: at least one line is logged, and an
  accepted one logs nothing but lines about a log level that is not one, which does not make
  the parser fail.
\<close>

theorem config_rejection_logged:
  "\<exists>ds. diags (snd (Config_Parse read dump c code)) = diags c @ ds
    \<and> (if fst (Config_Parse read dump c code) then list_all bad_level ds else ds \<noteq> [])"
proof -
  obtain ok c' where p: "parse_config dump (read code) c = (ok, c')" by (cases "parse_config dump (read code) c")
  from parse_config_out [OF p] p show ?thesis
    by (auto simp: config_out_def logged_def Config_Parse_def)
qed

text \<open>
  Two documented settings never reach the configuration, whatever the text says: a dummy
  server of type \<open>http\<close> is accepted and stays of the type it had, and the working directory
  of a command is accepted and goes into its environment.
\<close>

theorem config_settings_lost:
  "(\<forall>d \<in> set (dummies (snd (Config_Parse read dump new_config code))). dummy_type d = Tcp \<or> dummy_type d = Udp)
    \<and> (\<forall>a \<in> set (apps (snd (Config_Parse read dump new_config code))). cmd_cwd (app_command a) = [])
    \<and> fst (parse_dummy (JObj [(''type'', JStr ''http'')]) (new_dummy, c))
    \<and> parse_command dump (JObj [(''cwd'', JArr [JStr dir])]) (k, c) = (True, k\<lparr>cmd_env := cmd_env k @ [dir]\<rparr>, c)"
proof -
  obtain ok c' where p: "parse_config dump (read code) new_config = (ok, c')"
    by (cases "parse_config dump (read code) new_config")
  from parse_config_out [OF p] config_ok_new have c': "config_ok c'" by (simp add: config_out_def)
  have "dummy_type d = Tcp \<or> dummy_type d = Udp" if "d \<in> set (dummies c')" for d
    using c' that by (cases "dummy_type d") (auto simp: config_ok_def dummies_inv_def dummy_inv_def)
  moreover have "cmd_cwd (app_command a) = []" if "a \<in> set (apps c')" for a
    using c' that by (auto simp: config_ok_def apps_ok_def app_ok_def)
  moreover have "fst (parse_dummy (JObj [(''type'', JStr ''http'')]) (new_dummy, c))"
    by (simp add: fst_parse_dummy dummy_schema_def protocol_name_def)
  ultimately show ?thesis using p
    by (auto simp: Config_Parse_def parse_command_def command_member_def nested_def parse_strings_def)
qed

theorem config_settings_lost_witness:
  "cmd_env (fst (snd (parse_command (\<lambda>_. []) (JObj [(''cwd'', JArr [JStr ''/srv''])]) (new_command, new_config))))
    = [''/srv'']"
  using config_settings_lost [of "\<lambda>_. JUndef" "\<lambda>_. []" "[]" new_config "''/srv''" new_command]
  by (simp add: new_command_def)

end
