(* ===== verification/ConfigRoundtrip.thy ===== *)
theory ConfigRoundtrip
  imports ConfigProps
begin

text \<open>
  Round trip of a configuration: a specification in which apps are mentioned by name is
  printed as a value tree, in the order of the example file with the proxies before the apps
  they mention, and parsed back.
\<close>

section \<open>Specifications and their printed form\<close>

record app_spec =
  as_name :: bytes
  as_command :: Command
  as_checker :: "Command option"
  as_max_start_time :: int
  as_preamble :: "bytes list"
  as_tags :: "bytes list"

record proxy_spec =
  ps_port :: int
  ps_host :: bytes
  ps_up_port :: int
  ps_timeout :: int
  ps_app :: "bytes option"
  ps_tags :: "bytes list"

record config_spec =
  cs_admin_port :: int
  cs_log_file :: bytes
  cs_log_level :: Level
  cs_proxies :: "proxy_spec list"
  cs_apps :: "app_spec list"
  cs_dummies :: "Dummy list"

definition print_strings :: "bytes list \<Rightarrow> json" where
  "print_strings xs = JArr (map JStr xs)"

definition print_command :: "Command \<Rightarrow> json" where
  "print_command k = JObj [(''file'', JStr (cmd_file k)), (''args'', print_strings (cmd_args k)),
     (''env'', print_strings (cmd_env k)), (''timeout'', JInt (cmd_timeout k))]"

definition print_app :: "app_spec \<Rightarrow> json" where
  "print_app a = JObj ([(''name'', JStr (as_name a)), (''command'', print_command (as_command a))]
     @ (case as_checker a of None \<Rightarrow> [] | Some k \<Rightarrow> [(''checker'', print_command k)])
     @ [(''max_start_time'', JInt (as_max_start_time a)), (''preamble'', print_strings (as_preamble a)),
        (''tags'', print_strings (as_tags a))])"

definition print_proxy :: "proxy_spec \<Rightarrow> json" where
  "print_proxy p = JObj [(''listen'', JInt (ps_port p)),
     (''upstream'', JObj ([(''host'', JStr (ps_host p)), (''port'', JInt (ps_up_port p)),
        (''connect_timeout'', JInt (ps_timeout p))]
        @ (case ps_app p of None \<Rightarrow> [] | Some n \<Rightarrow> [(''app'', JStr n)])
        @ [(''tags'', print_strings (ps_tags p))]))]"

fun print_protocol :: "DummyType \<Rightarrow> bytes" where
  "print_protocol Tcp = ''tcp''"
| "print_protocol Udp = ''udp''"
| "print_protocol Http = ''http''"

definition print_dummy :: "Dummy \<Rightarrow> json" where
  "print_dummy d = JObj [(''type'', JStr (print_protocol (dummy_type d))), (''listen'', JInt (dummy_port d)),
     (''echo'', JBool (dummy_echo d))]"

definition print_config :: "config_spec \<Rightarrow> json" where
  "print_config s = JObj [(''admin'', JObj [(''listen'', JInt (cs_admin_port s))]),
     (''logger'', JObj [(''file'', JStr (cs_log_file s)), (''level'', JStr (butlast (level_name (cs_log_level s))))]),
     (''proxies'', JArr (map print_proxy (cs_proxies s))),
     (''apps'', JArr (map print_app (cs_apps s))),
     (''dummy'', JArr (map print_dummy (cs_dummies s)))]"

section \<open>What a configuration says of a specification\<close>

definition resolves :: "Config \<Rightarrow> bytes list \<Rightarrow> nat list \<Rightarrow> bool" where
  "resolves c ns ps \<longleftrightarrow> list_all2 (\<lambda>n p. app_map c n = Some p) ns ps"

definition app_of :: "app_spec \<Rightarrow> nat list \<Rightarrow> App" where
  "app_of a ps = \<lparr>app_name = as_name a, app_command = as_command a, app_checker = as_checker a,
     app_max_start_time = as_max_start_time a, app_preamble = ps, app_tags = as_tags a\<rparr>"

text \<open>The app of that name is in the vector, with the contents of its specification.\<close>

definition app_defined :: "Config \<Rightarrow> app_spec \<Rightarrow> bool" where
  "app_defined c a \<longleftrightarrow> (\<exists>i ps. app_map c (as_name a) = Some i \<and> i < length (apps c)
     \<and> apps c ! i = app_of a ps \<and> resolves c (as_preamble a) ps)"

definition proxy_defined :: "Config \<Rightarrow> proxy_spec \<Rightarrow> Proxy \<Rightarrow> bool" where
  "proxy_defined c s p \<longleftrightarrow> (\<exists>a. p = \<lparr>proxy_port = ps_port s, proxy_upstream = \<lparr>up_host = ps_host s,
       up_port = ps_up_port s, up_connect_timeout = ps_timeout s, up_app = a, up_tags = ps_tags s\<rparr>\<rparr>
     \<and> (case ps_app s of None \<Rightarrow> a = None | Some n \<Rightarrow> a \<noteq> None \<and> app_map c n = a))"

definition command_spec_ok :: "Command \<Rightarrow> bool" where
  "command_spec_ok k \<longleftrightarrow> cmd_cwd k = []"

definition app_spec_ok :: "app_spec \<Rightarrow> bool" where
  "app_spec_ok a \<longleftrightarrow> as_name a \<noteq> [] \<and> [] \<notin> set (as_preamble a) \<and> command_spec_ok (as_command a)
     \<and> (\<forall>k. as_checker a = Some k \<longrightarrow> command_spec_ok k)"

definition config_spec_ok :: "config_spec \<Rightarrow> bool" where
  "config_spec_ok s \<longleftrightarrow> list_all app_spec_ok (cs_apps s) \<and> distinct (map as_name (cs_apps s))
     \<and> list_all (\<lambda>p. ps_app p \<noteq> Some []) (cs_proxies s) \<and> list_all (\<lambda>d. dummy_type d \<noteq> Http) (cs_dummies s)"

section \<open>Parsing the printed pieces\<close>

lemma elements_strings:
  "elements (\<lambda>v (dst, c). (True, dst @ [text_of dump v], c)) (map JStr xs) (ys, c) = (True, ys @ xs, c)"
  by (induction xs arbitrary: ys) simp_all

lemma parse_printed_strings: "parse_strings dump name (print_strings xs) (ys, c) = (True, ys @ xs, c)"
  by (simp add: parse_strings_def print_strings_def parse_string_forced elements_strings)

lemma parse_printed_command:
  "command_spec_ok k \<Longrightarrow> parse_command dump (print_command k) (new_command\<lparr>cmd_timeout := t\<rparr>, c) = (True, k, c)"
  by (simp add: parse_command_def print_command_def command_member_def scalar_def nested_def
      parse_printed_strings new_command_def command_spec_ok_def)

text \<open>The pointers a list of names stands for, allocating as it goes.\<close>

fun get_apps :: "bytes list \<Rightarrow> Config \<Rightarrow> nat list \<times> Config" where
  "get_apps [] c = ([], c)"
| "get_apps (n # ns) c = (case GetApp n c of (a, c1) \<Rightarrow> (case get_apps ns c1 of (ps, c2) \<Rightarrow> (a # ps, c2)))"

lemma elements_preambles:
  "[] \<notin> set ns \<Longrightarrow> elements (preamble_element (ParseApp dump)) (map JStr ns) (app, c)
    = (True, app\<lparr>app_preamble := app_preamble app @ fst (get_apps ns c)\<rparr>, snd (get_apps ns c))"
  by (induction ns arbitrary: app c) (auto simp: preamble_element_def split: prod.splits)

lemma parse_printed_app:
  assumes "app_spec_ok a"
  shows "parse_app dump (print_app a) (new_app, c)
    = (True, app_of a (fst (get_apps (as_preamble a) c)), snd (get_apps (as_preamble a) c))"
proof -
  have k: "parse_command dump (print_command (as_command a)) (new_command, d) = (True, as_command a, d)" for d
    using parse_printed_command [of "as_command a" dump 0 d] assms
    by (simp add: app_spec_ok_def new_command_def)
  have pre: "parse_array nm (preamble_element (ParseApp dump)) (print_strings (as_preamble a)) (app, d)
      = (True, app\<lparr>app_preamble := app_preamble app @ fst (get_apps (as_preamble a) d)\<rparr>,
           snd (get_apps (as_preamble a) d))" for nm app d
    using assms by (simp add: print_strings_def elements_preambles app_spec_ok_def)
  show ?thesis
  proof (cases "as_checker a")
    case None
    then show ?thesis
      by (simp add: parse_app_def print_app_def app_member_def scalar_def nested_def k pre
          parse_printed_strings new_app_def app_of_def)
  next
    case (Some q)
    with assms have "command_spec_ok q" by (simp add: app_spec_ok_def)
    with Some show ?thesis
      by (simp add: parse_app_def print_app_def app_member_def scalar_def nested_def k pre
          parse_printed_command parse_printed_strings new_app_def app_of_def)
  qed
qed

section \<open>Names\<close>

text \<open>Growing by mentions only: the apps already there are untouched.\<close>

definition mentioned :: "Config \<Rightarrow> Config \<Rightarrow> bool" where
  "mentioned c c' \<longleftrightarrow> grown c c' \<and> (\<forall>i < length (apps c). apps c' ! i = apps c ! i) \<and> diags c' = diags c"

lemma mentioned_refl: "mentioned c c"
  by (simp add: mentioned_def)

lemma mentioned_trans: "mentioned c d \<Longrightarrow> mentioned d e \<Longrightarrow> mentioned c e"
  by (auto simp: mentioned_def grown_def intro: map_le_trans)

lemma GetApp_mentioned:
  assumes "GetApp n c = (a, c')" "n \<noteq> []" "apps_ok c"
  shows "mentioned c c'"
proof -
  have "\<forall>i < length (apps c). apps c' ! i = apps c ! i"
    using assms(1,2) by (auto simp: GetApp_def Let_def nth_append split: option.splits if_splits)
  with GetApp_ok [OF assms] GetApp_diags [OF assms(1)] show ?thesis by (simp add: mentioned_def)
qed

lemma resolves_grown: "resolves c ns ps \<Longrightarrow> app_map c \<subseteq>\<^sub>m app_map c' \<Longrightarrow> resolves c' ns ps"
  unfolding resolves_def by (erule list_all2_mono) (rule map_leD)

lemma get_apps_resolves:
  assumes "get_apps ns c = (ps, c')" "[] \<notin> set ns" "apps_ok c"
  shows "apps_ok c' \<and> mentioned c c' \<and> resolves c' ns ps"
  using assms
proof (induction ns arbitrary: c ps)
  case Nil
  then show ?case by (simp add: mentioned_refl resolves_def)
next
  case (Cons n ns)
  obtain a c1 where g: "GetApp n c = (a, c1)" by (cases "GetApp n c")
  obtain qs where r: "get_apps ns c1 = (qs, c')" and ps: "ps = a # qs"
    using Cons.prems(1) g by (auto split: prod.splits)
  have n: "n \<noteq> []" "[] \<notin> set ns" using Cons.prems(2) by auto
  from GetApp_ok [OF g n(1) Cons.prems(3)] have c1: "apps_ok c1" "app_map c1 n = Some a" by auto
  from Cons.IH [OF r n(2) c1(1)] have c': "apps_ok c'" "mentioned c1 c'" "resolves c' ns qs" by auto
  have "app_map c' n = Some a" using c1(2) c'(2) by (auto simp: mentioned_def grown_def intro: map_leD)
  with c' ps mentioned_trans [OF GetApp_mentioned [OF g n(1) Cons.prems(3)] c'(2)]
  show ?case by (simp add: resolves_def)
qed

lemma app_defined_mentioned: "app_defined c a \<Longrightarrow> mentioned c c' \<Longrightarrow> app_defined c' a"
  unfolding app_defined_def mentioned_def grown_def
  by (metis map_leD order_less_le_trans resolves_grown)

section \<open>Apps\<close>

lemma ParseApp_printed:
  assumes "app_spec_ok a" "apps_ok c"
  shows "\<exists>i c'. ParseApp dump (print_app a) c = (Some i, c') \<and> apps_ok c' \<and> grown c c' \<and> diags c' = diags c
    \<and> app_defined c' a \<and> (\<forall>b. as_name b \<noteq> as_name a \<longrightarrow> app_defined c b \<longrightarrow> app_defined c' b)"
proof -
  let ?n = "as_name a"
  have ns: "[] \<notin> set (as_preamble a)" "?n \<noteq> []" using assms(1) by (auto simp: app_spec_ok_def)
  obtain ps c1 where g: "get_apps (as_preamble a) c = (ps, c1)" by (cases "get_apps (as_preamble a) c")
  from get_apps_resolves [OF g ns(1) assms(2)] have c1: "apps_ok c1" "mentioned c c1"
    "resolves c1 (as_preamble a) ps" by auto
  obtain i c2 where h: "GetApp ?n c1 = (i, c2)" by (cases "GetApp ?n c1")
  from GetApp_ok [OF h ns(2) c1(1)] have c2: "apps_ok c2" "i < length (apps c2)" "app_map c2 ?n = Some i" by auto
  have m2: "mentioned c c2" using mentioned_trans [OF c1(2) GetApp_mentioned [OF h ns(2) c1(1)]] .
  let ?c' = "c2\<lparr>apps := (apps c2)[i := app_of a ps]\<rparr>"
  have name: "app_name (app_of a ps) = ?n" by (simp add: app_of_def)
  have p: "ParseApp dump (print_app a) c = (Some i, ?c')"
    using parse_printed_app [OF assms(1), of dump c] g h ns(2)
    by (simp add: ParseApp_alt print_app_def name del: ParseApp.simps)
  have res: "resolves c2 (as_preamble a) ps"
    using c1(3) GetApp_mentioned [OF h ns(2) c1(1)] by (auto simp: mentioned_def grown_def intro: resolves_grown)
  have out: "app_out (Some i) c ?c'" using p by (rule ParseApp_out)
  have self: "app_defined ?c' a"
    using c2(2,3) res by (auto simp: app_defined_def resolves_def)
  have other: "app_defined ?c' b" if b: "as_name b \<noteq> ?n" "app_defined c b" for b
  proof -
    from app_defined_mentioned [OF b(2) m2] obtain j qs where j: "app_map c2 (as_name b) = Some j"
      "j < length (apps c2)" "apps c2 ! j = app_of b qs" "resolves c2 (as_preamble b) qs"
      by (auto simp: app_defined_def)
    have "i \<noteq> j" using c2(1,3) j(1) b(1) by (auto simp: apps_ok_def)
    with j show ?thesis by (auto simp: app_defined_def resolves_def)
  qed
  from out assms(2) have "apps_ok ?c'" "grown c ?c'" by (auto simp: app_out_def)
  moreover have "diags ?c' = diags c" using m2 by (simp add: mentioned_def)
  ultimately show ?thesis using p self other by blast
qed

lemma elements_apps:
  assumes "list_all app_spec_ok as" "distinct (map as_name as)" "apps_ok c"
  shows "\<exists>c'. elements (apps_element dump) (map print_app as) ((), c) = (True, (), c') \<and> apps_ok c'
    \<and> grown c c' \<and> diags c' = diags c \<and> list_all (app_defined c') as
    \<and> (\<forall>b. as_name b \<notin> as_name ` set as \<longrightarrow> app_defined c b \<longrightarrow> app_defined c' b)"
  using assms
proof (induction as arbitrary: c)
  case Nil
  then show ?case by simp
next
  case (Cons a as)
  from Cons.prems have a: "app_spec_ok a" and as: "list_all app_spec_ok as" "distinct (map as_name as)" by auto
  from ParseApp_printed [OF a Cons.prems(3), of dump] obtain i c1 where
    c1: "ParseApp dump (print_app a) c = (Some i, c1)" "apps_ok c1" "grown c c1" "diags c1 = diags c" "app_defined c1 a"
      "\<forall>b. as_name b \<noteq> as_name a \<longrightarrow> app_defined c b \<longrightarrow> app_defined c1 b" by blast
  from Cons.IH [OF as c1(2)] obtain c' where c': "elements (apps_element dump) (map print_app as) ((), c1) = (True, (), c')"
    "apps_ok c'" "grown c1 c'" "diags c' = diags c1" "list_all (app_defined c') as"
    "\<forall>b. as_name b \<notin> as_name ` set as \<longrightarrow> app_defined c1 b \<longrightarrow> app_defined c' b" by blast
  have "app_defined c' a" using c1(5) c'(6) Cons.prems(2) by auto
  moreover have "elements (apps_element dump) (map print_app (a # as)) ((), c) = (True, (), c')"
    using c1(1) c'(1) by (simp add: apps_element_def)
  moreover have "grown c c'" using c1(3) c'(3) by (rule grown_trans)
  ultimately show ?case using c1(4,6) c'(2,4-6) by auto
qed

section \<open>Proxies and dummies\<close>

lemma parse_printed_proxy:
  assumes "ps_app s \<noteq> Some []" "apps_ok c"
  shows "\<exists>p c'. parse_proxy dump (print_proxy s) (new_proxy, c) = (True, p, c') \<and> apps_ok c' \<and> mentioned c c'
    \<and> proxy_defined c' s p"
proof (cases "ps_app s")
  case None
  then show ?thesis using assms(2)
    by (simp add: parse_proxy_def print_proxy_def proxy_member_def nested_def scalar_def parse_upstream_def
        upstream_member_def parse_printed_strings new_proxy_def new_upstream_def proxy_defined_def mentioned_refl)
next
  case (Some n)
  with assms(1) have n: "n \<noteq> []" by simp
  obtain a c' where g: "GetApp n c = (a, c')" by (cases "GetApp n c")
  from GetApp_ok [OF g n assms(2)] GetApp_mentioned [OF g n assms(2)] Some n g show ?thesis
    by (simp add: parse_proxy_def print_proxy_def proxy_member_def nested_def scalar_def parse_upstream_def
        upstream_member_def parse_printed_strings new_proxy_def new_upstream_def proxy_defined_def)
qed

lemma proxy_defined_grown:
  assumes "proxy_defined c s p" "app_map c \<subseteq>\<^sub>m app_map c'"
  shows "proxy_defined c' s p"
proof -
  have "app_map c' n = a" if "a \<noteq> None" "app_map c n = a" for n a
    using assms(2) that by (auto dest: map_leD)
  with assms(1) show ?thesis by (auto simp: proxy_defined_def split: option.splits)
qed

lemma elements_proxies:
  assumes "list_all (\<lambda>s. ps_app s \<noteq> Some []) ss" "apps_ok c"
  shows "\<exists>ps c'. elements (\<lambda>v (ps, c). let (ok, p, c') = parse_proxy dump v (new_proxy, c) in (ok, ps @ [p], c'))
      (map print_proxy ss) (qs, c) = (True, qs @ ps, c')
    \<and> apps_ok c' \<and> mentioned c c' \<and> list_all2 (proxy_defined c') ss ps"
  using assms
proof (induction ss arbitrary: qs c)
  case Nil
  then show ?case by (simp add: mentioned_refl)
next
  case (Cons s ss)
  from Cons.prems have s: "ps_app s \<noteq> Some []" and ss: "list_all (\<lambda>s. ps_app s \<noteq> Some []) ss" by auto
  from parse_printed_proxy [OF s Cons.prems(2), of dump] obtain p c1 where
    c1: "parse_proxy dump (print_proxy s) (new_proxy, c) = (True, p, c1)" "apps_ok c1" "mentioned c c1"
      "proxy_defined c1 s p" by blast
  from Cons.IH [OF ss c1(2), of "qs @ [p]"] obtain ps c' where
    c': "elements (\<lambda>v (ps, c). let (ok, p, c') = parse_proxy dump v (new_proxy, c) in (ok, ps @ [p], c'))
      (map print_proxy ss) (qs @ [p], c1) = (True, (qs @ [p]) @ ps, c')"
      "apps_ok c'" "mentioned c1 c'" "list_all2 (proxy_defined c') ss ps" by blast
  have "proxy_defined c' s p"
    using c1(4) c'(3) by (auto simp: mentioned_def grown_def intro: proxy_defined_grown)
  with c1(1) c' mentioned_trans [OF c1(3) c'(3)] show ?case
    by (intro exI [of _ "p # ps"] exI [of _ c']) simp
qed

lemma parse_printed_dummy:
  "dummy_type d \<noteq> Http \<Longrightarrow> parse_dummy (print_dummy d) (new_dummy, c) = (True, d, c)"
  by (cases "dummy_type d")
    (simp_all add: parse_dummy_def print_dummy_def dummy_member_def nested_def scalar_def new_dummy_def)

lemma elements_dummies:
  "list_all (\<lambda>d. dummy_type d \<noteq> Http) ds \<Longrightarrow>
    elements (\<lambda>v (ds, c). let (ok, d, c') = parse_dummy v (new_dummy, c) in (ok, ds @ [d], c')) (map print_dummy ds) (es, c)
      = (True, es @ ds, c)"
  by (induction ds arbitrary: es) (simp_all add: parse_printed_dummy)

lemma ParseLevel_name: "ParseLevel old (butlast (level_name l)) = (True, l)"
  using parse_level_loop_names [of "butlast (level_name l)" l]
  by (cases l) (simp_all add: ParseLevel_def)

section \<open>The whole configuration\<close>

lemma mentioned_keeps_apps: "mentioned c c' \<Longrightarrow> apps_ok c' \<Longrightarrow> app_map c \<subseteq>\<^sub>m app_map c'"
  by (simp add: mentioned_def grown_def)

lemma parse_printed_config:
  assumes "config_spec_ok s"
  shows "\<exists>c. parse_config dump (print_config s) new_config = (True, c)
    \<and> admin_port (admin c) = cs_admin_port s
    \<and> logger_conf c = \<lparr>lc_file = cs_log_file s, lc_level = cs_log_level s\<rparr>
    \<and> list_all2 (proxy_defined c) (cs_proxies s) (proxies c)
    \<and> list_all (app_defined c) (cs_apps s)
    \<and> dummies c = cs_dummies s \<and> diags c = []"
proof -
  let ?c0 = "new_config\<lparr>admin := \<lparr>admin_port = cs_admin_port s\<rparr>,
     logger_conf := \<lparr>lc_file = cs_log_file s, lc_level = cs_log_level s\<rparr>\<rparr>"
  have spec: "list_all app_spec_ok (cs_apps s)" "distinct (map as_name (cs_apps s))"
    "list_all (\<lambda>p. ps_app p \<noteq> Some []) (cs_proxies s)" "list_all (\<lambda>d. dummy_type d \<noteq> Http) (cs_dummies s)"
    using assms by (auto simp: config_spec_ok_def)
  have c0: "apps_ok ?c0" "proxies ?c0 = []" "diags ?c0 = []" "dummies ?c0 = []"
    by (simp_all add: new_config_def apps_ok_def)
  from elements_proxies [OF spec(3) c0(1), of dump "[]"] obtain ps c1 where
    c1: "parse_proxies dump (JArr (map print_proxy (cs_proxies s))) ([], ?c0) = (True, ps, c1)"
      "apps_ok c1" "mentioned ?c0 c1" "list_all2 (proxy_defined c1) (cs_proxies s) ps"
    by (auto simp: parse_proxies_def)
  let ?c1 = "c1\<lparr>proxies := ps\<rparr>"
  have ok1: "apps_ok ?c1" using c1(2) by (simp add: apps_ok_def)
  from elements_apps [OF spec(1,2) ok1, of dump] obtain c2 where
    c2: "parse_apps dump (JArr (map print_app (cs_apps s))) ((), ?c1) = (True, (), c2)"
      "grown ?c1 c2" "diags c2 = diags ?c1" "list_all (app_defined c2) (cs_apps s)"
    by (auto simp: parse_apps_def)
  let ?c = "c2\<lparr>dummies := cs_dummies s\<rparr>"
  have d2: "dummies c2 = []" using c1(3) c2(2) c0(4) by (simp add: mentioned_def grown_def)
  have adm: "parse_admin (JObj [(''listen'', JInt (cs_admin_port s))]) (a, d) = (True, \<lparr>admin_port = cs_admin_port s\<rparr>, d)"
    for a :: Admin and d by (simp add: parse_admin_def admin_member_def scalar_def)
  have log: "parse_logger dump (JObj [(''file'', JStr (cs_log_file s)),
        (''level'', JStr (butlast (level_name (cs_log_level s))))]) (l, d)
      = (True, \<lparr>lc_file = cs_log_file s, lc_level = cs_log_level s\<rparr>, d)" for l :: LoggerConf and d
    by (simp add: parse_logger_def logger_member_def scalar_def ParseLevel_name)
  have dum: "parse_dummies (JArr (map print_dummy (cs_dummies s))) (dummies c2, c2) = (True, cs_dummies s, c2)"
    using elements_dummies [OF spec(4), of "[]" c2] d2 by (simp add: parse_dummies_def)
  have p: "parse_config dump (print_config s) new_config = (True, ?c)"
    using c1(1) c2(1) dum c0(2)
    by (simp add: parse_config_def print_config_def config_member_def section_of_def adm log)
  have le: "app_map c1 \<subseteq>\<^sub>m app_map c2" using c2(2) by (simp add: grown_def)
  have "list_all2 (proxy_defined ?c) (cs_proxies s) ps"
    using c1(4) by (rule list_all2_mono) (use le in \<open>auto intro: proxy_defined_grown\<close>)
  moreover have "list_all (app_defined ?c) (cs_apps s)"
    using c2(4) by (auto simp: list_all_iff app_defined_def resolves_def)
  moreover have "admin_port (admin c2) = cs_admin_port s"
    "logger_conf c2 = \<lparr>lc_file = cs_log_file s, lc_level = cs_log_level s\<rparr>" "proxies c2 = ps" "diags c2 = []"
    using c1(3) c2(2,3) c0(3) by (simp_all add: mentioned_def grown_def)
  ultimately show ?thesis using p by simp
qed

text \<open>
  C18: parsing the printed form of a configuration gives it back, with nothing logged: every
  app is in the vector under its name with exactly its contents, every preamble and upstream
  points at the app of the name it mentions, though proxies are printed before the apps they
  mention and apps may mention apps that come later, and the remaining sections are equal. The
  configurations are those that use none of the settings the code loses (no command has a \<open>cwd\<close>,
  no dummy server is of the \<open>http\<close> kind, see \<open>config_settings_lost\<close>) and whose apps have distinct,
  non-empty names, by which preambles and upstreams mention them.
\<close>

theorem config_roundtrip:
  assumes "read code = print_config s" "config_spec_ok s"
  shows "\<exists>c. Config_Parse read dump new_config code = (True, c)
    \<and> admin_port (admin c) = cs_admin_port s
    \<and> logger_conf c = \<lparr>lc_file = cs_log_file s, lc_level = cs_log_level s\<rparr>
    \<and> list_all2 (proxy_defined c) (cs_proxies s) (proxies c)
    \<and> list_all (app_defined c) (cs_apps s)
    \<and> dummies c = cs_dummies s \<and> diags c = []"
  using parse_printed_config [OF assms(2), of dump] assms(1) by (simp add: Config_Parse_def)

definition sample_spec :: config_spec where
  "sample_spec = \<lparr>cs_admin_port = 8090, cs_log_file = ''nexer.log'', cs_log_level = DEBUG,
     cs_proxies = [\<lparr>ps_port = 9501, ps_host = ''localhost'', ps_up_port = 10202, ps_timeout = 500,
        ps_app = Some ''db'', ps_tags = []\<rparr>],
     cs_apps = [\<lparr>as_name = ''db'', as_command = (new_command\<lparr>cmd_file := ''docker''\<rparr>), as_checker = Some new_command,
        as_max_start_time = 0, as_preamble = [''vpn'', ''db''], as_tags = []\<rparr>],
     cs_dummies = []\<rparr>"

theorem config_roundtrip_witness:
  "\<exists>c i p. Config_Parse (\<lambda>_. print_config sample_spec) (\<lambda>_. []) new_config [] = (True, c)
     \<and> app_map c ''db'' = Some i \<and> proxies c = [p] \<and> up_app (proxy_upstream p) = Some i
     \<and> app_checker (apps c ! i) = Some new_command"
proof -
  have ok: "config_spec_ok sample_spec"
    by (simp add: sample_spec_def config_spec_ok_def app_spec_ok_def command_spec_ok_def new_command_def)
  obtain c where c: "Config_Parse (\<lambda>_. print_config sample_spec) (\<lambda>_. []) new_config [] = (True, c)"
    "list_all2 (proxy_defined c) (cs_proxies sample_spec) (proxies c)"
    "list_all (app_defined c) (cs_apps sample_spec)"
    using config_roundtrip [OF refl ok, of "\<lambda>_. []"] by blast
  then show ?thesis
    by (auto simp: sample_spec_def list_all2_Cons1 proxy_defined_def app_defined_def app_of_def)
qed

end
