(* ===== verification/StringBuffers.thy ===== *)
theory StringBuffers
  imports Prelude
begin

text \<open>
  The growable byte buffer of \<open>include/string_buffer.h\<close>. A buffer is its allocation, all
  \<open>cap\<close> bytes of it, and the write position \<open>pptr - pbase\<close>; \<open>base\<close> is null when nothing
  is allocated. \<open>alloc n\<close> tells whether \<open>realloc\<close> grants \<open>n\<close> bytes. Sizes are natural
  numbers with the wrap-around of \<open>size_t\<close> written out where the code adds to an argument.
  What the code does to memory that is not its own is a fault.
\<close>

section \<open>The buffer\<close>

record sbuf =
  mem :: bytes
  pos :: nat

abbreviation cap :: "sbuf \<Rightarrow> nat" where
  "cap sb \<equiv> length (mem sb)"

definition content :: "sbuf \<Rightarrow> bytes" where
  "content sb = take (pos sb) (mem sb)"

definition empty_sbuf :: sbuf where
  "empty_sbuf = \<lparr>mem = [], pos = 0\<rparr>"

definition MIN_SIZE :: nat where
  "MIN_SIZE = 512"

definition MAX_SIZE :: nat where
  "MAX_SIZE = 268435456"

definition size_t :: nat where
  "size_t = 2 ^ 64"

text \<open>\<open>memcpy (base + i, xs)\<close> inside the allocation.\<close>

definition splice :: "nat \<Rightarrow> bytes \<Rightarrow> bytes \<Rightarrow> bytes" where
  "splice i xs m = take i m @ xs @ drop (i + length xs) m"

text \<open>
  \<open>MyBuf::Reserve\<close>. A request so large that rounding it up wraps around to zero makes
  \<open>realloc\<close> free a block that stays in use; a wrapped request below the data makes the
  \<open>memset\<close> run away.
\<close>

definition Reserve :: "(nat \<Rightarrow> bool) \<Rightarrow> nat \<Rightarrow> sbuf \<Rightarrow> fault + int \<times> sbuf" where
  "Reserve alloc new_cap sb =
     (if cap sb < new_cap
      then (let n = (new_cap + (MIN_SIZE - 1)) mod size_t div MIN_SIZE * MIN_SIZE
            in if n \<le> MAX_SIZE
               then if n = 0 \<and> cap sb \<noteq> 0 then Inl UseAfterFree
                    else if alloc n
                    then if n < pos sb then Inl WildPointer
                         else Inr (0, sb\<lparr>mem := take (pos sb) (mem sb) @ replicate (n - pos sb) nul\<rparr>)
                    else Inr (- 1, sb)
               else Inr (- 2, sb))
      else Inr (0, sb))"

text \<open>\<open>MyBuf::Write\<close>: the result is \<open>None\<close> where the code returns \<open>(size_t)-1\<close>.\<close>

definition buf_Write :: "(nat \<Rightarrow> bool) \<Rightarrow> bytes \<Rightarrow> sbuf \<Rightarrow> fault + nat option \<times> sbuf" where
  "buf_Write alloc s sb =
     (let len = length s; n = pos sb + len + 1;
          put = (\<lambda>b. Inr (Some len, b\<lparr>mem := splice (pos b) s (mem b), pos := pos b + len\<rparr>))
      in if n > cap sb
         then bindE (Reserve alloc n sb) (\<lambda>(r, b). if r \<noteq> 0 then Inr (None, b) else put b)
         else put sb)"

text \<open>\<open>MyBuf::Resize\<close> ignores what \<open>Reserve\<close> returns; the position may not pass the end.\<close>

definition Resize :: "(nat \<Rightarrow> bool) \<Rightarrow> nat \<Rightarrow> sbuf \<Rightarrow> fault + sbuf" where
  "Resize alloc new_size sb =
     bindE (if new_size < pos sb then Inr (sb\<lparr>mem := splice new_size (replicate (pos sb - new_size) nul) (mem sb)\<rparr>)
            else if new_size > cap sb then bindE (Reserve alloc new_size sb) (\<lambda>(r, b). Inr b)
            else Inr sb)
       (\<lambda>b. if new_size \<le> cap b then Inr (b\<lparr>pos := new_size\<rparr>) else Inl WildPointer)"

definition Consume :: "(nat \<Rightarrow> bool) \<Rightarrow> nat \<Rightarrow> sbuf \<Rightarrow> fault + sbuf" where
  "Consume alloc n sb =
     (if n > 0
      then if n \<le> pos sb
           then Resize alloc (pos sb - n) (sb\<lparr>mem := splice 0 (take (pos sb - n) (drop n (mem sb))) (mem sb)\<rparr>)
           else Inl WildPointer
      else Inr sb)"

definition Clear :: "sbuf \<Rightarrow> sbuf" where
  "Clear sb = \<lparr>mem = replicate (cap sb) nul, pos = 0\<rparr>"

text \<open>
  \<open>MyBuf::overflow\<close>, which the stream calls for one character when the position is at the
  end of the allocation (\<open>None\<close> is \<open>EOF\<close>), and the stream's \<open>sputc\<close> around it.
\<close>

definition overflow :: "(nat \<Rightarrow> bool) \<Rightarrow> char option \<Rightarrow> sbuf \<Rightarrow> fault + sbuf" where
  "overflow alloc c sb =
     (case c of
        None \<Rightarrow> Inr sb
      | Some ch \<Rightarrow> bindE (Reserve alloc (cap sb + 1) sb) (\<lambda>(r, b).
          if pos b < cap b then Inr (b\<lparr>mem := (mem b)[pos b := ch], pos := pos b + 1\<rparr>) else Inl WildPointer))"

definition sputc :: "(nat \<Rightarrow> bool) \<Rightarrow> char \<Rightarrow> sbuf \<Rightarrow> fault + sbuf" where
  "sputc alloc ch sb =
     (if pos sb < cap sb then Inr (sb\<lparr>mem := (mem sb)[pos sb := ch], pos := pos sb + 1\<rparr>)
      else overflow alloc (Some ch) sb)"

section \<open>The public methods\<close>

text \<open>\<open>strlen\<close> on the memory \<open>s\<close> points to; without a terminator it reads on.\<close>

definition strlen :: "bytes \<Rightarrow> fault + nat" where
  "strlen s = (if nul \<in> set s then Inr (length (takeWhile (\<lambda>c. c \<noteq> nul) s)) else Inl WildPointer)"

definition sb_Write :: "(nat \<Rightarrow> bool) \<Rightarrow> bytes \<Rightarrow> nat \<Rightarrow> sbuf \<Rightarrow> fault + sbuf" where
  "sb_Write alloc s n sb =
     bindE (if n = 0 then strlen s else Inr n) (\<lambda>k.
       if k \<le> length s then bindE (buf_Write alloc (take k s) sb) (\<lambda>(r, b). Inr b) else Inl WildPointer)"

definition sb_Write_char :: "(nat \<Rightarrow> bool) \<Rightarrow> char \<Rightarrow> sbuf \<Rightarrow> fault + sbuf" where
  "sb_Write_char alloc ch = sb_Write alloc [ch] 1"

text \<open>Stream insertion of a text: the library hands it to \<open>xsputn\<close>.\<close>

definition put_text :: "(nat \<Rightarrow> bool) \<Rightarrow> bytes \<Rightarrow> sbuf \<Rightarrow> fault + sbuf" where
  "put_text alloc s sb = bindE (buf_Write alloc s sb) (\<lambda>(r, b). Inr b)"

text \<open>
  \<open>vsnprintf\<close> with \<open>m\<close> bytes of room: what it stores, and what it returns. The whole
  output is \<open>out\<close>, or nothing at all on an encoding error.
\<close>

definition vsnprintf_store :: "nat \<Rightarrow> bytes option \<Rightarrow> sbuf \<Rightarrow> sbuf" where
  "vsnprintf_store m out sb =
     (case out of Some t \<Rightarrow> if m > 0 then sb\<lparr>mem := splice (pos sb) (take (m - 1) t @ [nul]) (mem sb)\<rparr> else sb
      | None \<Rightarrow> sb)"

fun vsnprintf_result :: "bytes option \<Rightarrow> int" where
  "vsnprintf_result (Some t) = int (length t)"
| "vsnprintf_result None = - 1"

text \<open>The loop of \<open>vprintf\<close>, which nothing in the code bounds: \<open>None\<close> is a loop that never ends.\<close>

partial_function (option) vprintf :: "(nat \<Rightarrow> bool) \<Rightarrow> bytes option \<Rightarrow> sbuf \<Rightarrow> (fault + int \<times> sbuf) option" where
  "vprintf alloc out sb =
     (let size = pos sb; m = cap sb - size;
          sb1 = vsnprintf_store m out sb; n = vsnprintf_result out
      in if n > - 1 \<and> n < int m then Some (Inr (n, sb1\<lparr>pos := size + nat n\<rparr>))
         else let m' = (if n > - 1 then nat n + 1 else 2 * m)
              in if size + m' + 1 > cap sb1
                 then (case Reserve alloc (size + m' + 1) sb1 of
                         Inl e \<Rightarrow> Some (Inl e)
                       | Inr (r, sb2) \<Rightarrow> if r \<noteq> 0 then Some (Inr (- 1, sb2)) else vprintf alloc out sb2)
                 else vprintf alloc out sb1)"

definition Printf :: "(nat \<Rightarrow> bool) \<Rightarrow> bytes option \<Rightarrow> sbuf \<Rightarrow> (fault + int \<times> sbuf) option" where
  "Printf = vprintf"

text \<open>
  \<open>read\<close> and \<open>Load\<close>: the file is what \<open>fopen\<close> finds, its bytes what \<open>fread\<close> delivers.
  \<open>read\<close> does not look at what \<open>Reserve\<close> returns.
\<close>

definition sb_read :: "(nat \<Rightarrow> bool) \<Rightarrow> bytes \<Rightarrow> nat \<Rightarrow> sbuf \<Rightarrow> fault + bool \<times> sbuf" where
  "sb_read alloc file n sb =
     bindE (Reserve alloc (pos sb + n) sb) (\<lambda>(r, b).
       let got = take n file
       in if pos b + length got \<le> cap b
          then let b1 = b\<lparr>mem := splice (pos b) got (mem b)\<rparr>
               in if length got = n then bindE (Resize alloc (pos b1 + n) b1) (\<lambda>b2. Inr (True, b2))
                  else Inr (False, b1)
          else Inl WildPointer)"

definition Load :: "(nat \<Rightarrow> bool) \<Rightarrow> bytes option \<Rightarrow> sbuf \<Rightarrow> fault + bool \<times> sbuf" where
  "Load alloc file sb =
     (case file of None \<Rightarrow> Inr (False, sb) | Some f \<Rightarrow> sb_read alloc f (length f) (Clear sb))"

text \<open>
  \<open>Save\<close>: whether \<open>fopen\<close> succeeds and how many bytes \<open>fwrite\<close> takes are arguments; the
  second result is what is then in the file.
\<close>

definition Save :: "bool \<Rightarrow> nat \<Rightarrow> sbuf \<Rightarrow> bool \<times> bytes option" where
  "Save opened written sb =
     (if opened
      then if written \<noteq> pos sb then (False, Some (take written (take (pos sb) (mem sb))))
           else (True, Some (take (pos sb) (mem sb)))
      else (False, None))"

definition put_sbuf :: "(nat \<Rightarrow> bool) \<Rightarrow> sbuf \<Rightarrow> sbuf \<Rightarrow> fault + sbuf" where
  "put_sbuf alloc src = put_text alloc (take (pos src) (mem src))"

definition sb_equal :: "bytes option \<Rightarrow> sbuf \<Rightarrow> bool" where
  "sb_equal s sb = (case s of None \<Rightarrow> False | Some t \<Rightarrow> pos sb = length t \<and> take (pos sb) (mem sb) = t)"

definition sb_index :: "int \<Rightarrow> sbuf \<Rightarrow> fault + char" where
  "sb_index n sb =
     (let i = (if n < 0 then n + int (pos sb) else n)
      in if 0 \<le> i \<and> i < int (cap sb) then Inr (mem sb ! nat i) else Inl WildPointer)"

definition sb_Reserve :: "(nat \<Rightarrow> bool) \<Rightarrow> nat \<Rightarrow> sbuf \<Rightarrow> fault + bool \<times> sbuf" where
  "sb_Reserve alloc n sb =
     (if cap sb - pos sb < n
      then bindE (Reserve alloc (pos sb + n) sb) (\<lambda>(r, b). Inr (r = 0, b))
      else Inr (True, sb))"

definition appended :: "nat \<Rightarrow> sbuf \<Rightarrow> fault + sbuf" where
  "appended n sb = (if pos sb + n \<le> cap sb then Inr (sb\<lparr>pos := pos sb + n\<rparr>) else Inl WildPointer)"

definition ends_with :: "bytes \<Rightarrow> nat \<Rightarrow> sbuf \<Rightarrow> fault + bool" where
  "ends_with s len sb =
     bindE (if len = 0 then strlen s else Inr len) (\<lambda>k.
       if pos sb < k then Inr False
       else if k \<le> length s then Inr (take k (drop (pos sb - k) (mem sb)) = take k s) else Inl WildPointer)"

section \<open>Lemmas\<close>

text \<open>
  The invariant: the position is inside the allocation, the allocation is a whole number of
  512-byte units up to the limit, and the bytes from the position on are zero, so the data is
  a C string wherever there is a byte left for its terminator.
\<close>

definition sbuf_wf :: "sbuf \<Rightarrow> bool" where
  "sbuf_wf sb \<longleftrightarrow> pos sb \<le> cap sb \<and> cap sb \<le> MAX_SIZE \<and> MIN_SIZE dvd cap sb
     \<and> drop (pos sb) (mem sb) = replicate (cap sb - pos sb) nul"

lemma sbuf_wf_mem:
  assumes "sbuf_wf sb"
  shows "mem sb = content sb @ replicate (cap sb - pos sb) nul" "length (content sb) = pos sb"
proof -
  show "mem sb = content sb @ replicate (cap sb - pos sb) nul"
    using assms unfolding content_def sbuf_wf_def by (metis append_take_drop_id)
  show "length (content sb) = pos sb" using assms by (simp add: content_def sbuf_wf_def)
qed

lemma content_make: "content \<lparr>mem = xs @ ys, pos = length xs\<rparr> = xs"
  by (simp add: content_def)

lemma sbuf_wf_make:
  assumes "length xs + k \<le> MAX_SIZE" "MIN_SIZE dvd length xs + k"
  shows "sbuf_wf \<lparr>mem = xs @ replicate k nul, pos = length xs\<rparr>"
  using assms by (simp add: sbuf_wf_def)

lemma sbuf_wf_empty: "sbuf_wf empty_sbuf" "content empty_sbuf = []"
  by (simp_all add: sbuf_wf_def empty_sbuf_def content_def)

lemma sbuf_wf_Clear: "sbuf_wf sb \<Longrightarrow> sbuf_wf (Clear sb)" "content (Clear sb) = []"
  by (simp_all add: sbuf_wf_def Clear_def content_def)

text \<open>The rounding, for a request that does not wrap around.\<close>

definition rounded :: "nat \<Rightarrow> nat" where
  "rounded n = (n + (MIN_SIZE - 1)) div MIN_SIZE * MIN_SIZE"

lemma rounded_bounds: "n \<le> rounded n" "rounded n < n + MIN_SIZE" "MIN_SIZE dvd rounded n"
proof -
  have "(n + 511) mod 512 + 512 * ((n + 511) div 512) = n + 511" by (rule mod_mult_div_eq)
  moreover have "(n + 511) mod 512 < 512" by simp
  ultimately show "n \<le> rounded n" "rounded n < n + MIN_SIZE" by (simp_all add: rounded_def MIN_SIZE_def)
  show "MIN_SIZE dvd rounded n" by (simp add: rounded_def)
qed

lemma Reserve_alt:
  assumes "n + MIN_SIZE \<le> size_t"
  shows "Reserve alloc n sb =
     (if cap sb < n
      then if rounded n \<le> MAX_SIZE
           then if alloc (rounded n)
                then if rounded n < pos sb then Inl WildPointer
                     else Inr (0, sb\<lparr>mem := take (pos sb) (mem sb) @ replicate (rounded n - pos sb) nul\<rparr>)
                else Inr (- 1, sb)
           else Inr (- 2, sb)
      else Inr (0, sb))"
proof -
  have "n + (MIN_SIZE - 1) < size_t" using assms by (simp add: MIN_SIZE_def)
  then have "(n + (MIN_SIZE - 1)) mod size_t div MIN_SIZE * MIN_SIZE = rounded n" by (simp add: rounded_def)
  moreover have "cap sb < n \<Longrightarrow> rounded n \<noteq> 0" using rounded_bounds(1) [of n] by simp
  ultimately show ?thesis by (auto simp: Reserve_def Let_def)
qed

lemma Reserve_grow:
  assumes "pos sb \<le> cap sb" "cap sb < n" "n + MIN_SIZE \<le> size_t"
  shows "\<exists>k b. Reserve alloc n sb = Inr (k, b)
    \<and> (k = 0 \<longrightarrow> sbuf_wf b \<and> content b = content sb \<and> pos b = pos sb \<and> n \<le> cap b) \<and> (k \<noteq> 0 \<longrightarrow> b = sb)
    \<and> (k = 0 \<longleftrightarrow> rounded n \<le> MAX_SIZE \<and> alloc (rounded n))"
proof (cases "rounded n \<le> MAX_SIZE \<and> alloc (rounded n)")
  case True
  have len: "length (content sb) = pos sb" using assms(1) by (simp add: content_def)
  have n: "pos sb \<le> rounded n" "n \<le> rounded n" using rounded_bounds(1) [of n] assms(1,2) by simp_all
  let ?b = "sb\<lparr>mem := content sb @ replicate (rounded n - pos sb) nul\<rparr>"
  have r: "Reserve alloc n sb = Inr (0, ?b)"
    using True n assms(2) by (simp add: Reserve_alt [OF assms(3)] content_def)
  have b: "?b = \<lparr>mem = content sb @ replicate (rounded n - pos sb) nul, pos = length (content sb)\<rparr>"
    using len by (cases sb) simp
  have "sbuf_wf ?b" unfolding b by (rule sbuf_wf_make) (use len n True rounded_bounds(3) [of n] in simp_all)
  moreover have "content ?b = content sb" unfolding b by (rule content_make)
  ultimately show ?thesis using r n len True by auto
next
  case False
  with assms(2) show ?thesis by (auto simp: Reserve_alt [OF assms(3)])
qed

lemma Reserve_wf:
  assumes "sbuf_wf sb" "n + MIN_SIZE \<le> size_t"
  shows "\<exists>k b. Reserve alloc n sb = Inr (k, b) \<and> sbuf_wf b \<and> content b = content sb \<and> pos b = pos sb \<and> cap sb \<le> cap b
    \<and> (k = 0 \<and> n \<le> cap b \<or> k \<noteq> 0 \<and> b = sb)
    \<and> (k = 0 \<longleftrightarrow> n \<le> cap sb \<or> rounded n \<le> MAX_SIZE \<and> alloc (rounded n))"
proof (cases "cap sb < n")
  case True
  have "pos sb \<le> cap sb" using assms(1) by (simp add: sbuf_wf_def)
  from Reserve_grow [OF this True assms(2), of alloc] assms(1) True show ?thesis by auto
next
  case False
  with assms show ?thesis by (simp add: Reserve_def)
qed

lemma splice_content:
  assumes "mem sb = content sb @ replicate k nul" "length (content sb) = pos sb" "length s \<le> k"
  shows "splice (pos sb) s (mem sb) = (content sb @ s) @ replicate (k - length s) nul"
proof -
  have "splice (pos sb) s (content sb @ replicate k nul) = (content sb @ s) @ replicate (k - length s) nul"
    using assms(2,3) by (simp add: splice_def drop_replicate)
  then show ?thesis using assms(1) by simp
qed

text \<open>Room for one more text of that length, with its terminator.\<close>

definition fits :: "(nat \<Rightarrow> bool) \<Rightarrow> nat \<Rightarrow> sbuf \<Rightarrow> bool" where
  "fits alloc len sb \<longleftrightarrow> pos sb + len + 1 \<le> cap sb
     \<or> rounded (pos sb + len + 1) \<le> MAX_SIZE \<and> alloc (rounded (pos sb + len + 1))"

lemma put_wf:
  assumes "sbuf_wf sb" "pos sb + length s + 1 \<le> cap sb"
  shows "sbuf_wf (sb\<lparr>mem := splice (pos sb) s (mem sb), pos := pos sb + length s\<rparr>)"
    "content (sb\<lparr>mem := splice (pos sb) s (mem sb), pos := pos sb + length s\<rparr>) = content sb @ s"
    "pos sb + length s < length (splice (pos sb) s (mem sb))"
proof -
  note wf = sbuf_wf_mem [OF assms(1)]
  let ?k = "cap sb - pos sb"
  have sp: "splice (pos sb) s (mem sb) = (content sb @ s) @ replicate (?k - length s) nul"
    using splice_content [OF wf] assms(2) by simp
  have b: "sb\<lparr>mem := splice (pos sb) s (mem sb), pos := pos sb + length s\<rparr>
      = \<lparr>mem = (content sb @ s) @ replicate (?k - length s) nul, pos = length (content sb @ s)\<rparr>"
    using sp wf(2) by (cases sb) simp
  have total: "length (content sb @ s) + (?k - length s) = cap sb" using wf(2) assms(2) by simp
  have "cap sb \<le> MAX_SIZE" "MIN_SIZE dvd cap sb" using assms(1) by (simp_all add: sbuf_wf_def)
  then show "sbuf_wf (sb\<lparr>mem := splice (pos sb) s (mem sb), pos := pos sb + length s\<rparr>)"
    unfolding b using total by (intro sbuf_wf_make) simp_all
  show "content (sb\<lparr>mem := splice (pos sb) s (mem sb), pos := pos sb + length s\<rparr>) = content sb @ s"
    unfolding b by (rule content_make)
  show "pos sb + length s < length (splice (pos sb) s (mem sb))"
    unfolding sp using wf(2) assms(2) by simp
qed

lemma buf_Write_spec:
  assumes "sbuf_wf sb" "pos sb + length s + 1 + MIN_SIZE \<le> size_t"
  shows "\<exists>b. buf_Write alloc s sb = Inr (if fits alloc (length s) sb then Some (length s) else None, b) \<and> sbuf_wf b
    \<and> content b = (if fits alloc (length s) sb then content sb @ s else content sb)
    \<and> (fits alloc (length s) sb \<longrightarrow> pos b < cap b)"
proof (cases "pos sb + length s + 1 \<le> cap sb")
  case True
  with put_wf [OF assms(1) True] show ?thesis by (simp add: buf_Write_def Let_def fits_def)
next
  case False
  obtain k b where r: "Reserve alloc (pos sb + length s + 1) sb = Inr (k, b)" "sbuf_wf b" "content b = content sb"
    "pos b = pos sb" "k = 0 \<and> pos sb + length s + 1 \<le> cap b \<or> k \<noteq> 0 \<and> b = sb"
    "(k = 0) = fits alloc (length s) sb"
    using Reserve_wf [OF assms(1), of "pos sb + length s + 1" alloc] assms(2) by (auto simp: fits_def)
  show ?thesis
  proof (cases "k = 0")
    case True
    with r(5) have "pos b + length s + 1 \<le> cap b" using r(4) by simp
    from put_wf [OF r(2) this] r(1,3,4,6) True False show ?thesis
      by (simp add: buf_Write_def Let_def)
  next
    case False2: False
    with r \<open>\<not> pos sb + length s + 1 \<le> cap sb\<close> show ?thesis by (simp add: buf_Write_def Let_def)
  qed
qed

lemma Resize_shrink:
  assumes "sbuf_wf sb" "n \<le> pos sb"
  shows "\<exists>b. Resize alloc n sb = Inr b \<and> sbuf_wf b \<and> content b = take n (content sb)"
proof -
  note wf = sbuf_wf_mem [OF assms(1)]
  have p: "pos sb \<le> cap sb" "cap sb \<le> MAX_SIZE" "MIN_SIZE dvd cap sb" using assms(1) by (simp_all add: sbuf_wf_def)
  let ?xs = "take n (content sb)"
  have sp: "splice n (replicate (pos sb - n) nul) (mem sb) = ?xs @ replicate (cap sb - n) nul"
  proof -
    have "drop (pos sb) (mem sb) = replicate (cap sb - pos sb) nul" using assms(1) by (simp add: sbuf_wf_def)
    moreover have "take n (mem sb) = ?xs" using assms(2) by (simp add: content_def)
    ultimately show ?thesis using assms(2) p
      by (simp add: splice_def replicate_add [symmetric])
  qed
  have r: "Resize alloc n sb = Inr \<lparr>mem = ?xs @ replicate (cap sb - n) nul, pos = length ?xs\<rparr>"
  proof (cases "n < pos sb")
    case True
    with sp p wf(2) show ?thesis by (cases sb) (simp add: Resize_def)
  next
    case False
    with assms(2) have "n = pos sb" by simp
    with wf p show ?thesis by (cases sb) (simp add: Resize_def)
  qed
  have len: "length ?xs + (cap sb - n) = cap sb" using wf(2) assms(2) p(1) by simp
  with sbuf_wf_make [of ?xs "cap sb - n"] content_make [of ?xs] r p(2,3) show ?thesis by simp
qed

lemma Consume_spec:
  assumes "sbuf_wf sb" "n \<le> pos sb"
  shows "\<exists>b. Consume alloc n sb = Inr b \<and> content b = drop n (content sb)"
proof (cases "n = 0")
  case True
  then show ?thesis by (simp add: Consume_def)
next
  case False
  note wf = sbuf_wf_mem [OF assms(1)]
  let ?m = "splice 0 (take (pos sb - n) (drop n (mem sb))) (mem sb)" and ?k = "pos sb - n"
  have p: "pos sb \<le> cap sb" using assms(1) by (simp add: sbuf_wf_def)
  have t: "take ?k (drop n (mem sb)) = drop n (content sb)" by (simp add: content_def drop_take)
  have len: "length (drop n (content sb)) = ?k" using wf(2) by simp
  have lm: "length ?m = cap sb" using p len t by (simp add: splice_def)
  have "take ?k (splice ?k (replicate (pos sb - ?k) nul) ?m) = take ?k ?m" using lm p by (simp add: splice_def)
  also have "\<dots> = drop n (content sb)" unfolding splice_def t using len by simp
  finally have c: "take ?k (splice ?k (replicate (pos sb - ?k) nul) ?m) = drop n (content sb)" .
  have l2: "length (splice ?k (replicate (pos sb - ?k) nul) ?m) = cap sb" using lm p assms(2) by (simp add: splice_def)
  show ?thesis using False assms(2) c l2 p by (simp add: Consume_def Resize_def content_def)
qed

lemma store_short:
  assumes "sbuf_wf sb" "length t < cap sb - pos sb"
  shows "(vsnprintf_store (cap sb - pos sb) (Some t) sb)\<lparr>pos := pos sb + length t\<rparr>
    = sb\<lparr>mem := splice (pos sb) t (mem sb), pos := pos sb + length t\<rparr>"
proof -
  note wf = sbuf_wf_mem [OF assms(1)]
  have "splice (pos sb) (t @ [nul]) (mem sb) = (content sb @ (t @ [nul])) @ replicate (cap sb - pos sb - length (t @ [nul])) nul"
    by (rule splice_content [OF wf]) (use assms(2) in simp)
  also have "\<dots> = (content sb @ t) @ replicate (cap sb - pos sb - length t) nul"
    using assms(2) by (simp add: replicate_Suc [symmetric] Suc_diff_Suc del: replicate_Suc)
  also have "\<dots> = splice (pos sb) t (mem sb)"
    by (rule splice_content [OF wf, symmetric]) (use assms(2) in simp)
  finally have "splice (pos sb) (t @ [nul]) (mem sb) = splice (pos sb) t (mem sb)" .
  then show ?thesis using assms(2) by (simp add: vsnprintf_store_def)
qed

lemma store_keeps:
  assumes "pos sb \<le> cap sb"
  shows "cap (vsnprintf_store (cap sb - pos sb) out sb) = cap sb"
    "pos (vsnprintf_store (cap sb - pos sb) out sb) = pos sb"
    "content (vsnprintf_store (cap sb - pos sb) out sb) = content sb"
  using assms by (auto simp: vsnprintf_store_def content_def splice_def split: option.split)

lemma vprintf_fits:
  assumes "sbuf_wf sb" "length t < cap sb - pos sb"
  shows "\<exists>b. vprintf alloc (Some t) sb = Some (Inr (int (length t), b)) \<and> sbuf_wf b \<and> content b = content sb @ t
    \<and> pos b < cap b"
proof -
  have "vprintf alloc (Some t) sb
      = Some (Inr (int (length t), (vsnprintf_store (cap sb - pos sb) (Some t) sb)\<lparr>pos := pos sb + length t\<rparr>))"
    using assms(2) by (subst vprintf.simps) (simp add: Let_def)
  moreover have "pos sb + length t + 1 \<le> cap sb" using assms(2) by simp
  from put_wf [OF assms(1) this] have "sbuf_wf (sb\<lparr>mem := splice (pos sb) t (mem sb), pos := pos sb + length t\<rparr>)"
    "content (sb\<lparr>mem := splice (pos sb) t (mem sb), pos := pos sb + length t\<rparr>) = content sb @ t"
    "pos sb + length t < length (splice (pos sb) t (mem sb))" .
  ultimately show ?thesis unfolding store_short [OF assms] by simp
qed

lemma vprintf_text:
  assumes "sbuf_wf sb" "length t < 2 ^ 31"
  shows "\<exists>r b. vprintf alloc (Some t) sb = Some (Inr (r, b))
    \<and> (r = int (length t) \<and> sbuf_wf b \<and> content b = content sb @ t \<and> pos b < cap b
       \<or> r = - 1 \<and> content b = content sb)"
proof (cases "length t < cap sb - pos sb")
  case True
  from vprintf_fits [OF assms(1) True, of alloc] show ?thesis by blast
next
  case False
  have p: "pos sb \<le> cap sb" "cap sb \<le> MAX_SIZE" using assms(1) by (simp_all add: sbuf_wf_def)
  let ?s = "vsnprintf_store (cap sb - pos sb) (Some t) sb" and ?n = "pos sb + (length t + 1) + 1"
  note k = store_keeps [OF p(1), of "Some t"]
  have n: "?n + MIN_SIZE \<le> size_t" using p assms(2) by (simp add: MIN_SIZE_def MAX_SIZE_def size_t_def)
  have g: "cap ?s < ?n" using False k(1) by simp
  have ps: "pos ?s \<le> cap ?s" using k p by simp
  obtain q b where r: "Reserve alloc ?n ?s = Inr (q, b)" "q = 0 \<longrightarrow> sbuf_wf b \<and> content b = content ?s \<and> pos b = pos ?s \<and> ?n \<le> cap b"
    "q \<noteq> 0 \<longrightarrow> b = ?s" using Reserve_grow [OF ps g n] by blast
  have step: "vprintf alloc (Some t) sb = (if q \<noteq> 0 then Some (Inr (- 1, b)) else vprintf alloc (Some t) b)"
    using False g r(1) k by (subst vprintf.simps) (simp add: Let_def)
  show ?thesis
  proof (cases "q = 0")
    case True
    with r(2) k have b: "sbuf_wf b" "content b = content sb" "length t < cap b - pos b" by auto
    from vprintf_fits [OF b(1,3), of alloc] b(2) step True show ?thesis by auto
  next
    case False
    with step r(3) k show ?thesis by simp
  qed
qed

lemma vprintf_error:
  assumes "sbuf_wf sb"
  shows "\<exists>b. vprintf alloc None sb = Some (Inr (- 1, b)) \<and> content b = content sb"
  using assms
proof (induction "MAX_SIZE - cap sb" arbitrary: sb rule: less_induct)
  case less
  have p: "pos sb \<le> cap sb" "cap sb \<le> MAX_SIZE" using less.prems by (simp_all add: sbuf_wf_def)
  let ?n = "pos sb + 2 * (cap sb - pos sb) + 1"
  have s: "vsnprintf_store m None sb = sb" for m by (simp add: vsnprintf_store_def)
  have n: "?n + MIN_SIZE \<le> size_t" using p by (simp add: MIN_SIZE_def MAX_SIZE_def size_t_def)
  have g: "cap sb < ?n" using p by simp
  obtain q b where r: "Reserve alloc ?n sb = Inr (q, b)" "q = 0 \<longrightarrow> sbuf_wf b \<and> content b = content sb \<and> ?n \<le> cap b"
    "q \<noteq> 0 \<longrightarrow> b = sb" using Reserve_grow [OF p(1) g n] by blast
  have step: "vprintf alloc None sb = (if q \<noteq> 0 then Some (Inr (- 1, b)) else vprintf alloc None b)"
    using g r(1) by (subst vprintf.simps) (simp add: Let_def s)
  show ?case
  proof (cases "q = 0")
    case True
    with r(2) have b: "sbuf_wf b" "content b = content sb" "?n \<le> cap b" by auto
    have "cap b \<le> MAX_SIZE" using b(1) by (simp add: sbuf_wf_def)
    then have "MAX_SIZE - cap b < MAX_SIZE - cap sb" using g b(3) by simp
    from less.hyps [OF this b(1)] step True b(2) show ?thesis by simp
  next
    case False
    with step r(3) show ?thesis by simp
  qed
qed

section \<open>Appending texts\<close>

text \<open>
  What the code that renders into a buffer relies on: below a limit, putting a text appends
  it, and clearing empties the buffer.
\<close>

locale text_sink =
  fixes ok :: "'b \<Rightarrow> bool"
    and cont :: "'b \<Rightarrow> bytes"
    and put :: "bytes \<Rightarrow> 'b \<Rightarrow> fault + 'b"
    and clr :: "'b \<Rightarrow> 'b"
    and limit :: nat
  assumes put_law: "ok b \<Longrightarrow> length (cont b) + length s < limit \<Longrightarrow> \<exists>b'. put s b = Inr b' \<and> ok b' \<and> cont b' = cont b @ s"
    and clr_law: "ok b \<Longrightarrow> ok (clr b) \<and> cont (clr b) = []"
begin

fun puts :: "bytes list \<Rightarrow> 'b \<Rightarrow> fault + 'b" where
  "puts [] b = Inr b"
| "puts (s # ss) b = bindE (put s b) (puts ss)"

lemma puts_concat:
  assumes "ok b" "length (cont b) + length (concat ss) < limit"
  shows "\<exists>b'. puts ss b = Inr b' \<and> ok b' \<and> cont b' = cont b @ concat ss"
  using assms
proof (induction ss arbitrary: b)
  case Nil
  then show ?case by simp
next
  case (Cons s ss)
  have "length (cont b) + length s < limit" using Cons.prems(2) by simp
  from put_law [OF Cons.prems(1) this] obtain b1 where b1: "put s b = Inr b1" "ok b1" "cont b1 = cont b @ s" by blast
  have "length (cont b1) + length (concat ss) < limit" using Cons.prems(2) b1(3) by simp
  from Cons.IH [OF b1(2) this] b1 show ?case by auto
qed

lemma puts_append: "puts (ss @ ts) b = bindE (puts ss b) (puts ts)"
proof (induction ss arbitrary: b)
  case (Cons s ss)
  then have "puts (ss @ ts) = (\<lambda>b. bindE (puts ss b) (puts ts))" by (simp add: fun_eq_iff)
  then show ?case by (simp add: bindE_assoc)
qed simp

end

definition sink_ok :: "(nat \<Rightarrow> bool) \<Rightarrow> sbuf \<Rightarrow> bool" where
  "sink_ok alloc sb \<longleftrightarrow> sbuf_wf sb \<and> (\<forall>n \<le> MAX_SIZE. alloc n)"

lemma fits_below: "sink_ok alloc sb \<Longrightarrow> pos sb + len < MAX_SIZE \<Longrightarrow> fits alloc len sb"
proof -
  assume ok: "sink_ok alloc sb" and len: "pos sb + len < MAX_SIZE"
  have "rounded (pos sb + len + 1) < pos sb + len + 1 + MIN_SIZE" by (rule rounded_bounds(2))
  moreover have "MIN_SIZE dvd rounded (pos sb + len + 1)" by (rule rounded_bounds(3))
  moreover have "MIN_SIZE dvd MAX_SIZE" by (simp add: MIN_SIZE_def MAX_SIZE_def)
  ultimately have "rounded (pos sb + len + 1) \<le> MAX_SIZE"
    using len by (auto simp: dvd_def MIN_SIZE_def MAX_SIZE_def)
  with ok show ?thesis by (simp add: fits_def sink_ok_def)
qed

lemma put_text_law:
  assumes "sink_ok alloc sb" "length (content sb) + length s < MAX_SIZE"
  shows "\<exists>b. put_text alloc s sb = Inr b \<and> sink_ok alloc b \<and> content b = content sb @ s"
proof -
  have wf: "sbuf_wf sb" using assms(1) by (simp add: sink_ok_def)
  have len: "pos sb + length s < MAX_SIZE" using assms(2) sbuf_wf_mem(2) [OF wf] by simp
  then have "pos sb + length s + 1 + MIN_SIZE \<le> size_t" by (simp add: MIN_SIZE_def MAX_SIZE_def size_t_def)
  from buf_Write_spec [OF wf this, of alloc] fits_below [OF assms(1) len] assms(1) show ?thesis
    by (auto simp: put_text_def sink_ok_def)
qed

interpretation sink: text_sink "sink_ok alloc" content "put_text alloc" Clear MAX_SIZE for alloc
proof unfold_locales
  fix b s
  assume "sink_ok alloc b"
  then show "sink_ok alloc (Clear b) \<and> content (Clear b) = []" by (simp add: sink_ok_def sbuf_wf_Clear)
qed (rule put_text_law)

lemma terminated: "sbuf_wf sb \<Longrightarrow> pos sb < cap sb \<Longrightarrow> mem sb ! pos sb = nul"
proof -
  assume wf: "sbuf_wf sb" and p: "pos sb < cap sb"
  have "mem sb ! pos sb = drop (pos sb) (mem sb) ! 0" using p by simp
  also have "\<dots> = nul" using wf p by (simp add: sbuf_wf_def del: drop_eq_Nil)
  finally show ?thesis .
qed

lemma sputc_room:
  assumes "sbuf_wf sb" "pos sb < cap sb"
  shows "\<exists>b. sputc alloc ch sb = Inr b \<and> sbuf_wf b \<and> content b = content sb @ [ch]"
proof -
  let ?b = "sb\<lparr>mem := (mem sb)[pos sb := ch], pos := pos sb + 1\<rparr>"
  note wf = sbuf_wf_mem [OF assms(1)]
  let ?k = "cap sb - pos sb - 1"
  have "replicate (cap sb - pos sb) nul = nul # replicate ?k nul"
    using assms(2) by (simp add: replicate_Suc [symmetric] del: replicate_Suc)
  then have "mem sb = content sb @ nul # replicate ?k nul" using wf(1) by simp
  then have "(mem sb)[pos sb := ch] = (content sb @ [ch]) @ replicate ?k nul"
    using wf(2) by (metis append.assoc append_Cons append_Nil list_update_length)
  then have b: "?b = \<lparr>mem = (content sb @ [ch]) @ replicate ?k nul, pos = length (content sb @ [ch])\<rparr>"
    using wf(2) by (cases sb) simp
  have "length (content sb @ [ch]) + ?k = cap sb" using assms(2) wf(2) by simp
  then have "sbuf_wf ?b" unfolding b using assms by (intro sbuf_wf_make) (simp_all only: sbuf_wf_def)
  moreover have "content ?b = content sb @ [ch]" unfolding b by (rule content_make)
  ultimately show ?thesis using assms(2) by (simp add: sputc_def)
qed

lemma sputc_full:
  assumes "sbuf_wf sb" "pos sb = cap sb"
  shows "sputc alloc ch sb = Inl WildPointer \<and> \<not> fits alloc 0 sb
    \<or> (\<exists>b. sputc alloc ch sb = Inr b \<and> sbuf_wf b \<and> content b = content sb @ [ch])"
proof -
  have n: "cap sb + 1 + MIN_SIZE \<le> size_t"
    using assms(1) by (simp add: sbuf_wf_def MIN_SIZE_def MAX_SIZE_def size_t_def)
  obtain k b where r: "Reserve alloc (cap sb + 1) sb = Inr (k, b)"
    "k = 0 \<longrightarrow> sbuf_wf b \<and> content b = content sb \<and> pos b = pos sb \<and> cap sb + 1 \<le> cap b" "k \<noteq> 0 \<longrightarrow> b = sb"
    "(k = 0) = (rounded (cap sb + 1) \<le> MAX_SIZE \<and> alloc (rounded (cap sb + 1)))"
    using Reserve_grow [of sb "cap sb + 1" alloc, OF _ _ n] assms(2) by auto
  show ?thesis
  proof (cases "k = 0")
    case True
    with r(2) assms(2) have b: "sbuf_wf b" "pos b < cap b" "content b = content sb" by auto
    have "sputc alloc ch sb = sputc alloc ch b" using assms(2) r(1) b(2) by (simp add: sputc_def overflow_def)
    with sputc_room [OF b(1,2), of alloc ch] b(3) show ?thesis by auto
  next
    case False
    with r assms(2) show ?thesis by (auto simp: sputc_def overflow_def fits_def)
  qed
qed

section \<open>Properties\<close>

text \<open>
  C24: appending to a buffer is list append: after a write that the limit and the allocator
  admit the contents are the old ones followed by exactly the bytes written and a terminator
  follows them inside the allocation; a write they do not admit reports failure and changes
  nothing. The invariant on the capacity holds either way and no memory outside the allocation
  is touched.
\<close>

theorem write_appends:
  assumes "sbuf_wf sb" "pos sb + length s + 1 + MIN_SIZE \<le> size_t"
  shows "\<exists>b. buf_Write alloc s sb = Inr (if fits alloc (length s) sb then Some (length s) else None, b) \<and> sbuf_wf b
    \<and> (if fits alloc (length s) sb then content b = content sb @ s \<and> mem b ! pos b = nul else content b = content sb)"
  using buf_Write_spec [OF assms, of alloc] terminated by (cases "fits alloc (length s) sb") auto

theorem write_appends_witness:
  "\<exists>b. buf_Write (\<lambda>_. True) ''GET'' empty_sbuf = Inr (Some 3, b) \<and> content b = ''GET'' \<and> mem b ! pos b = nul"
proof -
  have "fits (\<lambda>_. True) 3 empty_sbuf"
    by (simp add: fits_def empty_sbuf_def rounded_def MIN_SIZE_def MAX_SIZE_def)
  then have f: "fits (\<lambda>_. True) (length ''GET'') empty_sbuf" by (simp add: eval_nat_numeral)
  have "pos empty_sbuf + length ''GET'' + 1 + MIN_SIZE \<le> size_t"
    by (simp add: empty_sbuf_def MIN_SIZE_def size_t_def)
  from write_appends [OF sbuf_wf_empty(1) this, of "\<lambda>_. True"] f show ?thesis
    by (auto simp: sbuf_wf_empty(2) eval_nat_numeral)
qed

text \<open>
  C25: the unbounded loop of \<open>vprintf\<close> always ends, also when formatting fails every time: it
  returns the length of the formatted text, which it has appended with a terminator, or
  \<open>- 1\<close> with the contents as they were.
\<close>

theorem printf_returns:
  assumes "sbuf_wf sb" "case out of Some t \<Rightarrow> length t < 2 ^ 31 | None \<Rightarrow> True"
  shows "\<exists>r b. Printf alloc out sb = Some (Inr (r, b))
    \<and> (case out of
         Some t \<Rightarrow> r = int (length t) \<and> sbuf_wf b \<and> content b = content sb @ t \<and> mem b ! pos b = nul
           \<or> r = - 1 \<and> content b = content sb
       | None \<Rightarrow> r = - 1 \<and> content b = content sb)"
proof (cases out)
  case None
  with vprintf_error [OF assms(1), of alloc] show ?thesis by (simp add: Printf_def)
next
  case (Some t)
  with assms(2) have "length t < 2 ^ 31" by simp
  from vprintf_text [OF assms(1) this, of alloc] Some terminated show ?thesis
    unfolding Printf_def by fastforce
qed

theorem printf_returns_witness:
  "\<exists>b. Printf (\<lambda>_. True) None empty_sbuf = Some (Inr (- 1, b)) \<and> content b = []"
  using printf_returns [OF sbuf_wf_empty(1), of None "\<lambda>_. True"] by (simp add: sbuf_wf_empty(2))

text \<open>
  A file that was saved is loaded back, whatever the buffer held, as long as the buffer can
  grow; otherwise \<open>fread\<close> writes past the end, because \<open>read\<close> does not ask whether it did.
\<close>

lemma sb_read_all:
  assumes "sbuf_wf b" "pos b + length f \<le> cap b"
  shows "\<exists>b'. Resize alloc (pos b + length f) (b\<lparr>mem := splice (pos b) f (mem b)\<rparr>) = Inr b'
    \<and> sbuf_wf b' \<and> content b' = content b @ f"
proof -
  note wf = sbuf_wf_mem [OF assms(1)]
  have sp: "splice (pos b) f (mem b) = (content b @ f) @ replicate (cap b - pos b - length f) nul"
    using splice_content [OF wf] assms(2) by simp
  have len: "length (splice (pos b) f (mem b)) = cap b" using sp wf assms(2) by simp
  let ?b = "\<lparr>mem = (content b @ f) @ replicate (cap b - pos b - length f) nul, pos = length (content b @ f)\<rparr>"
  have "Resize alloc (pos b + length f) (b\<lparr>mem := splice (pos b) f (mem b)\<rparr>) = Inr ?b"
    using sp len wf(2) assms(2) by (cases b) (simp add: Resize_def)
  moreover have "sbuf_wf ?b"
    by (rule sbuf_wf_make) (use assms wf(2) in \<open>simp_all add: sbuf_wf_def\<close>)
  moreover have "content ?b = content b @ f" by (rule content_make)
  ultimately show ?thesis by blast
qed

lemma Load_file:
  assumes "sbuf_wf d" "length f + MIN_SIZE \<le> size_t"
  shows "if length f \<le> cap d \<or> rounded (length f) \<le> MAX_SIZE \<and> alloc (rounded (length f))
    then \<exists>b. Load alloc (Some f) d = Inr (True, b) \<and> sbuf_wf b \<and> content b = f
    else Load alloc (Some f) d = Inl WildPointer"
proof -
  have wf: "sbuf_wf (Clear d)" "content (Clear d) = []" "pos (Clear d) = 0" "cap (Clear d) = cap d"
    using sbuf_wf_Clear [of d] assms(1) by (simp_all add: Clear_def)
  from Reserve_wf [OF wf(1) assms(2), of alloc] obtain k b where r:
    "Reserve alloc (length f) (Clear d) = Inr (k, b)" "sbuf_wf b" "content b = []" "pos b = 0"
    "k = 0 \<and> length f \<le> cap b \<or> k \<noteq> 0 \<and> b = Clear d"
    "k = 0 \<longleftrightarrow> length f \<le> cap d \<or> rounded (length f) \<le> MAX_SIZE \<and> alloc (rounded (length f))"
    unfolding wf by blast
  show ?thesis
  proof (cases "k = 0")
    case True
    with r(5) have l: "length f \<le> cap b" by blast
    with sb_read_all [OF r(2), of f alloc] r(3,4) obtain b' where
      "Resize alloc (length f) (b\<lparr>mem := splice 0 f (mem b)\<rparr>) = Inr b'" "sbuf_wf b'" "content b' = f" by auto
    with r l True wf(3) show ?thesis by (simp add: Load_def sb_read_def)
  next
    case False
    with r(5,6) have "b = Clear d" "\<not> length f \<le> cap d" by auto
    with r False wf(3,4) show ?thesis by (simp add: Load_def sb_read_def)
  qed
qed

theorem save_load_roundtrip:
  assumes "sbuf_wf sb" "sbuf_wf d" "alloc (rounded (pos sb))"
  shows "\<exists>f b. Save True (pos sb) sb = (True, f) \<and> Load alloc f d = Inr (True, b) \<and> content b = content sb"
proof -
  have p: "length (content sb) = pos sb" "pos sb \<le> cap sb" "cap sb \<le> MAX_SIZE" "MIN_SIZE dvd cap sb"
    using sbuf_wf_mem(2) [OF assms(1)] assms(1) by (simp_all add: sbuf_wf_def)
  have "rounded (pos sb) \<le> MAX_SIZE"
  proof (rule ccontr)
    assume "\<not> ?thesis"
    moreover from rounded_bounds(3) [of "pos sb"] obtain j where j: "rounded (pos sb) = MIN_SIZE * j" by (rule dvdE)
    ultimately have "524288 < j" by (simp add: MAX_SIZE_def MIN_SIZE_def)
    then have "512 * 524289 \<le> 512 * j" by simp
    with j have "MAX_SIZE + MIN_SIZE \<le> rounded (pos sb)" by (simp add: MAX_SIZE_def MIN_SIZE_def)
    with rounded_bounds(2) [of "pos sb"] p show False by simp
  qed
  moreover have "pos sb + MIN_SIZE \<le> size_t" using p(2,3) by (simp add: MAX_SIZE_def MIN_SIZE_def size_t_def)
  ultimately show ?thesis
    using Load_file [OF assms(2), of "content sb" alloc] assms(3) p(1)
    by (auto simp: Save_def content_def [symmetric] split: if_splits)
qed

text \<open>
  The operations that shorten a buffer do so exactly: \<open>Resize\<close> to a smaller size keeps a
  prefix and zeroes the rest, \<open>Consume\<close> drops a prefix, \<open>Clear\<close> leaves nothing; none of
  them can fail or touch memory outside the allocation.
\<close>

theorem shorten_exact:
  assumes "sbuf_wf sb" "n \<le> length (content sb)"
  shows "(\<exists>b. Resize alloc n sb = Inr b \<and> sbuf_wf b \<and> content b = take n (content sb))
    \<and> (\<exists>b. Consume alloc n sb = Inr b \<and> content b = drop n (content sb))
    \<and> sbuf_wf (Clear sb) \<and> content (Clear sb) = []"
  using Resize_shrink [OF assms(1)] Consume_spec [OF assms(1)] sbuf_wf_Clear [of sb] sbuf_wf_mem(2) [OF assms(1)] assms
  by simp

theorem shorten_exact_witness:
  "\<exists>b. Consume (\<lambda>_. True) 2 \<lparr>mem = ''abc'' @ replicate 509 nul, pos = length ''abc''\<rparr> = Inr b
    \<and> content b = ''c''"
proof -
  let ?b = "\<lparr>mem = ''abc'' @ replicate 509 nul, pos = length ''abc''\<rparr>"
  have wf: "sbuf_wf ?b" by (rule sbuf_wf_make) (simp_all add: MIN_SIZE_def MAX_SIZE_def)
  have c: "content ?b = ''abc''" by (rule content_make)
  have two: "2 \<le> length (content ?b)" unfolding c by simp
  have "drop 2 (content ?b) = ''c''" unfolding c by simp
  with shorten_exact [OF wf two, of "\<lambda>_. True"] show ?thesis by metis
qed

text \<open>
  Putting one character through the stream appends it, growing the buffer as needed; but
  \<open>overflow\<close> ignores a failed \<open>Reserve\<close>, so on a buffer that is full and cannot grow the
  character is stored past the end of the allocation.
\<close>

theorem sputc_appends_or_overruns:
  assumes "sbuf_wf sb"
  shows "if pos sb = cap sb \<and> \<not> fits alloc 0 sb then sputc alloc ch sb = Inl WildPointer
    else \<exists>b. sputc alloc ch sb = Inr b \<and> sbuf_wf b \<and> content b = content sb @ [ch]"
proof (cases "pos sb < cap sb")
  case True
  with sputc_room [OF assms] show ?thesis by simp
next
  case False
  with assms have full: "pos sb = cap sb" by (simp add: sbuf_wf_def)
  have n: "cap sb + 1 + MIN_SIZE \<le> size_t"
    using assms by (simp add: sbuf_wf_def MIN_SIZE_def MAX_SIZE_def size_t_def)
  have "\<not> fits alloc 0 sb \<Longrightarrow> sputc alloc ch sb = Inl WildPointer"
    using Reserve_alt [OF n, of alloc sb] full by (auto simp: sputc_def overflow_def fits_def)
  with sputc_full [OF assms full, of alloc ch] full show ?thesis
    by (auto simp: sputc_def overflow_def fits_def Reserve_alt [OF n])
qed

theorem sputc_appends_or_overruns_witness:
  "\<exists>b. sputc (\<lambda>_. True) CHR ''x'' empty_sbuf = Inr b \<and> content b = ''x''"
proof -
  have "fits (\<lambda>_. True) 0 empty_sbuf"
    by (simp add: fits_def empty_sbuf_def rounded_def MIN_SIZE_def MAX_SIZE_def)
  with sputc_appends_or_overruns [OF sbuf_wf_empty(1), of "\<lambda>_. True" "CHR ''x''"] show ?thesis
    by (auto simp: sbuf_wf_empty(2))
qed

end
