(* ===== verification/HttpMessages.thy ===== *)
theory HttpMessages
  imports StringBuffers Urls
begin

text \<open>
  HTTP messages and the HTTP server, \<open>src/http_message.cc\<close>, \<open>include/http_message.h\<close> and
  \<open>src/http_server.cc\<close>. The parser is the llhttp library: it is modelled by the callbacks it
  makes, in order, while it executes a chunk of input, and by the error it returns. Buffers
  are those of the string buffer theory, with \<open>alloc\<close> for the allocator; the status texts
  come from llhttp.
\<close>

section \<open>Responses\<close>

record Response =
  status_code :: int
  head_buf :: sbuf
  body_buf :: sbuf

text \<open>
  The server's responses have more members (\<open>class outgoing::Response\<close>); \<open>sent\<close> records what is in
  the buffers when they are handed to the client's \<open>Write\<close>, one list for each call. The code hands
  over pointers to them; \<open>unwritten_response_wiped\<close> has what libuv may find there later.
\<close>

record OutResponse = Response +
  start_line :: sbuf
  sent :: "bytes list list"

definition new_response :: Response where
  "new_response = \<lparr>status_code = 501, head_buf = empty_sbuf, body_buf = empty_sbuf\<rparr>"

definition new_out_response :: OutResponse where
  "new_out_response = \<lparr>status_code = 501, head_buf = empty_sbuf, body_buf = empty_sbuf, start_line = empty_sbuf, sent = []\<rparr>"

definition crlf :: bytes where
  "crlf = [CHR 0x0D, CHR 0x0A]"

fun insert_all :: "(nat \<Rightarrow> bool) \<Rightarrow> bytes list \<Rightarrow> sbuf \<Rightarrow> fault + sbuf" where
  "insert_all alloc [] sb = Inr sb"
| "insert_all alloc (s # ss) sb = bindE (put_text alloc s sb) (insert_all alloc ss)"

definition SetStatus :: "int \<Rightarrow> 'r Response_scheme \<Rightarrow> 'r Response_scheme" where
  "SetStatus status r = r\<lparr>status_code := status\<rparr>"

definition SetHeader :: "(nat \<Rightarrow> bool) \<Rightarrow> bytes \<Rightarrow> bytes \<Rightarrow> 'r Response_scheme \<Rightarrow> fault + 'r Response_scheme" where
  "SetHeader alloc name value r =
     bindE (insert_all alloc [name, '': '', value, crlf] (head_buf r)) (\<lambda>h. Inr (r\<lparr>head_buf := h\<rparr>))"

text \<open>\<open>Response::End\<close>; \<open>reason\<close> is \<open>llhttp_status_name\<close>.\<close>

definition End :: "(nat \<Rightarrow> bool) \<Rightarrow> (int \<Rightarrow> bytes) \<Rightarrow> int \<Rightarrow> OutResponse \<Rightarrow> fault + OutResponse" where
  "End alloc reason status r =
     (let r1 = (if status > 0 then r\<lparr>status_code := status\<rparr> else r);
          code = status_code r1
      in bindE (insert_all alloc [''HTTP/1.1 '', show_int code, '' '', reason code, crlf] (start_line r1)) (\<lambda>sl.
         bindE (insert_all alloc [''Connection: Keep-Alive'' @ crlf] (head_buf r1)) (\<lambda>h1.
         bindE (insert_all alloc [''Content-Length: '', show_nat (pos (body_buf r1)), crlf @ crlf] h1) (\<lambda>h2.
           Inr (r1\<lparr>start_line := sl, head_buf := h2,
             sent := sent r1 @ [[content sl, content h2, content (body_buf r1)]]\<rparr>)))))"

definition Response_Reset :: "OutResponse \<Rightarrow> OutResponse" where
  "Response_Reset r = r\<lparr>status_code := 501, start_line := Clear (start_line r), head_buf := Clear (head_buf r),
     body_buf := Clear (body_buf r)\<rparr>"

section \<open>Incoming messages\<close>

record Header =
  hdr_key :: bytes
  hdr_value :: bytes

record Message =
  header_field :: bool
  parse_error :: nat
  complete :: bool
  headers :: "Header list"
  req_body :: sbuf

text \<open>A request is a message with more members (\<open>class Request : public Message\<close>).\<close>

record Request = Message +
  url_string :: bytes
  req_url :: Url
  response :: OutResponse
  served :: "(bytes \<times> Url \<times> Header list \<times> bytes) list"

text \<open>
  \<open>served\<close> is a history: the URL text, the URL, the headers and the body of every request as
  the request handler was called with it.
\<close>

datatype parser_event =
    OnUrl bytes
  | OnHeaderField bytes
  | OnHeaderValue bytes
  | OnHeadersComplete
  | OnBody bytes
  | OnMessageComplete

definition ParserOnUrl :: "bytes \<Rightarrow> Request \<Rightarrow> Request" where
  "ParserOnUrl s q = (if s \<noteq> [] then q\<lparr>url_string := url_string q @ s\<rparr> else q)"

text \<open>\<open>headers_.back ()\<close> of an empty vector is a fault.\<close>

definition back_update :: "(Header \<Rightarrow> Header) \<Rightarrow> Header list \<Rightarrow> fault + Header list" where
  "back_update f hs = (if hs = [] then Inl WildPointer else Inr (butlast hs @ [f (last hs)]))"

definition ParserOnHeaderField :: "bytes \<Rightarrow> 'm Message_scheme \<Rightarrow> fault + 'm Message_scheme" where
  "ParserOnHeaderField s q =
     (if s \<noteq> []
      then if header_field q
           then bindE (back_update (\<lambda>h. h\<lparr>hdr_key := hdr_key h @ s\<rparr>) (headers q)) (\<lambda>hs. Inr (q\<lparr>headers := hs\<rparr>))
           else Inr (q\<lparr>headers := headers q @ [\<lparr>hdr_key = s, hdr_value = []\<rparr>], header_field := True\<rparr>)
      else Inr q)"

definition ParserOnHeaderValue :: "bytes \<Rightarrow> 'm Message_scheme \<Rightarrow> fault + 'm Message_scheme" where
  "ParserOnHeaderValue s q =
     (if s \<noteq> []
      then bindE (back_update (\<lambda>h. h\<lparr>hdr_value := hdr_value h @ s\<rparr>) (headers q))
             (\<lambda>hs. Inr (q\<lparr>headers := hs, header_field := False\<rparr>))
      else Inr q)"

definition ParserOnHeadersComplete :: "Request \<Rightarrow> Request" where
  "ParserOnHeadersComplete q = q\<lparr>req_url := ParseUrl (takeWhile (\<lambda>c. c \<noteq> nul) (url_string q))\<rparr>"

definition ParserOnBody :: "(nat \<Rightarrow> bool) \<Rightarrow> bytes \<Rightarrow> 'm Message_scheme \<Rightarrow> fault + 'm Message_scheme" where
  "ParserOnBody alloc s q =
     (if s \<noteq> [] then bindE (sb_Write alloc s (length s) (req_body q)) (\<lambda>b. Inr (q\<lparr>req_body := b\<rparr>)) else Inr q)"

text \<open>
  \<open>Server::OnRequestComplete\<close>, the callback the server installs on every request: the
  server's handler, if one is set, is called with the request and its response.
\<close>

definition OnRequestComplete :: "(Request \<Rightarrow> fault + OutResponse) option \<Rightarrow> Request \<Rightarrow> fault + Request" where
  "OnRequestComplete handler q =
     (case handler of
        None \<Rightarrow> Inr q
      | Some h \<Rightarrow>
          (let q1 = q\<lparr>served := served q @ [(url_string q, req_url q, headers q, content (req_body q))]\<rparr>
           in bindE (h q1) (\<lambda>r. Inr (q1\<lparr>response := r\<rparr>))))"

definition ParserOnMessageComplete :: "(Request \<Rightarrow> fault + OutResponse) option \<Rightarrow> Request \<Rightarrow> fault + Request" where
  "ParserOnMessageComplete handler q = OnRequestComplete handler (q\<lparr>complete := True\<rparr>)"

fun parser_callback :: "(nat \<Rightarrow> bool) \<Rightarrow> (Request \<Rightarrow> fault + OutResponse) option \<Rightarrow> parser_event \<Rightarrow> Request
    \<Rightarrow> fault + Request" where
  "parser_callback alloc handler (OnUrl s) q = Inr (ParserOnUrl s q)"
| "parser_callback alloc handler (OnHeaderField s) q = ParserOnHeaderField s q"
| "parser_callback alloc handler (OnHeaderValue s) q = ParserOnHeaderValue s q"
| "parser_callback alloc handler OnHeadersComplete q = Inr (ParserOnHeadersComplete q)"
| "parser_callback alloc handler (OnBody s) q = ParserOnBody alloc s q"
| "parser_callback alloc handler OnMessageComplete q = ParserOnMessageComplete handler q"

text \<open>
  \<open>Message::Parse\<close>: \<open>evs\<close> are the callbacks \<open>llhttp_execute\<close> makes for the chunk, \<open>err\<close> is
  what it returns.
\<close>

fun callbacks :: "(nat \<Rightarrow> bool) \<Rightarrow> (Request \<Rightarrow> fault + OutResponse) option \<Rightarrow> parser_event list \<Rightarrow> Request
    \<Rightarrow> fault + Request" where
  "callbacks alloc handler [] q = Inr q"
| "callbacks alloc handler (e # es) q = bindE (parser_callback alloc handler e q) (callbacks alloc handler es)"

definition Message_Parse :: "(nat \<Rightarrow> bool) \<Rightarrow> (Request \<Rightarrow> fault + OutResponse) option \<Rightarrow> parser_event list \<Rightarrow> nat
    \<Rightarrow> Request \<Rightarrow> fault + Request" where
  "Message_Parse alloc handler evs err q =
     bindE (callbacks alloc handler evs q) (\<lambda>q'. Inr (q'\<lparr>parse_error := err\<rparr>))"

definition IsComplete :: "'m Message_scheme \<Rightarrow> bool" where
  IsComplete_iff [simp]: "IsComplete q = complete q"

definition Message_Reset :: "'m Message_scheme \<Rightarrow> 'm Message_scheme" where
  "Message_Reset q = q\<lparr>header_field := False, parse_error := 0, complete := False, headers := [],
     req_body := Clear (req_body q)\<rparr>"

definition Request_Reset :: "Request \<Rightarrow> Request" where
  "Request_Reset q = (Message_Reset q)\<lparr>url_string := [], req_url := clear_url,
     response := Response_Reset (response q)\<rparr>"

text \<open>The constructors: the base class resets itself, which clears an empty buffer.\<close>

definition new_message :: Message where
  "new_message = \<lparr>header_field = False, parse_error = 0, complete = False, headers = [], req_body = Clear empty_sbuf\<rparr>"

definition new_request :: Request where
  "new_request = Message.extend new_message (Request.fields [] clear_url new_out_response [])"

lemma new_request_eq:
  "new_request = \<lparr>header_field = False, parse_error = 0, complete = False, headers = [], req_body = empty_sbuf,
     url_string = [], req_url = clear_url, response = new_out_response, served = []\<rparr>"
  by (simp add: new_request_def new_message_def Message.defs Request.defs Clear_def empty_sbuf_def)

section \<open>The server\<close>

text \<open>
  A connection: the request object it owns, whether the client was told to close, and whether
  its close callback has deleted the request.
\<close>

record connection =
  request :: Request
  closing :: bool
  deleted :: bool

text \<open>\<open>Server::Init\<close>: the object made for a new client and its three listeners.\<close>

definition server_OnConnection :: connection where
  "server_OnConnection = \<lparr>request = new_request, closing = False, deleted = False\<rparr>"

definition server_OnData :: "(nat \<Rightarrow> bool) \<Rightarrow> (Request \<Rightarrow> fault + OutResponse) option \<Rightarrow> parser_event list \<Rightarrow> nat
    \<Rightarrow> connection \<Rightarrow> fault + connection" where
  "server_OnData alloc handler evs err c =
     (if deleted c then Inl UseAfterFree
      else bindE (Message_Parse alloc handler evs err
                    (if IsComplete (request c) then Request_Reset (request c) else request c))
             (\<lambda>q. Inr (c\<lparr>request := q, closing := closing c \<or> err \<noteq> 0\<rparr>)))"

definition server_OnError :: "connection \<Rightarrow> connection" where
  "server_OnError c = c\<lparr>closing := True\<rparr>"

definition server_OnClose :: "connection \<Rightarrow> fault + connection" where
  "server_OnClose c = (if deleted c then Inl UseAfterFree else Inr (c\<lparr>deleted := True\<rparr>))"

section \<open>Rendering\<close>

lemma insert_all_puts: "insert_all alloc ss sb = sink.puts alloc ss sb"
  by (induction ss arbitrary: sb) (auto intro: bindE_cong)

lemma insert_all_content:
  assumes "sink_ok alloc b" "length (content b) + length (concat ss) < MAX_SIZE"
  shows "\<exists>b'. insert_all alloc ss b = Inr b' \<and> sink_ok alloc b' \<and> content b' = content b @ concat ss"
  unfolding insert_all_puts by (rule sink.puts_concat [OF assms])

definition header_line :: "bytes \<times> bytes \<Rightarrow> bytes" where
  "header_line h = fst h @ '': '' @ snd h @ crlf"

fun set_headers :: "(nat \<Rightarrow> bool) \<Rightarrow> (bytes \<times> bytes) list \<Rightarrow> OutResponse \<Rightarrow> fault + OutResponse" where
  "set_headers alloc [] r = Inr r"
| "set_headers alloc (h # hs) r = bindE (SetHeader alloc (fst h) (snd h) r) (set_headers alloc hs)"

definition response_ok :: "(nat \<Rightarrow> bool) \<Rightarrow> OutResponse \<Rightarrow> bool" where
  "response_ok alloc r \<longleftrightarrow> sink_ok alloc (start_line r) \<and> sink_ok alloc (head_buf r) \<and> sink_ok alloc (body_buf r)"

lemma SetHeader_content:
  assumes "response_ok alloc r" "length (content (head_buf r)) + length (header_line (n, v)) < MAX_SIZE"
  shows "\<exists>h. SetHeader alloc n v r = Inr (r\<lparr>head_buf := h\<rparr>) \<and> sink_ok alloc h
    \<and> content h = content (head_buf r) @ header_line (n, v)"
proof -
  have "sink_ok alloc (head_buf r)" using assms(1) by (simp add: response_ok_def)
  from insert_all_content [OF this, of "[n, '': '', v, crlf]"] assms(2) show ?thesis
    by (auto simp: SetHeader_def header_line_def simp del: insert_all.simps)
qed

lemma set_headers_content:
  assumes "response_ok alloc r" "length (content (head_buf r)) + length (concat (map header_line hs)) < MAX_SIZE"
  shows "\<exists>h. set_headers alloc hs r = Inr (r\<lparr>head_buf := h\<rparr>) \<and> sink_ok alloc h
    \<and> content h = content (head_buf r) @ concat (map header_line hs)"
  using assms
proof (induction hs arbitrary: r)
  case Nil
  then show ?case by (cases r) (simp add: response_ok_def)
next
  case (Cons p hs)
  obtain n v where p: "p = (n, v)" by (cases p)
  have "length (content (head_buf r)) + length (header_line (n, v)) < MAX_SIZE" using Cons.prems(2) p by simp
  from SetHeader_content [OF Cons.prems(1) this] obtain h where h: "SetHeader alloc n v r = Inr (r\<lparr>head_buf := h\<rparr>)"
    "sink_ok alloc h" "content h = content (head_buf r) @ header_line (n, v)" by blast
  have ok: "response_ok alloc (r\<lparr>head_buf := h\<rparr>)" using Cons.prems(1) h(2) by (simp add: response_ok_def)
  have len: "length (content (head_buf (r\<lparr>head_buf := h\<rparr>))) + length (concat (map header_line hs)) < MAX_SIZE"
    using Cons.prems(2) h(3) p by simp
  from Cons.IH [OF ok len] h p show ?case by auto
qed

lemma show_nat_length: "n < 10 ^ Suc k \<Longrightarrow> length (show_nat n) \<le> Suc k"
proof (induction k arbitrary: n)
  case 0
  then show ?case by (subst show_nat.simps) simp
next
  case (Suc k)
  show ?case
  proof (cases "n < 10")
    case True
    then show ?thesis by (subst show_nat.simps) simp
  next
    case False
    have "n div 10 < 10 ^ Suc k" using Suc.prems by (simp add: less_mult_imp_div_less mult.commute)
    from Suc.IH [OF this] False show ?thesis by (subst show_nat.simps) simp
  qed
qed

definition read_nat :: "bytes \<Rightarrow> nat" where
  "read_nat s = foldl (\<lambda>v c. v * 10 + (of_char c - 48)) 0 s"

lemma digit: "d < 10 \<Longrightarrow> of_char (char_of (48 + d) :: char) - 48 = (d :: nat)"
  by (simp add: of_char_of)

lemma read_show: "read_nat (show_nat n) = n"
proof (induction n rule: show_nat.induct)
  case (1 n)
  show ?case
  proof (cases "n < 10")
    case True
    then show ?thesis using digit [of n] by (subst show_nat.simps) (simp add: read_nat_def)
  next
    case False
    have "n mod 10 < 10" by simp
    then have d: "of_char (char_of (48 + n mod 10) :: char) - 48 = n mod 10" by (rule digit)
    from False have "show_nat n = show_nat (n div 10) @ [char_of (48 + n mod 10)]"
      by (subst show_nat.simps) (rule if_not_P)
    then have "read_nat (show_nat n) = read_nat (show_nat (n div 10)) * 10 + (of_char (char_of (48 + n mod 10) :: char) - 48)"
      by (simp only: read_nat_def foldl_append foldl_Cons foldl_Nil)
    also have "\<dots> = n" unfolding d using 1 False by simp
    finally show ?thesis .
  qed
qed

text \<open>The status line, and the lines \<open>End\<close> adds to the head.\<close>

definition status_line :: "(int \<Rightarrow> bytes) \<Rightarrow> int \<Rightarrow> bytes" where
  "status_line reason code = ''HTTP/1.1 '' @ show_int code @ '' '' @ reason code @ crlf"

definition closing_lines :: "nat \<Rightarrow> bytes" where
  "closing_lines n = ''Connection: Keep-Alive'' @ crlf @ ''Content-Length: '' @ show_nat n @ crlf @ crlf"

definition wire_code :: "int \<Rightarrow> OutResponse \<Rightarrow> int" where
  "wire_code status r = (if status > 0 then status else status_code r)"

lemma sink_length: "sink_ok alloc b \<Longrightarrow> length (content b) = pos b \<and> pos b \<le> MAX_SIZE"
  using sbuf_wf_mem(2) by (auto simp: sink_ok_def sbuf_wf_def)

lemma closing_lines_length: "n \<le> MAX_SIZE \<Longrightarrow> length (closing_lines n) < 60"
proof -
  assume "n \<le> MAX_SIZE"
  then have "n < 10 ^ Suc 8" by (simp add: MAX_SIZE_def)
  from show_nat_length [OF this] show ?thesis by (simp add: closing_lines_def crlf_def)
qed

lemma End_content:
  assumes "response_ok alloc r" "length (content (head_buf r)) + 60 \<le> MAX_SIZE"
    and "length (content (start_line r)) + length (status_line reason (wire_code status r)) < MAX_SIZE"
  shows "\<exists>r'. End alloc reason status r = Inr r' \<and> response_ok alloc r'
    \<and> sent r' = sent r @ [[content (start_line r) @ status_line reason (wire_code status r),
        content (head_buf r) @ closing_lines (length (content (body_buf r))), content (body_buf r)]]"
proof -
  let ?code = "wire_code status r" and ?b = "length (content (body_buf r))"
  have ok: "sink_ok alloc (start_line r)" "sink_ok alloc (head_buf r)" "sink_ok alloc (body_buf r)"
    using assms(1) by (simp_all add: response_ok_def)
  have b: "?b = pos (body_buf r)" "?b \<le> MAX_SIZE" using sink_length [OF ok(3)] by auto
  note cl = closing_lines_length [OF b(2)]
  have sl: "concat [''HTTP/1.1 '', show_int ?code, '' '', reason ?code, crlf] = status_line reason ?code"
    by (simp add: status_line_def)
  obtain s where s: "insert_all alloc [''HTTP/1.1 '', show_int ?code, '' '', reason ?code, crlf] (start_line r) = Inr s"
    "sink_ok alloc s" "content s = content (start_line r) @ status_line reason ?code"
    using insert_all_content [OF ok(1), of "[''HTTP/1.1 '', show_int ?code, '' '', reason ?code, crlf]"] assms(3)
    unfolding sl by blast
  let ?k = "[''Connection: Keep-Alive'' @ crlf]" and ?l = "[''Content-Length: '', show_nat ?b, crlf @ crlf]"
  have kl: "concat ?k @ concat ?l = closing_lines ?b" by (simp add: closing_lines_def)
  then have len: "length (concat ?k) + length (concat ?l) < 60" using cl by (metis length_append)
  have "length (content (head_buf r)) + length (concat ?k) < MAX_SIZE" using len assms(2) by linarith
  from insert_all_content [OF ok(2) this] obtain h1 where h1: "insert_all alloc ?k (head_buf r) = Inr h1" "sink_ok alloc h1"
    "content h1 = content (head_buf r) @ concat ?k" by blast
  have "length (content h1) + length (concat ?l) < MAX_SIZE" using len assms(2) h1(3) by simp
  from insert_all_content [OF h1(2) this] obtain h2 where h2: "insert_all alloc ?l h1 = Inr h2" "sink_ok alloc h2"
    "content h2 = content h1 @ concat ?l" by blast
  have c: "content h2 = content (head_buf r) @ closing_lines ?b" using h1(3) h2(3) kl by (metis append.assoc)
  let ?r1 = "if status > 0 then r\<lparr>status_code := status\<rparr> else r"
  have r1: "status_code ?r1 = ?code" "start_line ?r1 = start_line r" "head_buf ?r1 = head_buf r"
    "body_buf ?r1 = body_buf r" "sent ?r1 = sent r" by (simp_all add: wire_code_def)
  have "End alloc reason status r = Inr (?r1\<lparr>start_line := s, head_buf := h2,
      sent := sent r @ [[content s, content h2, content (body_buf r)]]\<rparr>)"
    unfolding End_def Let_def r1 b(1) [symmetric] s(1) h1(1) h2(1) bindE_simps ..
  with s(2,3) h2(2) c ok(3) show ?thesis by (simp add: response_ok_def)
qed

section \<open>Reading a message\<close>

lemma callbacks_append: "callbacks alloc handler (es @ fs) q
    = bindE (callbacks alloc handler es q) (callbacks alloc handler fs)"
proof (induction es arbitrary: q)
  case (Cons e es)
  then have "callbacks alloc handler (es @ fs) = (\<lambda>q. bindE (callbacks alloc handler es q) (callbacks alloc handler fs))"
    by (simp add: fun_eq_iff)
  then show ?case by (simp add: bindE_assoc)
qed simp

lemma url_chunks: "callbacks alloc handler (map OnUrl us) q = Inr (q\<lparr>url_string := url_string q @ concat us\<rparr>)"
  by (induction us arbitrary: q) (simp_all add: ParserOnUrl_def)

lemma field_chunks_more:
  assumes "header_field q" "headers q = hs @ [h]"
  shows "callbacks alloc handler (map OnHeaderField ks) q
    = Inr (q\<lparr>headers := hs @ [h\<lparr>hdr_key := hdr_key h @ concat ks\<rparr>]\<rparr>)"
  using assms
proof (induction ks arbitrary: q h)
  case Nil
  then show ?case by (cases q) simp
next
  case (Cons k ks)
  show ?case
  proof (cases "k = []")
    case True
    with Cons.IH [OF Cons.prems] show ?thesis by (simp add: ParserOnHeaderField_def)
  next
    case False
    let ?q = "q\<lparr>headers := hs @ [h\<lparr>hdr_key := hdr_key h @ k\<rparr>]\<rparr>"
    have "ParserOnHeaderField k q = Inr ?q"
      using False Cons.prems by (simp add: ParserOnHeaderField_def back_update_def)
    with Cons.IH [of ?q "h\<lparr>hdr_key := hdr_key h @ k\<rparr>"] Cons.prems show ?thesis by simp
  qed
qed

lemma field_chunks:
  assumes "\<not> header_field q" "concat ks \<noteq> []"
  shows "callbacks alloc handler (map OnHeaderField ks) q
    = Inr (q\<lparr>headers := headers q @ [\<lparr>hdr_key = concat ks, hdr_value = []\<rparr>], header_field := True\<rparr>)"
  using assms
proof (induction ks)
  case Nil
  then show ?case by simp
next
  case (Cons k ks)
  show ?case
  proof (cases "k = []")
    case True
    with Cons show ?thesis by (simp add: ParserOnHeaderField_def)
  next
    case False
    let ?q = "q\<lparr>headers := headers q @ [\<lparr>hdr_key = k, hdr_value = []\<rparr>], header_field := True\<rparr>"
    have "ParserOnHeaderField k q = Inr ?q" using False Cons.prems by (simp add: ParserOnHeaderField_def)
    with field_chunks_more [of ?q "headers q" "\<lparr>hdr_key = k, hdr_value = []\<rparr>"] show ?thesis by simp
  qed
qed

lemma value_chunks:
  assumes "headers q = hs @ [h]"
  shows "callbacks alloc handler (map OnHeaderValue vs) q
    = Inr (q\<lparr>headers := hs @ [h\<lparr>hdr_value := hdr_value h @ concat vs\<rparr>],
        header_field := (header_field q \<and> concat vs = [])\<rparr>)"
  using assms
proof (induction vs arbitrary: q h)
  case Nil
  then show ?case by (cases q) simp
next
  case (Cons v vs)
  show ?case
  proof (cases "v = []")
    case True
    with Cons.IH [OF Cons.prems] show ?thesis by (simp add: ParserOnHeaderValue_def)
  next
    case False
    let ?q = "q\<lparr>headers := hs @ [h\<lparr>hdr_value := hdr_value h @ v\<rparr>], header_field := False\<rparr>"
    have "ParserOnHeaderValue v q = Inr ?q"
      using False Cons.prems by (simp add: ParserOnHeaderValue_def back_update_def)
    with Cons.IH [of ?q "h\<lparr>hdr_value := hdr_value h @ v\<rparr>"] False show ?thesis by simp
  qed
qed

text \<open>The callbacks for headers whose names and values arrive in pieces, and what they stand for.\<close>

type_synonym header_chunks = "bytes list \<times> bytes list"

definition header_events :: "header_chunks list \<Rightarrow> parser_event list" where
  "header_events css = concat (map (\<lambda>(ks, vs). map OnHeaderField ks @ map OnHeaderValue vs) css)"

definition header_of :: "header_chunks \<Rightarrow> Header" where
  "header_of c = \<lparr>hdr_key = concat (fst c), hdr_value = concat (snd c)\<rparr>"

definition header_full :: "header_chunks \<Rightarrow> bool" where
  "header_full c \<longleftrightarrow> concat (fst c) \<noteq> [] \<and> concat (snd c) \<noteq> []"

lemma header_chunks:
  assumes "\<not> header_field q" "list_all header_full css"
  shows "callbacks alloc handler (header_events css) q = Inr (q\<lparr>headers := headers q @ map header_of css\<rparr>)"
  using assms
proof (induction css arbitrary: q)
  case Nil
  then show ?case by (simp add: header_events_def)
next
  case (Cons c css)
  obtain ks vs where c: "c = (ks, vs)" by (cases c)
  have full: "concat ks \<noteq> []" "concat vs \<noteq> []" using Cons.prems(2) c by (simp_all add: header_full_def)
  let ?q1 = "q\<lparr>headers := headers q @ [\<lparr>hdr_key = concat ks, hdr_value = []\<rparr>], header_field := True\<rparr>"
  let ?q2 = "q\<lparr>headers := headers q @ [header_of c]\<rparr>"
  have 1: "callbacks alloc handler (map OnHeaderField ks) q = Inr ?q1" by (rule field_chunks [OF Cons.prems(1) full(1)])
  have 2: "callbacks alloc handler (map OnHeaderValue vs) ?q1 = Inr ?q2"
    using value_chunks [of ?q1 "headers q" "\<lparr>hdr_key = concat ks, hdr_value = []\<rparr>" alloc handler vs] full(2) c Cons.prems(1)
    by (cases q) (simp add: header_of_def)
  have 3: "callbacks alloc handler (header_events css) ?q2 = Inr (?q2\<lparr>headers := headers ?q2 @ map header_of css\<rparr>)"
    using Cons.prems by (intro Cons.IH) simp_all
  have "header_events (c # css) = map OnHeaderField ks @ map OnHeaderValue vs @ header_events css"
    by (simp add: header_events_def c)
  then show ?case by (simp add: callbacks_append 1 2 3)
qed

lemma sb_Write_text:
  assumes "sink_ok alloc b" "length (content b) + length s < MAX_SIZE" "s \<noteq> []"
  shows "\<exists>b'. sb_Write alloc s (length s) b = Inr b' \<and> sink_ok alloc b' \<and> content b' = content b @ s"
  using put_text_law [OF assms(1,2)] assms(3) by (simp add: sb_Write_def put_text_def)

lemma body_chunks:
  assumes "sink_ok alloc (req_body q)" "length (content (req_body q)) + length (concat bs) < MAX_SIZE"
  shows "\<exists>b. callbacks alloc handler (map OnBody bs) q = Inr (q\<lparr>req_body := b\<rparr>) \<and> sink_ok alloc b
    \<and> content b = content (req_body q) @ concat bs"
  using assms
proof (induction bs arbitrary: q)
  case Nil
  then show ?case by (cases q) simp
next
  case (Cons s bs)
  show ?case
  proof (cases "s = []")
    case True
    with Cons.IH [OF Cons.prems(1)] Cons.prems(2) show ?thesis by (simp add: ParserOnBody_def)
  next
    case False
    have "length (content (req_body q)) + length s < MAX_SIZE" using Cons.prems(2) by simp
    from sb_Write_text [OF Cons.prems(1) this False] obtain b where
      b: "sb_Write alloc s (length s) (req_body q) = Inr b" "sink_ok alloc b" "content b = content (req_body q) @ s" by blast
    let ?q = "q\<lparr>req_body := b\<rparr>"
    have "length (content (req_body ?q)) + length (concat bs) < MAX_SIZE" using Cons.prems(2) b(3) by simp
    from Cons.IH [of ?q, OF _ this] b False show ?thesis by (auto simp: ParserOnBody_def)
  qed
qed

text \<open>A whole message.\<close>

definition message_events :: "bytes list \<Rightarrow> header_chunks list \<Rightarrow> bytes list \<Rightarrow> parser_event list" where
  "message_events us css bs = map OnUrl us @ header_events css @ OnHeadersComplete # map OnBody bs"

definition c_string :: "bytes \<Rightarrow> bytes" where
  "c_string s = takeWhile (\<lambda>c. c \<noteq> nul) s"

lemma message_read:
  assumes "\<not> header_field q" "list_all header_full css" "sink_ok alloc (req_body q)" "content (req_body q) = []"
    and "url_string q = []" "headers q = []" "length (concat bs) < MAX_SIZE"
  shows "\<exists>b. callbacks alloc handler (message_events us css bs) q
      = Inr (q\<lparr>url_string := concat us, headers := map header_of css, req_url := ParseUrl (c_string (concat us)),
          req_body := b\<rparr>) \<and> content b = concat bs"
proof -
  let ?q1 = "q\<lparr>url_string := concat us\<rparr>"
  let ?q2 = "?q1\<lparr>headers := map header_of css\<rparr>"
  let ?q3 = "?q2\<lparr>req_url := ParseUrl (c_string (concat us))\<rparr>"
  have 1: "callbacks alloc handler (map OnUrl us) q = Inr ?q1" using url_chunks [of alloc handler us q] assms(5) by simp
  have 2: "callbacks alloc handler (header_events css) ?q1 = Inr ?q2"
    using header_chunks [of ?q1 css alloc handler] assms(1,2,6) by simp
  have 3: "callbacks alloc handler (OnHeadersComplete # map OnBody bs) ?q2 = callbacks alloc handler (map OnBody bs) ?q3"
    by (simp add: ParserOnHeadersComplete_def c_string_def)
  have "sink_ok alloc (req_body ?q3)" "length (content (req_body ?q3)) + length (concat bs) < MAX_SIZE"
    using assms(3,4,7) by simp_all
  from body_chunks [OF this, of handler] show ?thesis
    using assms(4) by (auto simp: message_events_def callbacks_append 1 2 3 simp del: callbacks.simps)
qed

lemma callback_keeps_complete:
  assumes "callbacks alloc handler es q = Inr q'" "OnMessageComplete \<notin> set es"
  shows "complete q' = complete q"
  using assms
proof (induction es arbitrary: q)
  case (Cons e es)
  obtain q1 where q1: "parser_callback alloc handler e q = Inr q1" "callbacks alloc handler es q1 = Inr q'"
    using Cons.prems(1) by (auto simp: bindE_Inr_iff)
  have "complete q1 = complete q"
    using q1(1) Cons.prems(2) by (cases e) (auto simp: ParserOnUrl_def ParserOnHeaderField_def ParserOnHeaderValue_def
        ParserOnHeadersComplete_def ParserOnBody_def bindE_Inr_iff split: if_splits)
  with Cons.IH [OF q1(2)] Cons.prems(2) show ?case by simp
qed simp

lemma callbacks_parse_error: "callbacks alloc handler es q = Inr q' \<Longrightarrow> OnMessageComplete \<notin> set es \<Longrightarrow> parse_error q' = parse_error q"
proof (induction es arbitrary: q)
  case (Cons e es)
  obtain q1 where q1: "parser_callback alloc handler e q = Inr q1" "callbacks alloc handler es q1 = Inr q'"
    using Cons.prems(1) by (auto simp: bindE_Inr_iff)
  have "parse_error q1 = parse_error q"
    using q1(1) Cons.prems(2) by (cases e) (auto simp: ParserOnUrl_def ParserOnHeaderField_def ParserOnHeaderValue_def
        ParserOnHeadersComplete_def ParserOnBody_def bindE_Inr_iff split: if_splits)
  with Cons.IH [OF q1(2)] Cons.prems(2) show ?case by simp
qed simp

text \<open>Input that arrives in several chunks without parser errors.\<close>

fun feed :: "(nat \<Rightarrow> bool) \<Rightarrow> (Request \<Rightarrow> fault + OutResponse) option \<Rightarrow> parser_event list list \<Rightarrow> connection
    \<Rightarrow> fault + connection" where
  "feed alloc handler [] c = Inr c"
| "feed alloc handler (es # ess) c = bindE (server_OnData alloc handler es 0 c) (feed alloc handler ess)"

lemma feed_incomplete:
  assumes "\<not> complete (request c)" "\<not> deleted c" "parse_error (request c) = 0"
    and "callbacks alloc handler (concat ess) (request c) = Inr q'" "OnMessageComplete \<notin> set (concat ess)"
  shows "feed alloc handler ess c = Inr (c\<lparr>request := q'\<rparr>)"
  using assms
proof (induction ess arbitrary: c)
  case Nil
  then show ?case by (cases c) simp
next
  case (Cons es ess)
  obtain q1 where q1: "callbacks alloc handler es (request c) = Inr q1" "callbacks alloc handler (concat ess) q1 = Inr q'"
    using Cons.prems(4) by (auto simp: callbacks_append bindE_Inr_iff)
  have keep: "\<not> complete q1" "parse_error q1 = 0"
    using callback_keeps_complete [OF q1(1)] callbacks_parse_error [OF q1(1)] Cons.prems(1,3,5) by simp_all
  have "q1\<lparr>parse_error := 0\<rparr> = q1" using keep(2) by (cases q1) simp
  with Cons.prems(1,2) q1(1) have "server_OnData alloc handler es 0 c = Inr (c\<lparr>request := q1\<rparr>)"
    by (cases c) (simp add: server_OnData_def Message_Parse_def)
  with Cons.IH [of "c\<lparr>request := q1\<rparr>"] keep q1(2) Cons.prems(2,5) show ?case by simp
qed

lemma feed_append: "feed alloc handler (as @ bs) c = bindE (feed alloc handler as c) (feed alloc handler bs)"
proof (induction as arbitrary: c)
  case (Cons a as)
  then have "feed alloc handler (as @ bs) = (\<lambda>c. bindE (feed alloc handler as c) (feed alloc handler bs))"
    by (simp add: fun_eq_iff)
  then show ?case by (simp add: bindE_assoc)
qed simp

text \<open>A connection whose last request was answered starts its next message from scratch.\<close>

definition reset_request :: "connection \<Rightarrow> connection" where
  "reset_request c = c\<lparr>request := Request_Reset (request c)\<rparr>"

lemma feed_reset:
  assumes "complete (request c)" "ess \<noteq> []"
  shows "feed alloc handler ess c = feed alloc handler ess (reset_request c)"
proof -
  obtain es ess' where e: "ess = es # ess'" using assms(2) by (cases ess) auto
  have "server_OnData alloc handler es 0 c = server_OnData alloc handler es 0 (reset_request c)"
    using assms(1)
    by (cases c) (simp add: server_OnData_def reset_request_def Request_Reset_def Message_Reset_def)
  then show ?thesis by (simp add: e)
qed

lemma events_no_complete: "OnMessageComplete \<notin> set (message_events us css bs)"
  by (auto simp: message_events_def header_events_def)

lemma request_served:
  assumes "\<not> complete (request c)" "\<not> deleted c" "parse_error (request c) = 0" "\<not> header_field (request c)"
    and "url_string (request c) = []" "headers (request c) = []"
    and "sink_ok alloc (req_body (request c))" "content (req_body (request c)) = []"
    and "concat xs @ x = message_events us css bs" "list_all header_full css" "length (concat bs) < MAX_SIZE"
    and "\<And>q. \<exists>r. h q = Inr r"
  shows "\<exists>c'. feed alloc (Some h) (xs @ [x @ [OnMessageComplete]]) c = Inr c' \<and> complete (request c')
    \<and> served (request c') = served (request c)
        @ [(concat us, ParseUrl (c_string (concat us)), map header_of css, concat bs)]"
proof -
  let ?q = "request c"
  from message_read [OF assms(4,10,7,8,5,6,11), of "Some h" us] obtain b where
    b: "callbacks alloc (Some h) (message_events us css bs) ?q
      = Inr (?q\<lparr>url_string := concat us, headers := map header_of css, req_url := ParseUrl (c_string (concat us)),
          req_body := b\<rparr>)" "content b = concat bs" by blast
  from b(1) obtain q1 where q1: "callbacks alloc (Some h) (concat xs) ?q = Inr q1"
    "callbacks alloc (Some h) x q1 = Inr (?q\<lparr>url_string := concat us, headers := map header_of css,
        req_url := ParseUrl (c_string (concat us)), req_body := b\<rparr>)"
    unfolding assms(9) [symmetric] by (auto simp: callbacks_append bindE_Inr_iff)
  have no: "OnMessageComplete \<notin> set (concat xs)" using events_no_complete [of us css bs] assms(9)
    by (metis Un_iff set_append)
  have f: "feed alloc (Some h) xs c = Inr (c\<lparr>request := q1\<rparr>)"
    by (rule feed_incomplete [OF assms(1-3) q1(1) no])
  have "\<not> complete q1" using callback_keeps_complete [OF q1(1) no] assms(1) by simp
  moreover obtain r where "h (?q\<lparr>url_string := concat us, headers := map header_of css,
        req_url := ParseUrl (c_string (concat us)), req_body := b, complete := True,
        served := served ?q @ [(concat us, ParseUrl (c_string (concat us)), map header_of css, concat bs)]\<rparr>) = Inr r"
    using assms(12) by blast
  ultimately show ?thesis using q1(2) b(2) assms(2)
    by (simp add: feed_append f server_OnData_def Message_Parse_def callbacks_append ParserOnMessageComplete_def
        OnRequestComplete_def)
qed

section \<open>Properties\<close>

text \<open>
  Headers survive fragmentation: however llhttp cuts the names and values of the headers
  of a message into pieces, empty pieces included, the message ends up with exactly the list
  of headers that were sent, as long as no name and no value is empty.
\<close>

theorem headers_reassembled:
  assumes "\<not> header_field q" "list_all header_full css"
  shows "callbacks alloc handler (header_events css) q = Inr (q\<lparr>headers := headers q @ map header_of css\<rparr>)"
  by (rule header_chunks [OF assms])

theorem headers_reassembled_witness:
  "callbacks (\<lambda>_. True) None [OnHeaderField ''Ho'', OnHeaderField ''st'', OnHeaderValue [], OnHeaderValue ''a''] new_request
    = Inr (new_request\<lparr>headers := [\<lparr>hdr_key = ''Host'', hdr_value = ''a''\<rparr>]\<rparr>)"
  using headers_reassembled [of new_request "[([''Ho'', ''st''], [[], ''a''])]" "\<lambda>_. True" None]
  by (simp add: header_events_def header_full_def header_of_def new_request_eq)

text \<open>
  A header with an empty value swallows the next one: the name of the following header is
  appended to its own, and the two arrive as one header with the second value.
\<close>

theorem empty_value_merges:
  assumes "\<not> header_field q" "k1 \<noteq> []" "k2 \<noteq> []" "v2 \<noteq> []"
  shows "callbacks alloc handler [OnHeaderField k1, OnHeaderValue [], OnHeaderField k2, OnHeaderValue v2] q
    = Inr (q\<lparr>headers := headers q @ [\<lparr>hdr_key = k1 @ k2, hdr_value = v2\<rparr>]\<rparr>)"
  using assms by (cases q) (simp add: ParserOnHeaderField_def ParserOnHeaderValue_def back_update_def)

theorem empty_value_merges_witness:
  "bindE (callbacks (\<lambda>_. True) None
      [OnHeaderField ''A'', OnHeaderValue [], OnHeaderField ''B'', OnHeaderValue ''1''] new_request) (\<lambda>q. Inr (headers q))
    = Inr [\<lparr>hdr_key = ''AB'', hdr_value = ''1''\<rparr>]"
  using empty_value_merges [of new_request "''A''" "''B''" "''1''" "\<lambda>_. True" None] by (simp add: new_request_eq)

text \<open>
  C22: requests on one connection do not leak into each other. After an answered request, let a
  message arrive whose headers all have non-empty values and whose body is below the limit of the
  buffer, which can grow; let it begin with a chunk of its own (nothing of it came in the chunk that
  ended the request before), be split into further chunks in any way, and let the handler not
  fault. Then the handler is called exactly once for it, at its end, with the URL, the headers and
  the body of this message and nothing of the earlier ones. \<open>empty_value_merges\<close> and
  \<open>pipelined_requests_mixed\<close> have what happens to empty values and to messages that share a chunk.
\<close>

theorem requests_isolated:
  assumes "complete (request c)" "\<not> deleted c" "sink_ok alloc (req_body (request c))"
    and "concat xs @ x = message_events us css bs" "list_all header_full css" "length (concat bs) < MAX_SIZE"
    and "\<And>q. \<exists>r. h q = Inr r"
  shows "\<exists>c'. feed alloc (Some h) (xs @ [x @ [OnMessageComplete]]) c = Inr c' \<and> complete (request c')
    \<and> served (request c') = served (request c)
        @ [(concat us, ParseUrl (c_string (concat us)), map header_of css, concat bs)]"
proof -
  let ?c = "reset_request c"
  have "sink_ok alloc (req_body (request ?c))" "content (req_body (request ?c)) = []"
    using sink.clr_law [OF assms(3)] by (simp_all add: reset_request_def Request_Reset_def Message_Reset_def)
  moreover have "\<not> complete (request ?c)" "\<not> deleted ?c" "parse_error (request ?c) = 0" "\<not> header_field (request ?c)"
    "url_string (request ?c) = []" "headers (request ?c) = []" "served (request ?c) = served (request c)"
    using assms(2) by (simp_all add: reset_request_def Request_Reset_def Message_Reset_def)
  ultimately show ?thesis
    using request_served [of ?c alloc xs x us css bs h] assms(4-7) feed_reset [OF assms(1)] by simp
qed

theorem requests_isolated_witness:
  "\<exists>c'. feed (\<lambda>_. True) (Some (\<lambda>q. Inr (response q)))
       [[OnUrl ''/b''], [OnHeadersComplete, OnBody ''hi'', OnMessageComplete]]
       \<lparr>request = new_request\<lparr>complete := True, url_string := ''/old''\<rparr>, closing = False, deleted = False\<rparr> = Inr c'
     \<and> map fst (served (request c')) = [''/b'']"
proof -
  let ?c = "\<lparr>request = new_request\<lparr>complete := True, url_string := ''/old''\<rparr>, closing = False, deleted = False\<rparr>"
  have ok: "complete (request ?c)" "\<not> deleted ?c" "sink_ok (\<lambda>_. True) (req_body (request ?c))"
    by (simp_all add: new_request_eq sink_ok_def sbuf_wf_empty)
  have ev: "concat [[OnUrl ''/b'']] @ [OnHeadersComplete, OnBody ''hi''] = message_events [''/b''] [] [''hi'']"
    by (simp add: message_events_def header_events_def)
  have len: "length (concat [''hi'']) < MAX_SIZE" by (simp add: MAX_SIZE_def)
  have all: "list_all header_full []" by simp
  from requests_isolated [OF ok ev all len, of "\<lambda>q. Inr (response q)"] show ?thesis
    by (auto simp: new_request_eq)
qed

text \<open>
  Two requests in one chunk are mixed up: the request object is only reset when the next
  chunk arrives, so the handler is called for the second request with the two URLs run
  together, parsed as one, and with the body of the first before its own.
\<close>

theorem pipelined_requests_mixed:
  assumes "u1 \<noteq> []" "u2 \<noteq> []" "\<And>q. \<exists>r. h q = Inr r"
  shows "\<exists>c'. server_OnData alloc (Some h)
      [OnUrl u1, OnHeadersComplete, OnMessageComplete, OnUrl u2, OnHeadersComplete, OnMessageComplete] 0 server_OnConnection
      = Inr c' \<and> map fst (served (request c')) = [u1, u1 @ u2]"
proof -
  obtain r where r: "\<And>q. h q = Inr (r q)" using assms(3) by metis
  show ?thesis using assms(1,2)
    by (simp add: server_OnData_def server_OnConnection_def Message_Parse_def new_request_eq ParserOnUrl_def
        ParserOnHeadersComplete_def ParserOnMessageComplete_def OnRequestComplete_def r)
qed

theorem pipelined_requests_mixed_witness:
  "\<exists>c'. server_OnData (\<lambda>_. True) (Some (\<lambda>q. Inr (response q)))
      [OnUrl ''/a'', OnHeadersComplete, OnMessageComplete, OnUrl ''/b'', OnHeadersComplete, OnMessageComplete] 0 server_OnConnection
      = Inr c' \<and> map fst (served (request c')) = [''/a'', ''/a/b'']"
  using pipelined_requests_mixed [of "''/a''" "''/b''" "\<lambda>q. Inr (response q)" "\<lambda>_. True"] by simp



text \<open>
  The buffers \<open>End\<close> hands to libuv point into the response. What libuv finds there when it
  gets to write them, \<open>ns\<close> being their lengths:
\<close>

definition held :: "nat list \<Rightarrow> OutResponse \<Rightarrow> bytes list" where
  "held ns r = map2 take ns [mem (start_line r), mem (head_buf r), mem (body_buf r)]"

lemma take_content: "take (length (content sb)) (mem sb) = content sb"
  by (simp add: content_def min_def)

lemma take_Clear: "take (length (content sb)) (mem (Clear sb)) = replicate (length (content sb)) nul"
  by (simp add: content_def Clear_def min_def)

lemma End_held:
  assumes "End alloc reason status r = Inr r'"
  shows "last (sent r') = [content (start_line r'), content (head_buf r'), content (body_buf r')]"
  using assms by (auto simp: End_def Let_def bindE_Inr_iff split: if_splits)

text \<open>
  A response that libuv has not written yet is wiped when the client's next bytes arrive: they
  reset the request, and with it the buffers, so zero bytes go out in place of the response.
\<close>

theorem unwritten_response_wiped:
  assumes "End alloc reason status r = Inr r'" "response (request c) = r'" "complete (request c)" "\<not> deleted c"
  defines "ns \<equiv> map length (last (sent r'))"
  shows "held ns r' = last (sent r')"
    "\<exists>c'. server_OnData alloc h [] 0 c = Inr c' \<and> held ns (response (request c')) = map (\<lambda>n. replicate n nul) ns"
proof -
  note l = End_held [OF assms(1)]
  show "held ns r' = last (sent r')" by (simp add: ns_def l held_def take_content)
  have "held ns (Response_Reset r') = map (\<lambda>n. replicate n nul) ns"
    by (simp add: ns_def l held_def Response_Reset_def take_Clear)
  then show "\<exists>c'. server_OnData alloc h [] 0 c = Inr c' \<and> held ns (response (request c')) = map (\<lambda>n. replicate n nul) ns"
    using assms(2-4) by (simp add: server_OnData_def Message_Parse_def Request_Reset_def Message_Reset_def)
qed

end
