(* ===== verification/HttpClients.thy ===== *)
theory HttpClients
  imports HttpMessages
begin

text \<open>
  \<open>HttpClient\<close> (\<open>src/http_client.cc\<close>, \<open>include/http_client.h\<close>): the options it sets on its
  libcurl handle, the two callbacks that collect a response, and \<open>Get\<close>. What libcurl does
  with a request, the callbacks it makes and its results, is an argument.
\<close>

section \<open>Options\<close>

datatype curl_opt = UserAgent | ConnectTimeout | Timeout | NoSignal | FollowLocation | PostRedir | AcceptEncoding

datatype curl_value = CText bytes | CLong int

record http_client =
  options :: "curl_opt \<Rightarrow> curl_value option"
  slist :: "bytes list"

definition setopt :: "curl_opt \<Rightarrow> curl_value \<Rightarrow> http_client \<Rightarrow> http_client" where
  "setopt opt v c = c\<lparr>options := (options c)(opt \<mapsto> v)\<rparr>"

text \<open>\<open>CURL_REDIR_POST_ALL\<close>.\<close>

definition REDIR_POST_ALL :: int where
  "REDIR_POST_ALL = 7"

definition HttpClient_Reset :: "http_client \<Rightarrow> http_client" where
  "HttpClient_Reset c =
     (let c1 = c\<lparr>options := Map.empty\<rparr>;
          c2 = setopt UserAgent (CText ''Nexer/1.0'') c1;
          c3 = setopt ConnectTimeout (CLong 30) c2;
          c4 = setopt Timeout (CLong 300) c3;
          c5 = setopt NoSignal (CLong 1) c4;
          c6 = setopt FollowLocation (CLong 0) c5;
          c7 = setopt PostRedir (CLong REDIR_POST_ALL) c6;
          c8 = setopt AcceptEncoding (CText []) c7;
          c9 = setopt Timeout (CLong 120) c8
      in c9\<lparr>slist := slist c9 @ [''Accept-Language: en-US,en;q=0.5'', ''Cache-Control: max-age=0'']\<rparr>)"

definition new_http_client :: http_client where
  "new_http_client = HttpClient_Reset \<lparr>options = Map.empty, slist = []\<rparr>"

definition SetFollow :: "bool \<Rightarrow> http_client \<Rightarrow> http_client" where
  "SetFollow follow c = setopt FollowLocation (CLong (if follow then 1 else 0)) c"

lemma new_http_client_options:
  "options new_http_client Timeout = Some (CLong 120)" "options new_http_client FollowLocation = Some (CLong 0)"
  "options (SetFollow True c) FollowLocation = Some (CLong 1)" "o' \<noteq> FollowLocation \<Longrightarrow> options (SetFollow b c) o' = options c o'"
  by (simp_all add: new_http_client_def HttpClient_Reset_def SetFollow_def setopt_def Let_def)

section \<open>Callbacks\<close>

text \<open>The result of a callback is the number of bytes it was given, whatever became of them.\<close>

definition http_content_callback :: "(nat \<Rightarrow> bool) \<Rightarrow> bytes \<Rightarrow> sbuf \<Rightarrow> fault + nat \<times> sbuf" where
  "http_content_callback alloc data sb = bindE (sb_Write alloc data (length data) sb) (\<lambda>b. Inr (length data, b))"

text \<open>
  \<open>sb->clear()\<close> is the member of \<open>std::ios\<close>, which resets the state of the stream; the
  buffer's own \<open>Clear\<close> is not called.
\<close>

definition ios_clear :: "sbuf \<Rightarrow> sbuf" where
  "ios_clear sb = sb"

definition status_line_start :: "bytes \<Rightarrow> bool" where
  "status_line_start data \<longleftrightarrow> length data > 4 \<and> data ! 0 = CHR ''H'' \<and> data ! 1 = CHR ''T'' \<and> data ! 2 = CHR ''T''
     \<and> data ! 3 = CHR ''P'' \<and> data ! 4 = CHR ''/''"

definition http_header_callback :: "(nat \<Rightarrow> bool) \<Rightarrow> bytes \<Rightarrow> sbuf \<Rightarrow> fault + nat \<times> sbuf" where
  "http_header_callback alloc data sb =
     (let sb1 = (if status_line_start data then ios_clear sb else sb)
      in bindE (sb_Write alloc data (length data) sb1) (\<lambda>b. Inr (length data, b)))"

section \<open>Requests\<close>

datatype curl_event = HeaderData bytes | ContentData bytes

fun curl_callback :: "(nat \<Rightarrow> bool) \<Rightarrow> curl_event \<Rightarrow> Response \<Rightarrow> fault + Response" where
  "curl_callback alloc (HeaderData s) r = bindE (http_header_callback alloc s (head_buf r)) (\<lambda>(n, b). Inr (r\<lparr>head_buf := b\<rparr>))"
| "curl_callback alloc (ContentData s) r = bindE (http_content_callback alloc s (body_buf r)) (\<lambda>(n, b). Inr (r\<lparr>body_buf := b\<rparr>))"

fun curl_perform :: "(nat \<Rightarrow> bool) \<Rightarrow> curl_event list \<Rightarrow> Response \<Rightarrow> fault + Response" where
  "curl_perform alloc [] r = Inr r"
| "curl_perform alloc (e # es) r = bindE (curl_callback alloc e r) (curl_perform alloc es)"

text \<open>The result of \<open>curl_easy_perform\<close> and what goes to \<open>stderr\<close>; \<open>strerror\<close> is libcurl's.\<close>

definition http_Execute :: "(int \<Rightarrow> bytes) \<Rightarrow> int \<Rightarrow> int \<times> bytes" where
  "http_Execute strerror res =
     (res, if res \<noteq> 0 then ''curl_easy_perform() failed: '' @ strerror res @ [CHR 0x0A] else [])"

definition http_Get :: "(nat \<Rightarrow> bool) \<Rightarrow> curl_event list \<Rightarrow> int \<Rightarrow> int \<Rightarrow> fault + Response" where
  "http_Get alloc es err response_code =
     bindE (curl_perform alloc es new_response) (\<lambda>r.
       Inr (if err = 0 then SetStatus response_code r else SetStatus err r))"

section \<open>What is collected\<close>

fun header_bytes :: "curl_event \<Rightarrow> bytes" where
  "header_bytes (HeaderData s) = s"
| "header_bytes (ContentData s) = []"

fun content_bytes :: "curl_event \<Rightarrow> bytes" where
  "content_bytes (HeaderData s) = []"
| "content_bytes (ContentData s) = s"

lemma curl_perform_collects:
  assumes "sink_ok alloc (head_buf r)" "sink_ok alloc (body_buf r)"
    "length (content (head_buf r)) + length (concat (map header_bytes es)) < MAX_SIZE"
    "length (content (body_buf r)) + length (concat (map content_bytes es)) < MAX_SIZE"
    "HeaderData [] \<notin> set es" "ContentData [] \<notin> set es"
  shows "\<exists>r'. curl_perform alloc es r = Inr r' \<and> content (head_buf r') = content (head_buf r) @ concat (map header_bytes es)
    \<and> content (body_buf r') = content (body_buf r) @ concat (map content_bytes es)"
  using assms
proof (induction es arbitrary: r)
  case Nil
  then show ?case by simp
next
  case (Cons e es)
  show ?case
  proof (cases e)
    case (HeaderData s)
    with Cons.prems have "length (content (head_buf r)) + length s < MAX_SIZE" "s \<noteq> []" by auto
    from sb_Write_text [OF Cons.prems(1) this] obtain b where
      b: "sb_Write alloc s (length s) (head_buf r) = Inr b" "sink_ok alloc b" "content b = content (head_buf r) @ s" by blast
    from Cons.IH [of "r\<lparr>head_buf := b\<rparr>"] Cons.prems HeaderData b show ?thesis
      by (auto simp: http_header_callback_def ios_clear_def)
  next
    case (ContentData s)
    with Cons.prems have "length (content (body_buf r)) + length s < MAX_SIZE" "s \<noteq> []" by auto
    from sb_Write_text [OF Cons.prems(2) this] obtain b where
      b: "sb_Write alloc s (length s) (body_buf r) = Inr b" "sink_ok alloc b" "content b = content (body_buf r) @ s" by blast
    from Cons.IH [of "r\<lparr>body_buf := b\<rparr>"] Cons.prems ContentData b show ?thesis
      by (auto simp: http_content_callback_def)
  qed
qed

text \<open>
  \<open>Get\<close> returns the bytes libcurl delivered, in order, with the response code, or
  libcurl's error as the status; the headers of an earlier response of the same request (a
  redirect that is followed) are not dropped when a new status line arrives, although the
  callback looks for one, and a delivery of no bytes makes it look for a terminator that need
  not be there.
\<close>

theorem http_get_collects:
  assumes "\<And>n. alloc n" "length (concat (map header_bytes es)) < MAX_SIZE" "length (concat (map content_bytes es)) < MAX_SIZE"
    "HeaderData [] \<notin> set es" "ContentData [] \<notin> set es"
  shows "(\<exists>r. http_Get alloc es err code = Inr r \<and> status_code r = (if err = 0 then code else err)
       \<and> content (head_buf r) = concat (map header_bytes es) \<and> content (body_buf r) = concat (map content_bytes es))
    \<and> http_Get alloc (es @ [ContentData []]) err code = Inl WildPointer"
proof -
  have ok: "sink_ok alloc (head_buf new_response)" "sink_ok alloc (body_buf new_response)"
    "content (head_buf new_response) = []" "content (body_buf new_response) = []"
    using assms(1) by (simp_all add: new_response_def sink_ok_def sbuf_wf_empty)
  from curl_perform_collects [OF ok(1,2) _ _ assms(4,5)] assms(2,3) ok(3,4) obtain r where
    r: "curl_perform alloc es new_response = Inr r" "content (head_buf r) = concat (map header_bytes es)"
    "content (body_buf r) = concat (map content_bytes es)" by auto
  have "curl_perform alloc (es @ es') x = bindE (curl_perform alloc es x) (curl_perform alloc es')" for es' x
    by (induction es arbitrary: x) (simp_all add: bindE_assoc cong: bindE_cong)
  then have "http_Get alloc (es @ [ContentData []]) err code = Inl WildPointer"
    using r(1) by (simp add: http_Get_def http_content_callback_def sb_Write_def strlen_def)
  with r show ?thesis by (simp add: http_Get_def SetStatus_def)
qed

theorem http_get_collects_witness:
  "\<exists>r. http_Get (\<lambda>_. True) [HeaderData ''HTTP/1.1 302'', HeaderData ''HTTP/1.1 200'', ContentData ''ok''] 0 200 = Inr r
     \<and> content (head_buf r) = ''HTTP/1.1 302HTTP/1.1 200'' \<and> content (body_buf r) = ''ok'' \<and> status_code r = 200"
  using http_get_collects [of "\<lambda>_. True" "[HeaderData ''HTTP/1.1 302'', HeaderData ''HTTP/1.1 200'', ContentData ''ok'']" 0 200]
  by (auto simp: MAX_SIZE_def)

end
