(* ===== verification/Processes.thy ===== *)
theory Processes
  imports Configs
begin

text \<open>
  Child processes, \<open>src/process.cc\<close> and \<open>include/process.h\<close>: construction and the vectors
  given to \<open>uv_spawn\<close>, \<open>Start\<close>, \<open>Kill\<close>, the timeout, the exit and close callbacks and the
  reading callbacks. The first part of the record is the object, the second what libuv holds
  of it: the request handle, the pipes, the timer. What the subscribers of a process are told
  is recorded in order.
\<close>

section \<open>The object\<close>

datatype notice =
    NData int bytes
  | NError int
  | NExit int int

record proc =
  p_args :: "bytes option list"
  p_env :: "bytes option list"
  p_timer :: bool
  p_running :: bool
  p_exit_code :: int
  p_term_signal :: int
  p_pipes :: "bool list"
  notices :: "notice list"
  p_deleted :: bool
  uv_has_loop :: bool
  uv_spawned :: "(bytes list \<times> bytes list option) option"
  uv_child :: bool
  uv_closing :: bool
  uv_pipes_closing :: nat
  uv_reading :: "int set"
  uv_timer :: bool
  uv_signals :: "int list"
  uv_exit :: "(int \<times> int) option"
  started :: bool

text \<open>
  \<open>uv_has_loop\<close> is \<open>request_.loop != NULL\<close>, \<open>uv_spawned\<close> the argument and environment
  vectors of the last \<open>uv_spawn\<close>, \<open>uv_child\<close> a running child whose exit was not delivered,
  \<open>uv_exit\<close> the status that was. \<open>started\<close> records that \<open>Start\<close> was called.
\<close>

definition SIGTERM :: int where
  "SIGTERM = 15"

text \<open>\<open>InitEnv\<close>, with the environment libuv reports, and the constructor.\<close>

definition environ_item :: "bytes \<times> bytes \<Rightarrow> bytes" where
  "environ_item kv = fst kv @ ''='' @ snd kv"

definition new_proc :: "(bytes \<times> bytes) list \<Rightarrow> bytes \<Rightarrow> proc" where
  "new_proc environ file = \<lparr>p_args = [Some file], p_env = map (\<lambda>kv. Some (environ_item kv)) environ, p_timer = False,
     p_running = False, p_exit_code = 0, p_term_signal = 0, p_pipes = [False, False, False], notices = [],
     p_deleted = False, uv_has_loop = False, uv_spawned = None, uv_child = False, uv_closing = False,
     uv_pipes_closing = 0, uv_reading = {}, uv_timer = False, uv_signals = [], uv_exit = None, started = False\<rparr>"

definition PushArg :: "bytes \<Rightarrow> bytes option \<Rightarrow> proc \<Rightarrow> proc" where
  "PushArg key value p =
     (let p1 = p\<lparr>p_args := p_args p @ [Some key]\<rparr>
      in case value of None \<Rightarrow> p1 | Some v \<Rightarrow> p1\<lparr>p_args := p_args p1 @ [Some v]\<rparr>)"

definition SetEnv :: "bytes \<Rightarrow> proc \<Rightarrow> proc" where
  "SetEnv e p = p\<lparr>p_env := p_env p @ [Some e]\<rparr>"

definition SetTimeout :: "int \<Rightarrow> proc \<Rightarrow> fault + proc" where
  "SetTimeout ms p =
     (if p_timer p then Inl AssertFailed
      else if ms > 0 then Inr (p\<lparr>p_timer := True, uv_timer := True\<rparr>) else Inr p)"

definition proc_Init :: "Command \<Rightarrow> proc \<Rightarrow> fault + proc" where
  "proc_Init cmd p =
     (let p1 = fold (\<lambda>a. PushArg a None) (cmd_args cmd) p;
          p2 = fold SetEnv (cmd_env cmd) p1
      in if cmd_timeout cmd > 0 then SetTimeout (cmd_timeout cmd) p2 else Inr p2)"

definition proc_Create :: "(bytes \<times> bytes) list \<Rightarrow> Command \<Rightarrow> fault + proc" where
  "proc_Create environ cmd = proc_Init cmd (new_proc environ (cmd_file cmd))"

section \<open>Exit\<close>

text \<open>
  \<open>OnProcessHandleClose\<close>: the subscribers are told, then the object is deleted, its timer
  closed with it. The pipes are part of the object: freeing them while libuv still has to
  finish closing them is a use after free.
\<close>

definition proc_delete :: "proc \<Rightarrow> proc" where
  proc_delete_eq [simp]: "proc_delete p = p\<lparr>p_deleted := True, uv_timer := False\<rparr>"

definition OnProcessHandleClose :: "proc \<Rightarrow> fault + proc" where
  "OnProcessHandleClose p =
     (if p_deleted p then Inl UseAfterFree
      else let p1 = p\<lparr>notices := notices p @ [NExit (p_exit_code p) (p_term_signal p)]\<rparr>
           in if uv_pipes_closing p1 > 0 then Inl UseAfterFree
              else Inr (proc_delete p1))"

text \<open>\<open>uv_close\<close> of a handle that is closing already is an assertion failure of libuv.\<close>

definition close_pipes :: "proc \<Rightarrow> fault + proc" where
  "close_pipes p =
     (let n = length (filter id (p_pipes p))
      in if n > 0 \<and> uv_closing p then Inl AssertFailed
         else Inr (p\<lparr>uv_pipes_closing := uv_pipes_closing p + n, uv_reading := {}\<rparr>))"

definition OnProcessExit :: "int \<Rightarrow> int \<Rightarrow> proc \<Rightarrow> fault + proc" where
  "OnProcessExit exit_code term_signal p =
     bindE (close_pipes (p\<lparr>p_running := False, p_exit_code := exit_code, p_term_signal := term_signal\<rparr>)) (\<lambda>p1.
       if uv_has_loop p1
       then if uv_closing p1 then Inl AssertFailed else Inr (p1\<lparr>uv_closing := True\<rparr>)
       else OnProcessHandleClose p1)"

definition IsRunning :: "proc \<Rightarrow> bool" where
  IsRunning_iff [simp]: "IsRunning p \<longleftrightarrow> p_running p"

definition proc_Kill :: "int \<Rightarrow> proc \<Rightarrow> proc" where
  "proc_Kill signal p = p\<lparr>uv_signals := uv_signals p @ [signal]\<rparr>"

text \<open>The lambda of \<open>SetTimeout\<close>.\<close>

definition timeout_tick :: "proc \<Rightarrow> fault + proc" where
  "timeout_tick p =
     (let p1 = p\<lparr>uv_timer := False\<rparr>
      in if IsRunning p1 then Inr (proc_Kill SIGTERM p1) else OnProcessExit (- 2) 0 p1)"

section \<open>Starting\<close>

text \<open>
  What libuv answers while a process is started: the three \<open>uv_pipe_init\<close>, \<open>uv_spawn\<close>
  (with whether a failing one has initialised the handle) and the two \<open>uv_read_start\<close>.
\<close>

record spawn_result =
  pipe_errs :: "int list"
  spawn_err :: int
  spawn_has_loop :: bool
  read_err1 :: int
  read_err2 :: int

fun InitStdio :: "int list \<Rightarrow> nat \<Rightarrow> proc \<Rightarrow> int \<times> proc" where
  "InitStdio [] i p = (0, p)"
| "InitStdio (e # es) i p = (if e \<noteq> 0 then (e, p) else InitStdio es (i + 1) (p\<lparr>p_pipes := (p_pipes p)[i := True]\<rparr>))"

text \<open>The C vectors: what is before the first null pointer.\<close>

definition c_vector :: "bytes option list \<Rightarrow> bytes list" where
  "c_vector xs = map the (takeWhile (\<lambda>x. x \<noteq> None) xs)"

definition Spawn :: "spawn_result \<Rightarrow> proc \<Rightarrow> int \<times> proc" where
  "Spawn r p =
     (let p1 = p\<lparr>p_args := p_args p @ [None], p_env := p_env p @ [None]\<rparr>;
          envp = (if length (p_env p1) > 1 then Some (c_vector (p_env p1)) else None);
          (err, p2) = InitStdio (pipe_errs r) 0 p1
      in if err \<noteq> 0 then (err, p2)
         else let p3 = p2\<lparr>p_running := True, uv_spawned := Some (c_vector (p_args p2), envp)\<rparr>
              in if spawn_err r \<noteq> 0
                 then (spawn_err r, p3\<lparr>p_running := False, uv_has_loop := spawn_has_loop r\<rparr>)
                 else let p4 = p3\<lparr>uv_has_loop := True, uv_child := True\<rparr>
                      in if read_err1 r \<noteq> 0 then (read_err1 r, p4)
                         else let p5 = p4\<lparr>uv_reading := {1}\<rparr>
                              in if read_err2 r \<noteq> 0 then (read_err2 r, p5)
                                 else (0, p5\<lparr>uv_reading := {1, 2}\<rparr>))"

definition proc_Start :: "spawn_result \<Rightarrow> proc \<Rightarrow> fault + bool \<times> proc" where
  "proc_Start r p =
     (let (err, p1) = Spawn r (p\<lparr>started := True\<rparr>)
      in if err = 0 then Inr (True, p1)
         else let p2 = p1\<lparr>notices := notices p1 @ [NError err]\<rparr>
              in if p_running p2 then Inr (False, proc_Kill SIGTERM p2)
                 else bindE (OnProcessExit (- 1) (- 1) p2) (\<lambda>p3. Inr (False, p3)))"

section \<open>Reading and writing\<close>

definition proc_OnRead :: "int \<Rightarrow> int \<Rightarrow> bytes \<Rightarrow> proc \<Rightarrow> fault + proc" where
  "proc_OnRead fd nread base p =
     (if p_deleted p then Inl UseAfterFree
      else if nread \<le> 0 \<and> nread \<noteq> UV_EOF then Inr (p\<lparr>notices := notices p @ [NError nread]\<rparr>)
      else if nread > 0 then Inr (p\<lparr>notices := notices p @ [NData fd (take (nat nread) base)]\<rparr>)
      else Inr p)"

definition proc_OnReadStdout :: "int \<Rightarrow> bytes \<Rightarrow> proc \<Rightarrow> fault + proc" where
  "proc_OnReadStdout = proc_OnRead 1"

definition proc_OnReadStderr :: "int \<Rightarrow> bytes \<Rightarrow> proc \<Rightarrow> fault + proc" where
  "proc_OnReadStderr = proc_OnRead 2"

text \<open>
  \<open>Input\<close> hands a copy of the bytes to \<open>uv_write\<close> in a \<open>WriteRequest\<close> from \<open>malloc\<close>, whose
  member \<open>proc\<close> it does not set, and returns what \<open>uv_write\<close> does; the callback uses the
  member when the write has failed.
\<close>

datatype proc_pointer = Uninitialised | ThisProcess

record WriteRequest =
  wr_buf :: bytes
  wr_proc :: proc_pointer

definition proc_Input :: "int \<Rightarrow> bytes \<Rightarrow> proc \<Rightarrow> fault + int \<times> WriteRequest" where
  "proc_Input write_err s p =
     (if p_deleted p then Inl UseAfterFree else Inr (write_err, \<lparr>wr_buf = s, wr_proc = Uninitialised\<rparr>))"

definition OnWriteAfter :: "int \<Rightarrow> WriteRequest \<Rightarrow> proc \<Rightarrow> fault + proc" where
  "OnWriteAfter status wr p =
     (if status \<noteq> 0
      then (case wr_proc wr of
              Uninitialised \<Rightarrow> Inl WildPointer
            | ThisProcess \<Rightarrow> if p_deleted p then Inl UseAfterFree else Inr (p\<lparr>notices := notices p @ [NError status]\<rparr>))
      else Inr p)"

text \<open>A write to a child that fails, as when the child has closed its standard input, uses a wild pointer.\<close>

lemma failed_input_wild:
  assumes "proc_Input 0 s p = Inr (r, wr)" "status \<noteq> 0"
  shows "OnWriteAfter status wr q = Inl WildPointer"
  using assms by (auto simp: proc_Input_def OnWriteAfter_def split: if_splits)

section \<open>Events\<close>

datatype pevent =
    PStart spawn_result
  | PKill int
  | PTick
  | PChildExit int int
  | PRequestClosed
  | PPipeClosed
  | PRead int int bytes

fun phandle :: "pevent \<Rightarrow> proc \<Rightarrow> fault + proc" where
  "phandle (PStart r) p = bindE (proc_Start r p) (\<lambda>(ok, q). Inr q)"
| "phandle (PKill s) p = Inr (proc_Kill s p)"
| "phandle PTick p = timeout_tick p"
| "phandle (PChildExit c s) p = OnProcessExit c s (p\<lparr>uv_child := False, uv_exit := Some (c, s)\<rparr>)"
| "phandle PRequestClosed p = OnProcessHandleClose (p\<lparr>uv_closing := False\<rparr>)"
| "phandle PPipeClosed p = Inr (p\<lparr>uv_pipes_closing := uv_pipes_closing p - 1\<rparr>)"
| "phandle (PRead fd n bs) p = (if fd = 1 then proc_OnReadStdout n bs p else proc_OnReadStderr n bs p)"

text \<open>
  When libuv and the owner of a process cause an event: \<open>Start\<close> and \<open>Kill\<close> are called on a
  live object, \<open>Start\<close> at most once; the exit of a child is delivered once; close callbacks
  follow \<open>uv_close\<close>; timers do not run between \<open>uv_close\<close> and the close callback, which
  libuv calls at the end of the same loop iteration; a pipe is read until it is closed.
\<close>

fun pallowed :: "proc \<Rightarrow> pevent \<Rightarrow> bool" where
  "pallowed p (PStart r) = (\<not> p_deleted p \<and> \<not> started p \<and> length (pipe_errs r) = 3)"
| "pallowed p (PKill s) = (\<not> p_deleted p)"
| "pallowed p PTick = (uv_timer p \<and> \<not> uv_closing p)"
| "pallowed p (PChildExit c s) = uv_child p"
| "pallowed p PRequestClosed = uv_closing p"
| "pallowed p PPipeClosed = (uv_pipes_closing p > 0)"
| "pallowed p (PRead fd n bs) = (fd \<in> uv_reading p \<and> n \<le> int (length bs))"

text \<open>
  What the code relies on beyond that: the pipes finish closing before the request does, and
  a start that fails before the handle exists has opened no pipe.
\<close>

fun porderly :: "proc \<Rightarrow> pevent \<Rightarrow> bool" where
  "porderly p (PStart r) = (hd (pipe_errs r) \<noteq> 0 \<or> (list_all (\<lambda>e. e = 0) (pipe_errs r)
     \<and> (spawn_err r \<noteq> 0 \<longrightarrow> spawn_has_loop r)))"
| "porderly p PRequestClosed = (uv_pipes_closing p = 0)"
| "porderly p _ = True"

definition pinit :: "(bytes \<times> bytes) list \<Rightarrow> Command \<Rightarrow> proc \<Rightarrow> bool" where
  "pinit environ cmd p \<longleftrightarrow> proc_Create environ cmd = Inr p"

definition pstep :: "proc \<Rightarrow> pevent \<Rightarrow> proc \<Rightarrow> bool" where
  "pstep p e q \<longleftrightarrow> pallowed p e \<and> porderly p e \<and> phandle e p = Inr q"

definition pstep_any :: "proc \<Rightarrow> pevent \<Rightarrow> proc \<Rightarrow> bool" where
  "pstep_any p e q \<longleftrightarrow> pallowed p e \<and> phandle e p = Inr q"

section \<open>The life cycle\<close>

fun exit_list :: "notice list \<Rightarrow> (int \<times> int) list" where
  "exit_list [] = []"
| "exit_list (NExit c s # ns) = (c, s) # exit_list ns"
| "exit_list (n # ns) = exit_list ns"

abbreviation exits :: "proc \<Rightarrow> (int \<times> int) list" where
  "exits p \<equiv> exit_list (notices p)"

text \<open>The status a process reports: its child's, or that it could not start, or that it timed out unstarted.\<close>

fun status_of :: "(int \<times> int) option \<Rightarrow> bool \<Rightarrow> int \<times> int" where
  "status_of (Some cs) st = cs"
| "status_of None st = (if st then (- 1, - 1) else (- 2, 0))"

definition final_status :: "proc \<Rightarrow> int \<times> int" where
  "final_status p = status_of (uv_exit p) (started p)"

text \<open>The four phases: not started, running, closing, deleted.\<close>

definition idle :: "proc \<Rightarrow> bool" where
  "idle p \<longleftrightarrow> \<not> started p \<and> \<not> p_running p \<and> \<not> uv_child p \<and> \<not> uv_closing p \<and> uv_pipes_closing p = 0 \<and> uv_reading p = {}
     \<and> p_pipes p = [False, False, False] \<and> \<not> uv_has_loop p \<and> uv_exit p = None \<and> uv_spawned p = None \<and> \<not> p_deleted p
     \<and> exits p = []"

definition live :: "proc \<Rightarrow> bool" where
  "live p \<longleftrightarrow> started p \<and> p_running p \<and> uv_child p \<and> \<not> uv_closing p \<and> uv_pipes_closing p = 0 \<and> uv_has_loop p
     \<and> uv_exit p = None \<and> \<not> p_deleted p \<and> exits p = []"

definition finishing :: "proc \<Rightarrow> bool" where
  "finishing p \<longleftrightarrow> started p \<and> \<not> p_running p \<and> \<not> uv_child p \<and> uv_closing p \<and> uv_reading p = {} \<and> \<not> p_deleted p
     \<and> exits p = [] \<and> (p_exit_code p, p_term_signal p) = final_status p"

definition gone :: "proc \<Rightarrow> bool" where
  "gone p \<longleftrightarrow> p_deleted p \<and> \<not> uv_child p \<and> \<not> uv_closing p \<and> uv_pipes_closing p = 0 \<and> uv_reading p = {} \<and> \<not> uv_timer p
     \<and> (\<exists>before. notices p = before @ [NExit (fst (final_status p)) (snd (final_status p))]) \<and> exits p = [final_status p]"

definition pinv :: "proc \<Rightarrow> bool" where
  "pinv p \<longleftrightarrow> idle p \<or> live p \<or> finishing p \<or> gone p"

lemmas phase_defs = idle_def live_def finishing_def gone_def

lemma exit_list_append [simp]: "exit_list (ns @ ms) = exit_list ns @ exit_list ms"
  by (induction ns rule: exit_list.induct) simp_all

lemma InitStdio_ok: "list_all (\<lambda>e. e = 0) es \<Longrightarrow> length es = 3 \<Longrightarrow> p_pipes p = [False, False, False] \<Longrightarrow>
    InitStdio es 0 p = (0, p\<lparr>p_pipes := [True, True, True]\<rparr>)"
  by (auto simp: length_Suc_conv eval_nat_numeral)

lemma InitStdio_fails: "es = e # es' \<Longrightarrow> e \<noteq> 0 \<Longrightarrow> InitStdio es i p = (e, p)"
  by simp

lemma final_status_cong: "uv_exit p = uv_exit q \<Longrightarrow> started p = started q \<Longrightarrow> final_status p = final_status q"
  by (simp add: final_status_def)

lemma idle_exit:
  assumes "\<not> uv_has_loop p" "p_pipes p = [False, False, False]" "\<not> p_deleted p" "\<not> uv_child p" "\<not> uv_closing p"
    "uv_pipes_closing p = 0" "exits p = []" "final_status p = (c, s)"
  shows "\<exists>q. OnProcessExit c s p = Inr q \<and> gone q \<and> uv_spawned q = uv_spawned p"
proof -
  have "final_status (p\<lparr>p_running := False, p_exit_code := c, p_term_signal := s, uv_pipes_closing := 0, uv_reading := {},
      notices := notices p @ [NExit c s], p_deleted := True, uv_timer := False\<rparr>) = (c, s)"
    using assms(8) by (simp add: final_status_def)
  with assms show ?thesis
    by (simp add: OnProcessExit_def close_pipes_def OnProcessHandleClose_def gone_def)
qed

lemma live_exit:
  assumes "uv_has_loop p" "\<not> uv_closing p" "\<not> p_deleted p" "started p" "\<not> uv_child p" "exits p = []" "final_status p = (c, s)"
  shows "\<exists>q. OnProcessExit c s p = Inr q \<and> finishing q \<and> uv_spawned q = uv_spawned p"
  using assms by (simp add: OnProcessExit_def close_pipes_def finishing_def final_status_def)

lemma Start_phases:
  assumes "idle p" "length (pipe_errs r) = 3" "porderly p (PStart r)"
  shows "\<exists>ok q. proc_Start r p = Inr (ok, q) \<and> pinv q \<and> (ok \<longrightarrow> live q)"
proof -
  obtain e es where es: "pipe_errs r = e # es" using assms(2) by (cases "pipe_errs r") auto
  have p: "\<not> uv_has_loop p" "p_pipes p = [False, False, False]" "\<not> p_deleted p" "\<not> uv_child p" "\<not> uv_closing p"
    "uv_pipes_closing p = 0" "exits p = []" "uv_exit p = None" "\<not> p_running p"
    using assms(1) by (simp_all add: idle_def)
  show ?thesis
  proof (cases "e = 0")
    case False
    let ?p = "p\<lparr>started := True, p_args := p_args p @ [None], p_env := p_env p @ [None], notices := notices p @ [NError e]\<rparr>"
    have "proc_Start r p = bindE (OnProcessExit (- 1) (- 1) ?p) (\<lambda>q. Inr (False, q))"
      using False p(9) by (simp add: proc_Start_def Spawn_def Let_def es InitStdio_fails)
    moreover have "final_status ?p = (- 1, - 1)" using p(8) by (simp add: final_status_def)
    ultimately show ?thesis using idle_exit [of ?p "- 1" "- 1"] p by (auto simp: pinv_def)
  next
    case True
    with assms(3) es have z: "list_all (\<lambda>e. e = 0) (pipe_errs r)" and l: "spawn_err r \<noteq> 0 \<longrightarrow> spawn_has_loop r" by auto
    note st = InitStdio_ok [OF z assms(2)]
    show ?thesis
    proof (cases "spawn_err r = 0")
      case True
      with p st show ?thesis
        by (auto simp: proc_Start_def Spawn_def Let_def proc_Kill_def pinv_def live_def split: if_splits)
    next
      case False
      let ?e = "if length (p_env p @ [None]) > 1 then Some (c_vector (p_env p @ [None])) else None"
      let ?p = "p\<lparr>started := True, p_args := p_args p @ [None], p_env := p_env p @ [None], p_pipes := [True, True, True],
         p_running := False, uv_spawned := Some (c_vector (p_args p @ [None]), ?e), uv_has_loop := True,
         notices := notices p @ [NError (spawn_err r)]\<rparr>"
      have "proc_Start r p = bindE (OnProcessExit (- 1) (- 1) ?p) (\<lambda>q. Inr (False, q))"
        using False p l st by (cases p) (simp add: proc_Start_def Spawn_def Let_def)
      moreover have "final_status ?p = (- 1, - 1)" using p(8) by (simp add: final_status_def)
      ultimately show ?thesis using live_exit [of ?p "- 1" "- 1"] p by (auto simp: pinv_def)
    qed
  qed
qed

lemma finish_gone:
  assumes "finishing p" "uv_pipes_closing p = 0"
  shows "\<exists>q. OnProcessHandleClose (p\<lparr>uv_closing := False\<rparr>) = Inr q \<and> gone q"
proof -
  let ?q = "p\<lparr>uv_closing := False, notices := notices p @ [NExit (p_exit_code p) (p_term_signal p)], p_deleted := True, uv_timer := False\<rparr>"
  have "final_status ?q = final_status p" by (simp add: final_status_def)
  moreover have "(p_exit_code p, p_term_signal p) = final_status p" using assms(1) by (simp add: finishing_def)
  moreover have "OnProcessHandleClose (p\<lparr>uv_closing := False\<rparr>) = Inr ?q"
    using assms by (simp add: OnProcessHandleClose_def finishing_def)
  ultimately show ?thesis using assms by (simp add: gone_def finishing_def) (metis fst_conv snd_conv)
qed

lemma pinv_handle:
  assumes "pinv p" "pallowed p e" "porderly p e"
  shows "\<exists>q. phandle e p = Inr q \<and> pinv q"
proof (cases e)
  case (PStart r)
  then have "idle p" using assms(1,2) by (auto simp: pinv_def phase_defs)
  from Start_phases [OF this, of r] assms PStart show ?thesis by auto
next
  case (PKill s)
  with assms show ?thesis
    by (auto simp: pinv_def proc_Kill_def phase_defs final_status_def)
next
  case PTick
  have "idle p \<or> live p" using assms(1,2) PTick by (auto simp: pinv_def finishing_def gone_def)
  then show ?thesis
  proof
    assume i: "idle p"
    let ?p = "p\<lparr>uv_timer := False\<rparr>"
    have "final_status ?p = (- 2, 0)" using i by (simp add: final_status_def idle_def)
    with idle_exit [of ?p "- 2" 0] i PTick show ?thesis
      by (auto simp: timeout_tick_def pinv_def idle_def)
  next
    assume "live p"
    with PTick show ?thesis by (auto simp: timeout_tick_def proc_Kill_def pinv_def live_def)
  qed
next
  case (PChildExit c s)
  let ?p = "p\<lparr>uv_child := False, uv_exit := Some (c, s)\<rparr>"
  have "live p" using assms(1,2) PChildExit by (auto simp: pinv_def phase_defs)
  moreover have "final_status ?p = (c, s)" by (simp add: final_status_def)
  ultimately show ?thesis using live_exit [of ?p c s] PChildExit by (auto simp: pinv_def live_def)
next
  case PRequestClosed
  then have "finishing p" using assms(1,2) by (auto simp: pinv_def phase_defs)
  with finish_gone [of p] assms(3) PRequestClosed show ?thesis by (auto simp: pinv_def)
next
  case PPipeClosed
  have "finishing p" using assms(1,2) PPipeClosed by (auto simp: pinv_def phase_defs)
  then have "finishing (p\<lparr>uv_pipes_closing := uv_pipes_closing p - 1\<rparr>)" by (simp add: finishing_def final_status_def)
  with PPipeClosed show ?thesis by (simp add: pinv_def)
next
  case (PRead fd n bs)
  have l: "live p" using assms(1,2) PRead by (auto simp: pinv_def phase_defs)
  then have "\<exists>q. proc_OnRead fd' n bs p = Inr q \<and> live q" for fd'
    by (auto simp: proc_OnRead_def live_def)
  with PRead show ?thesis by (auto simp: pinv_def proc_OnReadStdout_def proc_OnReadStderr_def)
qed

lemma fold_PushArg: "fold (\<lambda>a. PushArg a None) as p = p\<lparr>p_args := p_args p @ map Some as\<rparr>"
  by (induction as arbitrary: p) (simp_all add: PushArg_def Let_def)

lemma fold_SetEnv: "fold SetEnv es p = p\<lparr>p_env := p_env p @ map Some es\<rparr>"
  by (induction es arbitrary: p) (simp_all add: SetEnv_def)

lemma proc_Create_eq:
  "proc_Create environ cmd = Inr ((new_proc environ (cmd_file cmd))\<lparr>
     p_args := map Some (cmd_file cmd # cmd_args cmd),
     p_env := map Some (map environ_item environ @ cmd_env cmd),
     p_timer := cmd_timeout cmd > 0, uv_timer := cmd_timeout cmd > 0\<rparr>)"
  by (simp add: proc_Create_def proc_Init_def fold_PushArg fold_SetEnv SetTimeout_def new_proc_def Let_def)

lemma pinit_idle: "pinit environ cmd p \<Longrightarrow> idle p"
  by (auto simp: pinit_def proc_Create_eq new_proc_def idle_def)

interpretation process_sys: invariant_system "pinit environ cmd" pstep pinv for environ cmd
proof unfold_locales
  show "pinv s" if "pinit environ cmd s" for s environ cmd
    using pinit_idle [OF that] by (simp add: pinv_def)
  show "pinv t" if "pinv s" "pstep s e t" for s e t
    using pinv_handle [of s e] that by (auto simp: pstep_def)
qed

section \<open>Properties\<close>


definition sample_cmd :: Command where
  "sample_cmd = \<lparr>cmd_file = ''nc'', cmd_args = [''-z''], cmd_env = [''A=1''], cmd_cwd = [], cmd_timeout = 500\<rparr>"

definition sample_start :: spawn_result where
  "sample_start = \<lparr>pipe_errs = [0, 0, 0], spawn_err = 0, spawn_has_loop = True, read_err1 = 0, read_err2 = 0\<rparr>"

definition sample_proc :: proc where
  "sample_proc = (new_proc [] ''nc'')\<lparr>p_args := [Some ''nc'', Some ''-z''], p_env := [Some ''A=1''],
     p_timer := True, uv_timer := True\<rparr>"

lemma sample_init: "pinit [] sample_cmd sample_proc"
  by (simp add: pinit_def proc_Create_eq sample_cmd_def sample_proc_def new_proc_def)

lemma pstep_run:
  assumes "exec_run (\<lambda>p e. pallowed p e \<and> porderly p e) phandle es p = Some q" "pinit environ cmd p"
  shows "reach (pinit environ cmd) pstep q"
proof -
  have "run pstep p es q" using assms(1) by (rule exec_run_run) (simp add: pstep_def)
  then show ?thesis using reach_init [of "pinit environ cmd", OF assms(2)] by (rule run_reach)
qed


text \<open>
  Nothing in the code makes the pipes finish closing before the request does: the exit
  callback closes the three pipes without a close callback and the request with one that
  deletes the object the pipes are part of, so when libuv finishes the request first it goes
  on with pipes that have been freed.
\<close>

theorem process_close_race:
  assumes "pinit environ cmd p" "pipe_errs r = [0, 0, 0]" "spawn_err r = 0" "read_err1 r = 0" "read_err2 r = 0"
  shows "\<exists>q. run pstep_any p [PStart r, PChildExit c s] q \<and> pallowed q PRequestClosed \<and> phandle PRequestClosed q = Inl UseAfterFree"
proof -
  have i: "idle p" using assms(1) by (rule pinit_idle)
  have "\<exists>q. exec_run pallowed phandle [PStart r, PChildExit c s] p = Some q \<and> pallowed q PRequestClosed
      \<and> phandle PRequestClosed q = Inl UseAfterFree"
    using assms(2-5) i
    by (simp add: proc_Start_def Spawn_def Let_def OnProcessExit_def close_pipes_def OnProcessHandleClose_def idle_def)
  then obtain q where q: "exec_run pallowed phandle [PStart r, PChildExit c s] p = Some q" "pallowed q PRequestClosed"
    "phandle PRequestClosed q = Inl UseAfterFree" by blast
  have "run pstep_any p [PStart r, PChildExit c s] q" using q(1) by (rule exec_run_run) (simp add: pstep_any_def)
  with q(2,3) show ?thesis by blast
qed

theorem process_close_race_witness:
  "\<exists>q. run pstep_any sample_proc [PStart sample_start, PChildExit 0 0] q \<and> phandle PRequestClosed q = Inl UseAfterFree"
  using process_close_race [OF sample_init, of sample_start 0 0] by (auto simp: sample_start_def)

text \<open>
  A process is spawned with its file and arguments as argument vector, in the order of the
  configuration, and with the environment of the program followed by that of the command; an
  empty environment altogether is not passed on.
\<close>

theorem spawn_vectors:
  assumes "pinit environ cmd p" "phandle (PStart r) p = Inr q" "uv_spawned q = Some (argv, envp)"
  shows "argv = cmd_file cmd # cmd_args cmd
    \<and> envp = (if environ = [] \<and> cmd_env cmd = [] then None else Some (map environ_item environ @ cmd_env cmd))"
proof -
  have vec: "c_vector (map Some xs @ [None]) = xs" for xs
    by (induction xs) (simp_all add: c_vector_def)
  have v2: "c_vector (Some x # map Some xs @ [None]) = x # xs" for x xs
    using vec [of "x # xs"] by simp
  have p: "p_args p = map Some (cmd_file cmd # cmd_args cmd)" "p_env p = map Some (map environ_item environ @ cmd_env cmd)"
    "uv_spawned p = None"
    using assms(1) by (auto simp: pinit_def proc_Create_eq new_proc_def)
  have sp: "uv_spawned q' = uv_spawned p'" if "OnProcessExit c s p' = Inr q'" for c s p' q'
    using that by (auto simp: OnProcessExit_def close_pipes_def OnProcessHandleClose_def Let_def bindE_Inr_iff split: if_splits)
  have io: "p_args p2 = p_args p1 \<and> p_env p2 = p_env p1 \<and> uv_spawned p2 = uv_spawned p1"
    if "InitStdio es i p1 = (e, p2)" for es i e p1 p2
    using that by (induction es i p1 rule: InitStdio.induct) (auto split: if_splits)
  let ?argv = "cmd_file cmd # cmd_args cmd"
  let ?envp = "if environ = [] \<and> cmd_env cmd = [] then None else Some (map environ_item environ @ cmd_env cmd)"
  obtain err p1 where S: "Spawn r (p\<lparr>started := True\<rparr>) = (err, p1)" by (cases "Spawn r (p\<lparr>started := True\<rparr>)")
  have "uv_spawned p1 = None \<or> uv_spawned p1 = Some (?argv, ?envp)"
    using S p vec [of "map environ_item environ @ cmd_env cmd"]
    by (auto simp: Spawn_def Let_def v2 map_map [symmetric] simp del: map_map split: prod.splits if_splits dest!: io)
  moreover have "uv_spawned q = uv_spawned p1"
    using assms(2) S by (auto simp: proc_Start_def Let_def proc_Kill_def bindE_Inr_iff split: if_splits dest!: sp)
  ultimately show ?thesis using assms(3) by auto
qed

theorem spawn_vectors_witness:
  "\<exists>q. phandle (PStart sample_start) sample_proc = Inr q \<and> uv_spawned q = Some ([''nc'', ''-z''], Some [''A=1''])"
proof -
  obtain q where q: "phandle (PStart sample_start) sample_proc = Inr q" "uv_spawned q \<noteq> None"
    by (simp add: sample_proc_def new_proc_def sample_start_def proc_Start_def Spawn_def Let_def)
  then obtain argv envp where "uv_spawned q = Some (argv, envp)" by auto
  with spawn_vectors [OF sample_init q(1) this] q(1) show ?thesis by (auto simp: sample_cmd_def)
qed

end
