(* ===== verification/ProcessManagers.thy ===== *)
theory ProcessManagers
  imports Processes "HOL-Library.Word"
begin

text \<open>
  The process manager, \<open>src/process_manager.cc\<close>: the app table, \<open>Require\<close>, \<open>Check\<close>,
  \<open>Start\<close>, \<open>CheckPreamble\<close>, \<open>ClearCallbacks\<close> and the lambdas they register. The closures the
  code creates are data: a callback waiting on an app is a client's or that of a preamble of
  another app, a continuation is one of the three \<open>Then\<close> objects. The methods call each other
  through them without a bound the code would state, so they run on fuel, one unit for each
  level of nested calls: \<open>None\<close> is a call that needs more of it.
\<close>

section \<open>Outcomes\<close>

type_synonym 'a outcome = "(fault + 'a) option"

definition bindP :: "'a outcome \<Rightarrow> ('a \<Rightarrow> 'b outcome) \<Rightarrow> 'b outcome" where
  "bindP r f = (case r of None \<Rightarrow> None | Some (Inl e) \<Rightarrow> Some (Inl e) | Some (Inr x) \<Rightarrow> f x)"

abbreviation ret :: "'a \<Rightarrow> 'a outcome" where
  "ret x \<equiv> Some (Inr x)"

lemma bindP_simps [simp]: "bindP None f = None" "bindP (Some (Inl e)) f = Some (Inl e)" "bindP (Some (Inr x)) f = f x"
  by (simp_all add: bindP_def)

lemma bindP_ret_iff: "bindP r f = Some (Inr y) \<longleftrightarrow> (\<exists>x. r = Some (Inr x) \<and> f x = Some (Inr y))"
  by (auto simp: bindP_def split: option.splits sum.splits)

section \<open>The state\<close>

datatype callback = Client nat | PreambleOf nat

datatype kont = StartThen nat | ReqThen nat | TickThen nat nat

datatype pkind = AppProcess nat | CheckProcess nat kont

record mapp =
  m_process :: "nat option"
  callbacks :: "callback list"
  restart :: bool
  pending_preamble :: int
  error_preamble :: int
  require_start_time :: "64 word"
  checker_timer :: "nat option"
  is_checking :: bool

definition new_mapp :: mapp where
  "new_mapp = \<lparr>m_process = None, callbacks = [], restart = False, pending_preamble = 0, error_preamble = 0,
     require_start_time = 0, checker_timer = None, is_checking = False\<rparr>"

text \<open>
  \<open>app_map_\<close> itself, by the address of the configuration: \<open>GetApp\<close> makes the entry it does not
  find. The table with all entries it would make, \<open>all_apps\<close>, is what the state below has.
\<close>

definition pm_GetApp :: "nat \<Rightarrow> (nat \<Rightarrow> mapp option) \<Rightarrow> mapp \<times> (nat \<Rightarrow> mapp option)" where
  "pm_GetApp c m = (case m c of Some a \<Rightarrow> (a, m) | None \<Rightarrow> (new_mapp, m(c \<mapsto> new_mapp)))"

definition all_apps :: "(nat \<Rightarrow> mapp option) \<Rightarrow> nat \<Rightarrow> mapp" where
  "all_apps m c = (case m c of Some a \<Rightarrow> a | None \<Rightarrow> new_mapp)"

lemma pm_GetApp_all:
  "fst (pm_GetApp c m) = all_apps m c" "all_apps (snd (pm_GetApp c m)) = all_apps m" "snd (pm_GetApp c m) c = Some (fst (pm_GetApp c m))"
  by (auto simp: pm_GetApp_def all_apps_def fun_eq_iff split: option.splits)

text \<open>
  What the outside sees, in order: a client told a result, a process killed, and the four
  kinds of observers notified.
\<close>

datatype pm_log =
    Called nat nat "nat option" int
  | Killed nat
  | ObservedStart nat
  | ObservedError nat int
  | ObservedExit nat int int

text \<open>
  \<open>app\<close> is \<open>app_map_\<close> with the entries \<open>GetApp\<close> would create for the configurations it has
  not seen; processes and timers are objects on the heap, absent once deleted, a timer with
  the app whose start made it and whether it is closing.
\<close>

record pm =
  app :: "nat \<Rightarrow> mapp"
  procs :: "nat \<Rightarrow> pkind option"
  next_pid :: nat
  timers :: "nat \<Rightarrow> (nat \<times> bool) option"
  next_tid :: nat
  now :: "64 word"
  out :: "pm_log list"

definition new_pm :: pm where
  "new_pm = \<lparr>app = (\<lambda>_. new_mapp), procs = (\<lambda>_. None), next_pid = 0, timers = (\<lambda>_. None), next_tid = 0, now = 0, out = []\<rparr>"

definition upd :: "nat \<Rightarrow> (mapp \<Rightarrow> mapp) \<Rightarrow> pm \<Rightarrow> pm" where
  "upd a f s = s\<lparr>app := (app s)(a := f (app s a))\<rparr>"

definition emit :: "pm_log \<Rightarrow> pm \<Rightarrow> pm" where
  "emit l s = s\<lparr>out := out s @ [l]\<rparr>"

text \<open>
  What starting a process can come to (see the process theory): it runs; it reports an error
  at once and its exit later; it reports an error and its exit, and is gone, before \<open>Start\<close>
  returns.
\<close>

datatype start_outcome = Started | FailsLate int | FailsNow int

text \<open>The configuration, by app, and what the operating system will do with each process.\<close>

record pm_env =
  conf :: "nat \<Rightarrow> App"
  spawn :: "nat \<Rightarrow> start_outcome"

definition int_of_int64 :: "int \<Rightarrow> int" where
  "int_of_int64 x = sint (word_of_int x :: 32 word)"

definition new_process :: "pkind \<Rightarrow> pm \<Rightarrow> nat \<times> pm" where
  "new_process k s = (next_pid s, s\<lparr>procs := (procs s)(next_pid s \<mapsto> k), next_pid := next_pid s + 1\<rparr>)"

definition delete_process :: "nat \<Rightarrow> pm \<Rightarrow> pm" where
  "delete_process pid s = s\<lparr>procs := (procs s)(pid := None)\<rparr>"

definition new_timer :: "nat \<Rightarrow> pm \<Rightarrow> nat \<times> pm" where
  "new_timer a s = (next_tid s, s\<lparr>timers := (timers s)(next_tid s \<mapsto> (a, False)), next_tid := next_tid s + 1\<rparr>)"

text \<open>\<open>Handle::Close\<close> and \<open>Process::Kill\<close> on objects that may be gone.\<close>

definition timer_Close :: "nat \<Rightarrow> pm \<Rightarrow> pm outcome" where
  "timer_Close t s = (case timers s t of None \<Rightarrow> Some (Inl UseAfterFree)
     | Some (a, c) \<Rightarrow> ret (s\<lparr>timers := (timers s)(t \<mapsto> (a, True))\<rparr>))"

definition process_Kill :: "nat \<Rightarrow> pm \<Rightarrow> pm outcome" where
  "process_Kill pid s = (if procs s pid = None then Some (Inl UseAfterFree) else ret (emit (Killed pid) s))"

text \<open>The test of the lambda given to the checks after a start.\<close>

definition start_timeout :: "App \<Rightarrow> 64 word \<Rightarrow> 64 word \<Rightarrow> bool" where
  "start_timeout c start t \<longleftrightarrow> app_max_start_time c > 0 \<and> t - start > word_of_int (app_max_start_time c)"

section \<open>The methods\<close>

text \<open>
  A call of a method is a value, and every method is a function of \<open>go\<close>, which makes the
  calls in its body; \<open>pm_run\<close> below ties the knot with one unit of fuel for each level of
  nesting. \<open>CallLoop\<close> is the loop of \<open>ClearCallbacks\<close> over the vector it found,
  \<open>CallCallback\<close> the call of a waiting callback with the app and process it is given,
  \<open>CallThen\<close> that of a continuation, \<open>CallError\<close> and \<open>CallExit\<close> the listeners of an app's
  process, \<open>CallRequireEach\<close> the loop of \<open>CheckPreamble\<close>.
\<close>

datatype call =
    CallClear nat int
  | CallLoop nat "callback list" "callback list" int
  | CallCallback callback nat "nat option" int
  | CallThen kont int
  | CallError nat nat int
  | CallExit nat nat int int
  | CallStart nat
  | CallCheckPreamble nat
  | CallRequireEach nat "nat list"
  | CallRequire nat callback
  | CallCheck nat kont

type_synonym caller = "call \<Rightarrow> pm \<Rightarrow> pm outcome"

definition ClearCallbacks :: "caller \<Rightarrow> nat \<Rightarrow> int \<Rightarrow> pm \<Rightarrow> pm outcome" where
  "ClearCallbacks go a err s =
     bindP (go (CallLoop a (callbacks (app s a)) (callbacks (app s a)) err) s)
       (\<lambda>s. ret (upd a (\<lambda>m. m\<lparr>callbacks := []\<rparr>) s))"

text \<open>A vector that has changed while the loop runs has invalidated its iterator.\<close>

definition callback_loop :: "caller \<Rightarrow> nat \<Rightarrow> callback list \<Rightarrow> callback list \<Rightarrow> int \<Rightarrow> pm \<Rightarrow> pm outcome" where
  "callback_loop go a orig cbs err s =
     (case cbs of
        [] \<Rightarrow> ret s
      | cb # rest \<Rightarrow> bindP (go (CallCallback cb a (m_process (app s a)) err) s) (\<lambda>s.
          if callbacks (app s a) \<noteq> orig then Some (Inl BadIterator) else go (CallLoop a orig rest err) s))"

text \<open>The lambda of \<open>CheckPreamble\<close>, waiting on a preamble of \<open>par\<close>.\<close>

definition preamble_callback :: "caller \<Rightarrow> nat \<Rightarrow> int \<Rightarrow> pm \<Rightarrow> pm outcome" where
  "preamble_callback go par err s =
     (let s1 = upd par (\<lambda>m. m\<lparr>pending_preamble := pending_preamble m - 1\<rparr>) s;
          s2 = (if err \<noteq> 0 then upd par (\<lambda>m. m\<lparr>error_preamble := error_preamble m + 1\<rparr>) s1 else s1)
      in if pending_preamble (app s2 par) = 0 then go (CallThen (StartThen par) (error_preamble (app s2 par))) s2
         else ret s2)"

definition call_callback :: "caller \<Rightarrow> callback \<Rightarrow> nat \<Rightarrow> nat option \<Rightarrow> int \<Rightarrow> pm \<Rightarrow> pm outcome" where
  "call_callback go cb a p err s =
     (case cb of
        Client i \<Rightarrow> ret (emit (Called i a p err) s)
      | PreambleOf par \<Rightarrow> preamble_callback go par err s)"

text \<open>The lambda of \<open>Start\<close> that its preambles continue with.\<close>

definition start_then :: "caller \<Rightarrow> pm_env \<Rightarrow> nat \<Rightarrow> int \<Rightarrow> pm \<Rightarrow> pm outcome" where
  "start_then go E a err s =
     (if err \<noteq> 0 then go (CallClear a err) s
      else (let (pid, s1) = new_process (AppProcess a) s;
                (tid, s2) = new_timer a s1;
                s3 = upd a (\<lambda>m. m\<lparr>m_process := Some pid, checker_timer := Some tid, is_checking := False\<rparr>) s2
            in bindP (case spawn E pid of
                        Started \<Rightarrow> ret s3
                      | FailsLate e \<Rightarrow> go (CallError a pid e) s3
                      | FailsNow e \<Rightarrow> bindP (go (CallError a pid e) s3) (go (CallExit a pid (- 1) (- 1))))
                 (\<lambda>s. ret (emit (ObservedStart pid) s))))"

text \<open>The lambda of \<open>Require\<close> that the first check continues with.\<close>

definition require_then :: "caller \<Rightarrow> pm_env \<Rightarrow> nat \<Rightarrow> int \<Rightarrow> pm \<Rightarrow> pm outcome" where
  "require_then go E a err s =
     (if err = 0
      then if app_checker (conf E a) \<noteq> None \<or> m_process (app s a) \<noteq> None then go (CallClear a 0) s
           else go (CallStart a) (upd a (\<lambda>m. m\<lparr>require_start_time := now s\<rparr>) s)
      else (case m_process (app s a) of
              Some pid \<Rightarrow> process_Kill pid (upd a (\<lambda>m. m\<lparr>restart := True\<rparr>) s)
            | None \<Rightarrow> go (CallStart a) (upd a (\<lambda>m. m\<lparr>require_start_time := now s\<rparr>) s)))"

text \<open>The lambda of \<open>Start\<close> that the checks of its timer continue with.\<close>

definition tick_then :: "caller \<Rightarrow> pm_env \<Rightarrow> nat \<Rightarrow> nat \<Rightarrow> int \<Rightarrow> pm \<Rightarrow> pm outcome" where
  "tick_then go E a tid err s =
     bindP (if err = 0 \<or> err = - ENOENT \<or> start_timeout (conf E a) (require_start_time (app s a)) (now s)
            then bindP (timer_Close tid s) (\<lambda>s. go (CallClear a err) (upd a (\<lambda>m. m\<lparr>checker_timer := None\<rparr>) s))
            else ret s)
       (\<lambda>s. ret (upd a (\<lambda>m. m\<lparr>is_checking := False\<rparr>) s))"

definition call_then :: "caller \<Rightarrow> pm_env \<Rightarrow> kont \<Rightarrow> int \<Rightarrow> pm \<Rightarrow> pm outcome" where
  "call_then go E k err s =
     (case k of StartThen a \<Rightarrow> start_then go E a err s | ReqThen a \<Rightarrow> require_then go E a err s
      | TickThen a tid \<Rightarrow> tick_then go E a tid err s)"

text \<open>The error and exit listeners of an app's process; the object is deleted after the latter.\<close>

definition app_error :: "caller \<Rightarrow> nat \<Rightarrow> nat \<Rightarrow> int \<Rightarrow> pm \<Rightarrow> pm outcome" where
  "app_error go a pid err s =
     go (CallClear a err) (emit (ObservedError pid err) (upd a (\<lambda>m. m\<lparr>m_process := None\<rparr>) s))"

definition app_exit :: "caller \<Rightarrow> pm_env \<Rightarrow> nat \<Rightarrow> nat \<Rightarrow> int \<Rightarrow> int \<Rightarrow> pm \<Rightarrow> pm outcome" where
  "app_exit go E a pid status signal s =
     (let st = (if status \<noteq> 0 then status else signal);
          s1 = upd a (\<lambda>m. m\<lparr>m_process := None\<rparr>) (emit (ObservedExit pid st signal) s)
      in bindP (if st \<noteq> 0
                then if restart (app s1 a) then go (CallStart a) (upd a (\<lambda>m. m\<lparr>restart := False\<rparr>) s1)
                     else if app_checker (conf E a) = None then go (CallClear a (int_of_int64 st)) s1
                     else ret s1
                else ret s1)
           (\<lambda>s. ret (delete_process pid s)))"

definition pm_Start :: "caller \<Rightarrow> nat \<Rightarrow> pm \<Rightarrow> pm outcome" where
  "pm_Start go a s = go (CallCheckPreamble a) s"

text \<open>The continuation of \<open>CheckPreamble\<close> is the lambda of its only caller, \<open>Start\<close>.\<close>

definition CheckPreamble :: "caller \<Rightarrow> pm_env \<Rightarrow> nat \<Rightarrow> pm \<Rightarrow> pm outcome" where
  "CheckPreamble go E a s =
     (let preamble = app_preamble (conf E a);
          s1 = upd a (\<lambda>m. m\<lparr>error_preamble := 0, pending_preamble := int (length preamble)\<rparr>) s
      in if preamble = [] then go (CallThen (StartThen a) 0) s1 else go (CallRequireEach a preamble) s1)"

definition require_each :: "caller \<Rightarrow> nat \<Rightarrow> nat list \<Rightarrow> pm \<Rightarrow> pm outcome" where
  "require_each go a cs s =
     (case cs of [] \<Rightarrow> ret s
      | c # rest \<Rightarrow> bindP (go (CallRequire c (PreambleOf a)) s) (go (CallRequireEach a rest)))"

definition Require :: "caller \<Rightarrow> nat \<Rightarrow> callback \<Rightarrow> pm \<Rightarrow> pm outcome" where
  "Require go c cb s =
     (let s1 = upd c (\<lambda>m. m\<lparr>callbacks := callbacks m @ [cb]\<rparr>) s
      in if length (callbacks (app s1 c)) > 1 then ret s1 else go (CallCheck c (ReqThen c)) s1)"

text \<open>
  \<open>Check\<close>: a process that fails to start calls the continuation from its error listener
  and, for \<open>FailsNow\<close>, once more from its exit listener.
\<close>

definition Check :: "caller \<Rightarrow> pm_env \<Rightarrow> nat \<Rightarrow> kont \<Rightarrow> pm \<Rightarrow> pm outcome" where
  "Check go E c k s =
     (if app_checker (conf E c) = None then go (CallThen k 0) s
      else (let (pid, s1) = new_process (CheckProcess c k) s
            in bindP (case spawn E pid of
                        Started \<Rightarrow> ret s1
                      | FailsLate e \<Rightarrow> go (CallThen k e) (emit (ObservedError pid e) s1)
                      | FailsNow e \<Rightarrow>
                          bindP (go (CallThen k e) (emit (ObservedError pid e) s1)) (\<lambda>s.
                          bindP (go (CallThen k (- 1)) (emit (ObservedExit pid (- 1) (- 1)) s)) (\<lambda>s.
                            ret (delete_process pid s))))
                 (\<lambda>s. ret (emit (ObservedStart pid) s))))"

fun pm_call :: "caller \<Rightarrow> pm_env \<Rightarrow> call \<Rightarrow> pm \<Rightarrow> pm outcome" where
  "pm_call go E (CallClear a err) s = ClearCallbacks go a err s"
| "pm_call go E (CallLoop a orig cbs err) s = callback_loop go a orig cbs err s"
| "pm_call go E (CallCallback cb a p err) s = call_callback go cb a p err s"
| "pm_call go E (CallThen k err) s = call_then go E k err s"
| "pm_call go E (CallError a pid err) s = app_error go a pid err s"
| "pm_call go E (CallExit a pid status signal) s = app_exit go E a pid status signal s"
| "pm_call go E (CallStart a) s = pm_Start go a s"
| "pm_call go E (CallCheckPreamble a) s = CheckPreamble go E a s"
| "pm_call go E (CallRequireEach a cs) s = require_each go a cs s"
| "pm_call go E (CallRequire c cb) s = Require go c cb s"
| "pm_call go E (CallCheck c k) s = Check go E c k s"

primrec pm_run :: "nat \<Rightarrow> pm_env \<Rightarrow> call \<Rightarrow> pm \<Rightarrow> pm outcome" where
  "pm_run 0 E c s = None"
| "pm_run (Suc n) E c s = pm_call (pm_run n E) E c s"

section \<open>Descriptions\<close>

text \<open>
  How the log lines name a status, a command and an app. The text of a command is made once
  and kept by the address of the command.
\<close>

definition status_string :: "(int \<Rightarrow> bytes) \<Rightarrow> int \<Rightarrow> int \<Rightarrow> bytes" where
  "status_string strsignal status signal =
     take 127 (if signal \<noteq> 0 then show_int status @ '' ('' @ strsignal signal @ '')'' else show_int status)"

fun env_words :: "nat \<Rightarrow> bytes list \<Rightarrow> bytes" where
  "env_words n [] = []"
| "env_words n (p # ps) = (if n > 0 then '' '' else []) @ p @ env_words (n + 1) ps"

definition command_words :: "Command \<Rightarrow> bytes" where
  "command_words cmd = env_words 0 (cmd_env cmd) @ (if length (cmd_env cmd) > 0 then '' '' else []) @ cmd_file cmd
     @ concat (map (\<lambda>p. '' '' @ p) (cmd_args cmd))"

definition str_command :: "nat \<Rightarrow> Command \<Rightarrow> (nat \<Rightarrow> bytes option) \<Rightarrow> bytes \<times> (nat \<Rightarrow> bytes option)" where
  "str_command addr cmd str_map =
     (case str_map addr of
        Some t \<Rightarrow> (t, str_map)
      | None \<Rightarrow> (command_words cmd, str_map(addr \<mapsto> command_words cmd)))"

definition str_app :: "nat \<Rightarrow> App \<Rightarrow> (nat \<Rightarrow> bytes option) \<Rightarrow> bytes \<times> (nat \<Rightarrow> bytes option)" where
  "str_app addr a str_map =
     (if length (app_name a) > 0 then (app_name a, str_map) else str_command addr (app_command a) str_map)"

text \<open>
  The kept texts stay those of the commands as long as the commands do not change, and a
  command reads as its environment, file and arguments separated by blanks.
\<close>

definition str_map_ok :: "(nat \<Rightarrow> Command) \<Rightarrow> (nat \<Rightarrow> bytes option) \<Rightarrow> bool" where
  "str_map_ok cmds str_map \<longleftrightarrow> (\<forall>addr t. str_map addr = Some t \<longrightarrow> t = command_words (cmds addr))"

lemma str_command_ok:
  assumes "str_map_ok cmds str_map"
  shows "fst (str_command addr (cmds addr) str_map) = command_words (cmds addr)
    \<and> str_map_ok cmds (snd (str_command addr (cmds addr) str_map))"
  using assms by (auto simp: str_command_def str_map_ok_def split: option.split)

lemma env_words_join: "env_words n ps = concat (map (\<lambda>p. '' '' @ p) ps) \<or> n = 0"
  by (induction n ps rule: env_words.induct) auto

lemma command_words_join:
  "'' '' @ command_words cmd = concat (map (\<lambda>p. '' '' @ p) (cmd_env cmd @ [cmd_file cmd] @ cmd_args cmd))"
proof (cases "cmd_env cmd")
  case Nil
  then show ?thesis by (simp add: command_words_def)
next
  case (Cons e es)
  have "env_words 1 es = concat (map (\<lambda>p. '' '' @ p) es)" using env_words_join [of 1 es] by simp
  with Cons show ?thesis by (simp add: command_words_def)
qed

section \<open>Events\<close>

text \<open>
  The lambda of the timer: a timer whose app has nobody waiting is closed, otherwise a check
  is started unless one is under way.
\<close>

definition timer_tick :: "caller \<Rightarrow> nat \<Rightarrow> nat \<Rightarrow> pm \<Rightarrow> pm outcome" where
  "timer_tick go a tid s =
     (if callbacks (app s a) = [] then timer_Close tid s
      else if \<not> is_checking (app s a)
      then bindP (go (CallCheck a (TickThen a tid)) s) (\<lambda>s. ret (upd a (\<lambda>m. m\<lparr>is_checking := True\<rparr>) s))
      else ret s)"

text \<open>
  What a process tells its listeners later on. The error listener of a check holds its
  continuation by a reference into the frame of \<open>Check\<close>, which has returned.
\<close>

definition process_error :: "caller \<Rightarrow> nat \<Rightarrow> int \<Rightarrow> pm \<Rightarrow> pm outcome" where
  "process_error go pid err s =
     (case procs s pid of
        None \<Rightarrow> Some (Inl UseAfterFree)
      | Some (AppProcess a) \<Rightarrow> go (CallError a pid err) s
      | Some (CheckProcess c k) \<Rightarrow> Some (Inl UseAfterFree))"

definition process_exit :: "caller \<Rightarrow> nat \<Rightarrow> int \<Rightarrow> int \<Rightarrow> pm \<Rightarrow> pm outcome" where
  "process_exit go pid status signal s =
     (case procs s pid of
        None \<Rightarrow> Some (Inl UseAfterFree)
      | Some (AppProcess a) \<Rightarrow> go (CallExit a pid status signal) s
      | Some (CheckProcess c k) \<Rightarrow>
          (let st = (if status \<noteq> 0 then status else signal)
           in bindP (go (CallThen k (int_of_int64 st)) (emit (ObservedExit pid st signal) s))
                (\<lambda>s. ret (delete_process pid s))))"

datatype pm_event =
    EvRequire nat nat
  | EvTick nat
  | EvError nat int
  | EvExit nat int int
  | EvTimerClosed nat
  | EvClock "64 word"

fun pm_handle :: "caller \<Rightarrow> pm_event \<Rightarrow> pm \<Rightarrow> pm outcome" where
  "pm_handle go (EvRequire c i) s = go (CallRequire c (Client i)) s"
| "pm_handle go (EvTick t) s = (case timers s t of None \<Rightarrow> Some (Inl UseAfterFree) | Some (a, c) \<Rightarrow> timer_tick go a t s)"
| "pm_handle go (EvError pid e) s = process_error go pid e s"
| "pm_handle go (EvExit pid c sg) s = process_exit go pid c sg s"
| "pm_handle go (EvTimerClosed t) s = ret (s\<lparr>timers := (timers s)(t := None)\<rparr>)"
| "pm_handle go (EvClock t) s = ret (s\<lparr>now := t\<rparr>)"

text \<open>When events happen: ticks of timers that are not closing, notices of live processes.\<close>

fun pm_allowed :: "pm \<Rightarrow> pm_event \<Rightarrow> bool" where
  "pm_allowed s (EvRequire c i) = True"
| "pm_allowed s (EvTick t) = (\<exists>a. timers s t = Some (a, False))"
| "pm_allowed s (EvError pid e) = (procs s pid \<noteq> None)"
| "pm_allowed s (EvExit pid c sg) = (procs s pid \<noteq> None)"
| "pm_allowed s (EvTimerClosed t) = (\<exists>a. timers s t = Some (a, True))"
| "pm_allowed s (EvClock t) = True"

definition pm_step :: "pm_env \<Rightarrow> pm \<Rightarrow> pm_event \<Rightarrow> pm \<Rightarrow> bool" where
  "pm_step E s e t \<longleftrightarrow> pm_allowed s e \<and> (\<exists>n. pm_handle (pm_run n E) e s = ret t)"

end
