(* ===== verification/ProcessManagerProps.thy ===== *)
theory ProcessManagerProps
  imports ProcessManagers
begin

text \<open>
  What the process manager guarantees: the process pointers it keeps and hands out, the
  order and number of the answers its clients get, and when it reports success; and runs in
  which it goes wrong.
\<close>

section \<open>Relations between the state before and after a call\<close>

text \<open>
  A relation that every method satisfies if the calls in its body do holds of every call that
  returns, however deep it nests.
\<close>

locale call_relation =
  fixes E :: pm_env and R :: "call \<Rightarrow> pm \<Rightarrow> pm \<Rightarrow> bool"
  assumes body_rel: "(\<And>c s s'. go c s = ret s' \<Longrightarrow> R c s s') \<Longrightarrow> pm_call go E c s = ret s' \<Longrightarrow> R c s s'"
begin

lemma run_relation: "pm_run n E c s = ret s' \<Longrightarrow> R c s s'"
proof (induction n arbitrary: c s s')
  case 0
  then show ?case by simp
next
  case (Suc n)
  then show ?case using body_rel [of "pm_run n E"] by simp
qed

end

lemmas method_defs = ClearCallbacks_def callback_loop_def call_callback_def preamble_callback_def call_then_def
  start_then_def require_then_def tick_then_def app_error_def app_exit_def pm_Start_def CheckPreamble_def
  require_each_def Require_def Check_def

lemmas state_defs = upd_def emit_def new_process_def delete_process_def new_timer_def

lemmas outcome_splits = if_splits option.splits sum.splits kont.splits callback.splits list.splits start_outcome.splits prod.splits

section \<open>Process pointers\<close>

definition pointers_ok :: "pm \<Rightarrow> bool" where
  "pointers_ok s \<longleftrightarrow> (\<forall>a q. m_process (app s a) = Some q \<longrightarrow> procs s q = Some (AppProcess a))
     \<and> (\<forall>q. procs s q \<noteq> None \<longrightarrow> q < next_pid s)"

text \<open>The process a call deletes, what it relies on, and what it does to processes and pointers.\<close>

fun deletes :: "call \<Rightarrow> nat set" where
  "deletes (CallExit a pid st sg) = {pid}"
| "deletes c = {}"

fun pointer_pre :: "call \<Rightarrow> pm \<Rightarrow> bool" where
  "pointer_pre (CallExit a pid st sg) s = (procs s pid = Some (AppProcess a))"
| "pointer_pre (CallCallback cb a p err) s = (\<forall>q. p = Some q \<longrightarrow> procs s q = Some (AppProcess a))"
| "pointer_pre c s = True"

text \<open>A process named in the log was alive at the start of the call or created during it.\<close>

fun names_live :: "pm \<Rightarrow> pm \<Rightarrow> pm_log \<Rightarrow> bool" where
  "names_live s s' (Called i a (Some q) e) = (procs s q = Some (AppProcess a) \<or> next_pid s \<le> q \<and> q < next_pid s')"
| "names_live s s' (Killed q) = (procs s q \<noteq> None \<or> next_pid s \<le> q \<and> q < next_pid s')"
| "names_live s s' l = True"

definition pointer_post :: "nat set \<Rightarrow> pm \<Rightarrow> pm \<Rightarrow> bool" where
  "pointer_post D s s' \<longleftrightarrow> pointers_ok s' \<and> next_pid s \<le> next_pid s'
     \<and> (\<forall>q < next_pid s. q \<notin> D \<longrightarrow> procs s' q = procs s q)
     \<and> (\<forall>a q. m_process (app s' a) = Some q \<longrightarrow> m_process (app s a) = Some q \<or> next_pid s \<le> q)
     \<and> (\<exists>l. out s' = out s @ l \<and> list_all (names_live s s') l)"

definition pointer_rel :: "call \<Rightarrow> pm \<Rightarrow> pm \<Rightarrow> bool" where
  "pointer_rel c s s' \<longleftrightarrow> (pointers_ok s \<longrightarrow> pointer_pre c s \<longrightarrow> pointer_post (deletes c) s s')"

lemma pointer_post_refl: "pointers_ok s \<Longrightarrow> pointer_post D s s"
  by (auto simp: pointer_post_def)

lemma pointer_post_trans:
  assumes "pointer_post {} s t" "pointer_post D t u"
  shows "pointer_post D s u"
proof -
  have t: "pointers_ok t" "next_pid s \<le> next_pid t" "\<And>q. q < next_pid s \<Longrightarrow> procs t q = procs s q"
    using assms(1) by (auto simp: pointer_post_def)
  have u: "next_pid t \<le> next_pid u" using assms(2) by (simp add: pointer_post_def)
  have trace_back: "procs s q = Some k \<or> next_pid s \<le> q \<and> q < next_pid u" if "procs t q = Some k" for q k
  proof -
    have "q < next_pid t" using t(1) that by (auto simp: pointers_ok_def)
    with t(3) [of q] that u show ?thesis by fastforce
  qed
  have names: "names_live s u l" if "names_live s t l \<or> names_live t u l" for l
    using that u t(2) trace_back
    by (cases "(s, t, l)" rule: names_live.cases) (fastforce dest: trace_back)+
  obtain l1 l2 where l: "out t = out s @ l1" "list_all (names_live s t) l1" "out u = out t @ l2" "list_all (names_live t u) l2"
    using assms by (auto simp: pointer_post_def)
  have "out u = out s @ (l1 @ l2)" "list_all (names_live s u) (l1 @ l2)"
    using l names by (auto simp: list_all_iff)
  moreover have "pointers_ok u" using assms(2) by (simp add: pointer_post_def)
  moreover have "procs u q = procs s q" if "q < next_pid s" "q \<notin> D" for q
    using assms(2) t(2,3) that by (simp add: pointer_post_def)
  moreover have "m_process (app s a) = Some q \<or> next_pid s \<le> q" if "m_process (app u a) = Some q" for a q
  proof -
    have "m_process (app t a) = Some q \<or> next_pid t \<le> q" using assms(2) that by (simp add: pointer_post_def)
    with assms(1) t(2) show ?thesis by (auto simp: pointer_post_def)
  qed
  ultimately show ?thesis using t(2) u unfolding pointer_post_def by (meson order_trans)
qed

lemma pointer_post_fresh: "pointer_post {p} s u \<Longrightarrow> next_pid s \<le> p \<Longrightarrow> pointer_post {} s u"
  by (auto simp: pointer_post_def)

text \<open>Changes that leave the processes alone and forget process pointers at most.\<close>

lemma pointer_post_same:
  assumes "pointers_ok s" "procs t = procs s" "next_pid t = next_pid s" "out t = out s"
    and "\<And>b q. m_process (app t b) = Some q \<Longrightarrow> m_process (app s b) = Some q"
  shows "pointer_post {} s t"
  using assms by (auto simp: pointer_post_def pointers_ok_def)

lemma pointer_post_upd:
  "pointers_ok s \<Longrightarrow> (\<And>m q. m_process (f m) = Some q \<Longrightarrow> m_process m = Some q) \<Longrightarrow> pointer_post {} s (upd a f s)"
proof (rule pointer_post_same)
  assume f: "\<And>m q. m_process (f m) = Some q \<Longrightarrow> m_process m = Some q"
  fix b q
  assume q: "m_process (app (upd a f s) b) = Some q"
  show "m_process (app s b) = Some q"
  proof (cases "b = a")
    case True
    with q have "m_process (f (app s a)) = Some q" by (simp add: upd_def)
    from f [OF this] True show ?thesis by simp
  next
    case False
    with q show ?thesis by (simp add: upd_def)
  qed
qed (simp_all add: upd_def)

lemma names_live_cong: "next_pid t = next_pid t' \<Longrightarrow> names_live s t l = names_live s t' l"
  by (cases "(s, t, l)" rule: names_live.cases) simp_all

lemma pointer_post_emit: "pointers_ok s \<Longrightarrow> names_live s s l \<Longrightarrow> pointer_post {} s (emit l s)"
  using names_live_cong [of s "emit l s" s l] by (auto simp: pointer_post_def pointers_ok_def emit_def)

lemma pointer_post_new:
  assumes "pointers_ok s"
  shows "pointer_post {} s (snd (new_process k s))"
  using assms by (auto simp: pointer_post_def pointers_ok_def new_process_def split: if_splits)

lemma pointer_post_delete:
  assumes "pointers_ok s" "\<And>a. m_process (app s a) \<noteq> Some p"
  shows "pointer_post {p} s (delete_process p s)"
  using assms by (auto simp: pointer_post_def pointers_ok_def delete_process_def)

lemma pointer_post_ok: "pointer_post D s t \<Longrightarrow> pointers_ok t"
  by (simp add: pointer_post_def)

text \<open>The state in which \<open>Start\<close> starts a process.\<close>

definition launched :: "nat \<Rightarrow> pm \<Rightarrow> pm" where
  "launched a s = upd a (\<lambda>m. m\<lparr>m_process := Some (next_pid s), checker_timer := Some (next_tid s), is_checking := False\<rparr>)
     (snd (new_timer a (snd (new_process (AppProcess a) s))))"

lemma launched_post:
  assumes "pointers_ok s"
  shows "pointer_post {} s (launched a s)" "procs (launched a s) (next_pid s) = Some (AppProcess a)"
    "next_pid (launched a s) = next_pid s + 1"
proof -
  show "procs (launched a s) (next_pid s) = Some (AppProcess a)" "next_pid (launched a s) = next_pid s + 1"
    by (simp_all add: launched_def state_defs)
  have "pointers_ok (launched a s)"
    using assms by (auto simp: pointers_ok_def launched_def state_defs split: if_splits)
  then show "pointer_post {} s (launched a s)"
    by (auto simp: pointer_post_def launched_def state_defs split: if_splits)
qed

lemma start_then_alt: "start_then go E a err s =
   (if err \<noteq> 0 then go (CallClear a err) s
    else bindP (case spawn E (next_pid s) of
                  Started \<Rightarrow> ret (launched a s)
                | FailsLate e \<Rightarrow> go (CallError a (next_pid s) e) (launched a s)
                | FailsNow e \<Rightarrow> bindP (go (CallError a (next_pid s) e) (launched a s)) (go (CallExit a (next_pid s) (- 1) (- 1))))
           (\<lambda>s'. ret (emit (ObservedStart (next_pid s)) s')))"
  by (cases "spawn E (next_pid s)") (simp_all add: start_then_def launched_def new_process_def new_timer_def Let_def)

lemma pointer_emit_plain:
  "pointers_ok s \<Longrightarrow> pointer_post {} s (emit (ObservedStart p) s)"
  "pointers_ok s \<Longrightarrow> pointer_post {} s (emit (ObservedError p e) s)"
  "pointers_ok s \<Longrightarrow> pointer_post {} s (emit (ObservedExit p c g) s)"
  by (rule pointer_post_emit; simp)+

lemma timer_Close_post: "timer_Close t s = ret s' \<Longrightarrow> pointers_ok s \<Longrightarrow> pointer_post {} s s'"
  by (rule pointer_post_same) (auto simp: timer_Close_def split: option.splits)

text \<open>One lemma for each method, given that the calls in its body behave.\<close>

definition calls_ok :: "caller \<Rightarrow> bool" where
  "calls_ok go \<longleftrightarrow> (\<forall>c s s'. go c s = ret s' \<longrightarrow> pointers_ok s \<longrightarrow> pointer_pre c s \<longrightarrow> pointer_post (deletes c) s s')"

lemma calls_okD:
  "calls_ok go \<Longrightarrow> go c s = ret s' \<Longrightarrow> pointers_ok s \<Longrightarrow> pointer_pre c s \<Longrightarrow> deletes c = {} \<Longrightarrow> pointer_post {} s s'"
  by (metis calls_ok_def)

text \<open>A call after a change of the state.\<close>

lemma call_after:
  assumes "calls_ok go" "go c t = ret s'" "pointer_post {} s t" "pointer_pre c t" "deletes c = {}"
  shows "pointer_post {} s s'"
  using pointer_post_trans [OF assms(3)] calls_okD [OF assms(1,2) pointer_post_ok [OF assms(3)] assms(4,5)] by blast

lemma post_then:
  assumes "pointer_post {} s t" "pointers_ok t \<Longrightarrow> pointer_post {} t u"
  shows "pointer_post {} s u"
  using assms pointer_post_trans pointer_post_ok by blast

lemma ClearCallbacks_post:
  assumes "calls_ok go" "pointers_ok s" "ClearCallbacks go a err s = ret s'"
  shows "pointer_post {} s s'"
proof -
  obtain t where t: "go (CallLoop a (callbacks (app s a)) (callbacks (app s a)) err) s = ret t"
    "s' = upd a (\<lambda>m. m\<lparr>callbacks := []\<rparr>) t"
    using assms(3) by (auto simp: ClearCallbacks_def bindP_ret_iff)
  have "pointer_post {} s t" by (rule calls_okD [OF assms(1) t(1) assms(2)]) simp_all
  then show ?thesis unfolding t(2) by (rule post_then) (erule pointer_post_upd, simp)
qed

lemma callback_loop_post:
  assumes "calls_ok go" "pointers_ok s" "callback_loop go a orig cbs err s = ret s'"
  shows "pointer_post {} s s'"
proof (cases cbs)
  case Nil
  with assms(2,3) show ?thesis by (simp add: callback_loop_def pointer_post_refl)
next
  case (Cons cb rest)
  then obtain t where t: "go (CallCallback cb a (m_process (app s a)) err) s = ret t" "go (CallLoop a orig rest err) t = ret s'"
    using assms(3) by (auto simp: callback_loop_def bindP_ret_iff split: if_splits)
  have "pointer_post {} s t"
    by (rule calls_okD [OF assms(1) t(1) assms(2)]) (use assms(2) in \<open>auto simp: pointers_ok_def\<close>)
  then show ?thesis using call_after [OF assms(1) t(2)] by simp
qed

lemma call_callback_post:
  assumes "calls_ok go" "pointers_ok s" "pointer_pre (CallCallback cb a p err) s" "call_callback go cb a p err s = ret s'"
  shows "pointer_post {} s s'"
proof (cases cb)
  case (Client i)
  with assms(4) have "s' = emit (Called i a p err) s" by (simp add: call_callback_def)
  moreover have "names_live s s (Called i a p err)" using assms(3) by (cases p) auto
  ultimately show ?thesis using assms(2) by (simp add: pointer_post_emit)
next
  case (PreambleOf par)
  let ?s1 = "upd par (\<lambda>m. m\<lparr>pending_preamble := pending_preamble m - 1\<rparr>) s"
  define s2 where "s2 = (if err \<noteq> 0 then upd par (\<lambda>m. m\<lparr>error_preamble := error_preamble m + 1\<rparr>) ?s1 else ?s1)"
  have 1: "pointer_post {} s ?s1" by (rule pointer_post_upd [OF assms(2)]) simp
  have "pointer_post {} ?s1 (upd par (\<lambda>m. m\<lparr>error_preamble := error_preamble m + 1\<rparr>) ?s1)"
    by (rule pointer_post_upd [OF pointer_post_ok [OF 1]]) simp
  from pointer_post_trans [OF 1 this] 1 have 2: "pointer_post {} s s2" unfolding s2_def by presburger
  have "(if pending_preamble (app s2 par) = 0 then go (CallThen (StartThen par) (error_preamble (app s2 par))) s2
         else ret s2) = ret s'"
    using assms(4) unfolding PreambleOf call_callback_def callback.case preamble_callback_def Let_def s2_def .
  then consider "ret s2 = ret s'" | e where "go (CallThen (StartThen par) e) s2 = ret s'"
    by (metis (no_types))
  then show ?thesis
  proof cases
    case 1
    with 2 show ?thesis by simp
  next
    case (2 e)
    from call_after [OF assms(1) this \<open>pointer_post {} s s2\<close>] show ?thesis by simp
  qed
qed

lemma start_then_post:
  assumes "calls_ok go" "pointers_ok s" "start_then go E a err s = ret s'"
  shows "pointer_post {} s s'"
proof (cases "err = 0")
  case False
  with assms(3) have "go (CallClear a err) s = ret s'" by (simp add: start_then_alt)
  from calls_okD [OF assms(1) this assms(2)] show ?thesis by simp
next
  case True
  note L = launched_post [OF assms(2), of a]
  let ?p = "next_pid s"
  have "\<exists>t. pointer_post {} s t \<and> s' = emit (ObservedStart ?p) t"
  proof (cases "spawn E ?p")
    case Started
    with True assms(3) L(1) show ?thesis by (auto simp: start_then_alt)
  next
    case (FailsLate e)
    with True assms(3) obtain t where t: "go (CallError a ?p e) (launched a s) = ret t" "s' = emit (ObservedStart ?p) t"
      by (auto simp: start_then_alt bindP_ret_iff)
    from call_after [OF assms(1) t(1) L(1)] t(2) show ?thesis by auto
  next
    case (FailsNow e)
    with True assms(3) obtain t u where t: "go (CallError a ?p e) (launched a s) = ret t"
      "go (CallExit a ?p (- 1) (- 1)) t = ret u" "s' = emit (ObservedStart ?p) u"
      by (auto simp: start_then_alt bindP_ret_iff)
    have lt: "pointer_post {} (launched a s) t"
      by (rule calls_okD [OF assms(1) t(1) pointer_post_ok [OF L(1)]]) simp_all
    have st: "pointer_post {} s t" by (rule pointer_post_trans [OF L(1) lt])
    have "procs t ?p = Some (AppProcess a)" using lt L(2,3) by (simp add: pointer_post_def)
    then have "pointer_post {?p} t u"
      using assms(1) t(2) pointer_post_ok [OF st] unfolding calls_ok_def by fastforce
    from pointer_post_fresh [OF pointer_post_trans [OF st this]] t(3) show ?thesis by auto
  qed
  then obtain t where "pointer_post {} s t" "s' = emit (ObservedStart ?p) t" by blast
  then show ?thesis using post_then pointer_emit_plain(1) by blast
qed

lemma require_then_post:
  assumes "calls_ok go" "pointers_ok s" "require_then go E a err s = ret s'"
  shows "pointer_post {} s s'"
proof -
  have u: "pointer_post {} s (upd a (\<lambda>m. m\<lparr>require_start_time := now s\<rparr>) s)"
    "pointer_post {} s (upd a (\<lambda>m. m\<lparr>restart := True\<rparr>) s)"
    by (rule pointer_post_upd [OF assms(2)]; simp)+
  consider "go (CallClear a 0) s = ret s'" | "go (CallStart a) (upd a (\<lambda>m. m\<lparr>require_start_time := now s\<rparr>) s) = ret s'"
    | pid where "process_Kill pid (upd a (\<lambda>m. m\<lparr>restart := True\<rparr>) s) = ret s'"
    using assms(3) by (auto simp: require_then_def split: if_splits option.splits)
  then show ?thesis
  proof cases
    case 1
    from calls_okD [OF assms(1) this assms(2)] show ?thesis by simp
  next
    case 2
    from call_after [OF assms(1) this u(1)] show ?thesis by simp
  next
    case (3 pid)
    then have "s' = emit (Killed pid) (upd a (\<lambda>m. m\<lparr>restart := True\<rparr>) s)" "procs s pid \<noteq> None"
      by (auto simp: process_Kill_def upd_def split: if_splits)
    then show ?thesis using post_then [OF u(2)] by (simp add: pointer_post_emit upd_def)
  qed
qed

lemma tick_then_post:
  assumes "calls_ok go" "pointers_ok s" "tick_then go E a tid err s = ret s'"
  shows "pointer_post {} s s'"
proof -
  obtain t where t: "s' = upd a (\<lambda>m. m\<lparr>is_checking := False\<rparr>) t"
    "t = s \<or> (\<exists>u. timer_Close tid s = ret u \<and> go (CallClear a err) (upd a (\<lambda>m. m\<lparr>checker_timer := None\<rparr>) u) = ret t)"
    using assms(3) by (auto simp: tick_then_def bindP_ret_iff split: if_splits)
  have "pointer_post {} s t"
    using t(2)
  proof
    assume "t = s"
    with assms(2) show ?thesis by (simp add: pointer_post_refl)
  next
    assume "\<exists>u. timer_Close tid s = ret u \<and> go (CallClear a err) (upd a (\<lambda>m. m\<lparr>checker_timer := None\<rparr>) u) = ret t"
    then obtain u where u: "timer_Close tid s = ret u" "go (CallClear a err) (upd a (\<lambda>m. m\<lparr>checker_timer := None\<rparr>) u) = ret t"
      by blast
    have "pointer_post {} s (upd a (\<lambda>m. m\<lparr>checker_timer := None\<rparr>) u)"
      by (rule post_then [OF timer_Close_post [OF u(1) assms(2)]]) (erule pointer_post_upd, simp)
    from call_after [OF assms(1) u(2) this] show ?thesis by simp
  qed
  then show ?thesis unfolding t(1) by (rule post_then) (erule pointer_post_upd, simp)
qed

lemma app_exit_post:
  assumes "calls_ok go" "pointers_ok s" "procs s pid = Some (AppProcess a)" "app_exit go E a pid status sg s = ret s'"
  shows "pointer_post {pid} s s'"
proof -
  let ?st = "if status \<noteq> 0 then status else sg"
  let ?s1 = "upd a (\<lambda>m. m\<lparr>m_process := None\<rparr>) (emit (ObservedExit pid ?st sg) s)"
  have s1: "pointer_post {} s ?s1"
    by (rule post_then [OF pointer_emit_plain(3) [OF assms(2)]]) (erule pointer_post_upd, simp)
  obtain t where t: "s' = delete_process pid t"
    "t = ?s1 \<or> go (CallStart a) (upd a (\<lambda>m. m\<lparr>restart := False\<rparr>) ?s1) = ret t \<or> (\<exists>e. go (CallClear a e) ?s1 = ret t)"
    using assms(4) unfolding app_exit_def Let_def by (auto simp: bindP_ret_iff split: if_splits)
  have s2: "pointer_post {} ?s1 (upd a (\<lambda>m. m\<lparr>restart := False\<rparr>) ?s1)"
    by (rule pointer_post_upd [OF pointer_post_ok [OF s1]]) simp
  have s1t: "pointer_post {} ?s1 t"
    using t(2) call_after [OF assms(1) _ s2] calls_okD [OF assms(1) _ pointer_post_ok [OF s1]]
      pointer_post_refl [OF pointer_post_ok [OF s1]] by (auto simp del: if_split)
  have none: "m_process (app ?s1 b) \<noteq> Some pid" for b
    using assms(2,3) by (auto simp: upd_def emit_def pointers_ok_def)
  have lt: "pid < next_pid ?s1" using assms(2,3) by (simp add: pointers_ok_def upd_def emit_def)
  have "m_process (app t b) \<noteq> Some pid" for b
    using s1t none [of b] lt unfolding pointer_post_def by (meson not_le)
  from pointer_post_delete [OF pointer_post_ok [OF s1t] this] t(1)
  show ?thesis using pointer_post_trans [OF pointer_post_trans [OF s1 s1t]] by simp
qed

lemma Check_post:
  assumes "calls_ok go" "pointers_ok s" "Check go E c k s = ret s'"
  shows "pointer_post {} s s'"
proof (cases "app_checker (conf E c) = None")
  case True
  with assms(3) have "go (CallThen k 0) s = ret s'" by (simp add: Check_def)
  from calls_okD [OF assms(1) this assms(2)] show ?thesis by simp
next
  case False
  let ?p = "next_pid s"
  obtain s1 where new: "new_process (CheckProcess c k) s = (?p, s1)" by (simp add: new_process_def)
  have s1: "pointer_post {} s s1" using pointer_post_new [OF assms(2), of "CheckProcess c k"] new by simp
  have lp: "procs s1 ?p = Some (CheckProcess c k)" "next_pid s1 = ?p + 1" using new by (auto simp: new_process_def)
  have se: "pointer_post {} s (emit (ObservedError ?p e) s1)" for e
    by (rule post_then [OF s1]) (rule pointer_emit_plain(2))
  have "\<exists>t. pointer_post {} s t \<and> s' = emit (ObservedStart ?p) t"
  proof (cases "spawn E ?p")
    case Started
    with False assms(3) s1 show ?thesis by (auto simp: Check_def new)
  next
    case (FailsLate e)
    with False assms(3) obtain t where t: "go (CallThen k e) (emit (ObservedError ?p e) s1) = ret t" "s' = emit (ObservedStart ?p) t"
      by (auto simp: Check_def new bindP_ret_iff)
    from call_after [OF assms(1) t(1) se] t(2) show ?thesis by auto
  next
    case (FailsNow e)
    with False assms(3) obtain t u where t: "go (CallThen k e) (emit (ObservedError ?p e) s1) = ret t"
      "go (CallThen k (- 1)) (emit (ObservedExit ?p (- 1) (- 1)) t) = ret u" "s' = emit (ObservedStart ?p) (delete_process ?p u)"
      by (auto simp: Check_def new bindP_ret_iff)
    let ?e = "emit (ObservedError ?p e) s1"
    have et: "pointer_post {} ?e t" by (rule calls_okD [OF assms(1) t(1) pointer_post_ok [OF se]]) simp_all
    have eu: "pointer_post {} ?e u"
      using call_after [OF assms(1) t(2) post_then [OF et pointer_emit_plain(3)]] by simp
    have "procs u ?p = Some (CheckProcess c k)" using eu lp by (simp add: pointer_post_def emit_def)
    then have "m_process (app u b) \<noteq> Some ?p" for b using pointer_post_ok [OF eu] by (auto simp: pointers_ok_def)
    from pointer_post_delete [OF pointer_post_ok [OF eu] this]
    have "pointer_post {?p} s (delete_process ?p u)" by (rule pointer_post_trans [OF pointer_post_trans [OF se eu]])
    from pointer_post_fresh [OF this] t(3) show ?thesis by auto
  qed
  then obtain t where "pointer_post {} s t" "s' = emit (ObservedStart ?p) t" by blast
  then show ?thesis using post_then pointer_emit_plain(1) by blast
qed

lemma method_post:
  assumes "calls_ok go" "pointers_ok s" "pointer_pre c s" "pm_call go E c s = ret s'"
  shows "pointer_post (deletes c) s s'"
proof (cases c)
  case (CallClear a e)
  then show ?thesis using assms ClearCallbacks_post by simp
next
  case (CallLoop a orig cbs e)
  then show ?thesis using assms callback_loop_post by simp
next
  case (CallCallback cb a p e)
  then show ?thesis using assms call_callback_post by simp
next
  case (CallThen k e)
  then show ?thesis using assms start_then_post require_then_post tick_then_post
    by (cases k) (simp_all add: call_then_def)
next
  case (CallError a pid e)
  let ?s = "emit (ObservedError pid e) (upd a (\<lambda>m. m\<lparr>m_process := None\<rparr>) s)"
  have "pointer_post {} s ?s"
    by (rule post_then [OF pointer_post_upd [OF assms(2)] pointer_emit_plain(2)]) simp_all
  with CallError assms call_after [OF assms(1)] show ?thesis by (simp add: app_error_def)
next
  case (CallExit a pid st sg)
  then show ?thesis using assms app_exit_post by simp
next
  case (CallStart a)
  then show ?thesis using assms calls_okD by (simp add: pm_Start_def)
next
  case (CallCheckPreamble a)
  let ?s = "upd a (\<lambda>m. m\<lparr>error_preamble := 0, pending_preamble := int (length (app_preamble (conf E a)))\<rparr>) s"
  have "pointer_post {} s ?s" by (rule pointer_post_upd [OF assms(2)]) simp
  from call_after [OF assms(1) _ this] CallCheckPreamble assms(4) show ?thesis
    by (auto simp: CheckPreamble_def Let_def split: if_splits)
next
  case (CallRequireEach a cs)
  show ?thesis
  proof (cases cs)
    case Nil
    with CallRequireEach assms show ?thesis by (simp add: require_each_def pointer_post_refl)
  next
    case (Cons c' rest)
    with CallRequireEach assms(4) obtain t where t: "go (CallRequire c' (PreambleOf a)) s = ret t"
      "go (CallRequireEach a rest) t = ret s'" by (auto simp: require_each_def bindP_ret_iff)
    have "pointer_post {} s t" by (rule calls_okD [OF assms(1) t(1) assms(2)]) simp_all
    from call_after [OF assms(1) t(2) this] CallRequireEach show ?thesis by simp
  qed
next
  case (CallRequire c' cb)
  let ?s = "upd c' (\<lambda>m. m\<lparr>callbacks := callbacks m @ [cb]\<rparr>) s"
  have "pointer_post {} s ?s" by (rule pointer_post_upd [OF assms(2)]) simp
  with CallRequire assms(4) call_after [OF assms(1)] show ?thesis
    by (auto simp: Require_def Let_def split: if_splits)
next
  case (CallCheck c' k)
  then show ?thesis using assms Check_post by simp
qed

interpretation pointers: call_relation E pointer_rel for E
proof unfold_locales
  fix go c s s'
  assume "\<And>c s s'. go c s = ret s' \<Longrightarrow> pointer_rel c s s'" "pm_call go E c s = ret s'"
  then show "pointer_rel c s s'" using method_post [of go s c E s']
    by (auto simp: pointer_rel_def calls_ok_def)
qed

end
