(* ===== verification/ProcessManagerAnswers.thy ===== *)
theory ProcessManagerAnswers
  imports ProcessManagerProps
begin

text \<open>
  The answers the process manager gives: in which order and how often its clients are told a
  result, and when the result is success. One relation between the state before and after a
  call covers both, and every method keeps it.
\<close>

section \<open>Answers\<close>

text \<open>The clients told a result about app \<open>b\<close>, those waiting for one, and those that asked.\<close>

fun told :: "nat \<Rightarrow> pm_log \<Rightarrow> nat list" where
  "told b (Called i a p e) = (if a = b then [i] else [])"
| "told b l = []"

definition answered :: "nat \<Rightarrow> pm_log list \<Rightarrow> nat list" where
  "answered b l = concat (map (told b) l)"

fun client :: "callback \<Rightarrow> nat list" where
  "client (Client i) = [i]"
| "client (PreambleOf a) = []"

definition clients :: "callback list \<Rightarrow> nat list" where
  "clients cbs = concat (map client cbs)"

definition waiting :: "nat \<Rightarrow> pm \<Rightarrow> nat list" where
  "waiting b s = clients (callbacks (app s b))"

definition asked :: "nat \<Rightarrow> pm_event list \<Rightarrow> nat list" where
  "asked b es = concat (map (\<lambda>e. case e of EvRequire c i \<Rightarrow> if c = b then [i] else [] | _ \<Rightarrow> []) es)"

lemma answered_simps [simp]: "answered b [] = []" "answered b (l # ls) = told b l @ answered b ls"
  "answered b (ls @ ls') = answered b ls @ answered b ls'"
  by (simp_all add: answered_def)

lemma clients_simps [simp]: "clients [] = []" "clients (cb # cbs) = client cb @ clients cbs" "clients (cbs @ cbs') = clients cbs @ clients cbs'"
  by (simp_all add: clients_def)

lemma asked_simps [simp]: "asked b [] = []" "asked b (es @ es') = asked b es @ asked b es'"
  "asked b [EvRequire c i] = (if c = b then [i] else [])" "asked b [EvTick t] = []" "asked b [EvError p e] = []"
  "asked b [EvExit p x g] = []" "asked b [EvTimerClosed t] = []" "asked b [EvClock w] = []"
  by (simp_all add: asked_def)

text \<open>A check continues with a lambda of its own app, which is not that of a start.\<close>

definition own_check :: "nat \<Rightarrow> kont \<Rightarrow> bool" where
  "own_check c k \<longleftrightarrow> k = ReqThen c \<or> (\<exists>t. k = TickThen c t)"

definition checks_ok :: "pm \<Rightarrow> bool" where
  "checks_ok s \<longleftrightarrow> (\<forall>q c k. procs s q = Some (CheckProcess c k) \<longrightarrow> own_check c k)"

definition no_checker :: "pm_env \<Rightarrow> nat set" where
  "no_checker E = {a. app_checker (conf E a) = None}"

text \<open>
  The effect of a call: the clients it is about to answer (\<open>F\<close>), those waiting and those it
  adds (\<open>B\<close>) are those answered and those waiting afterwards, in order; success is told for
  the apps of \<open>Z\<close> and those without a checker only.
\<close>

definition effect :: "pm_env \<Rightarrow> nat set \<Rightarrow> (nat \<Rightarrow> nat list) \<Rightarrow> (nat \<Rightarrow> nat list) \<Rightarrow> pm \<Rightarrow> pm \<Rightarrow> bool" where
  "effect E Z F B s s' \<longleftrightarrow> checks_ok s' \<and> (\<exists>l. out s' = out s @ l
     \<and> (\<forall>b. F b @ waiting b s @ B b = answered b l @ waiting b s')
     \<and> (\<forall>i a p. Called i a p 0 \<in> set l \<longrightarrow> a \<in> Z \<union> no_checker E))"

abbreviation plain :: "pm_env \<Rightarrow> nat set \<Rightarrow> pm \<Rightarrow> pm \<Rightarrow> bool" where
  "plain E Z \<equiv> effect E Z (\<lambda>_. []) (\<lambda>_. [])"

lemma plain_trans:
  assumes "plain E Z s t" "plain E Z t u"
  shows "plain E Z s u"
proof -
  obtain l where l: "out t = out s @ l" "\<And>b. waiting b s = answered b l @ waiting b t"
    "\<And>i a p. Called i a p 0 \<in> set l \<Longrightarrow> a \<in> Z \<union> no_checker E"
    using assms(1) unfolding effect_def append_Nil append_Nil2 by blast
  obtain l' where l': "out u = out t @ l'" "\<And>b. waiting b t = answered b l' @ waiting b u"
    "\<And>i a p. Called i a p 0 \<in> set l' \<Longrightarrow> a \<in> Z \<union> no_checker E" "checks_ok u"
    using assms(2) unfolding effect_def append_Nil append_Nil2 by blast
  have "out u = out s @ (l @ l')" "\<And>b. waiting b s = answered b (l @ l') @ waiting b u"
    using l(1) l'(1) by (simp_all add: l(2) l'(2))
  moreover have "a \<in> Z \<union> no_checker E" if "Called i a p 0 \<in> set (l @ l')" for i a p
    using that l(3) l'(3) unfolding set_append by blast
  ultimately show ?thesis using l'(4) unfolding effect_def append_Nil append_Nil2 by blast
qed

lemma effect_mono: "effect E Z F B s t \<Longrightarrow> Z \<subseteq> Y \<Longrightarrow> effect E Y F B s t"
  unfolding effect_def by blast

lemma effect_unchecked:
  assumes "app_checker (conf E a) = None" "effect E {a} F B s t"
  shows "effect E {} F B s t"
proof -
  have "{a} \<union> no_checker E = {} \<union> no_checker E" using assms(1) by (auto simp: no_checker_def)
  with assms(2) show ?thesis unfolding effect_def by (simp only:)
qed

lemma effect_checks: "effect E Z F B s t \<Longrightarrow> checks_ok t"
  by (simp add: effect_def)

text \<open>Changes that touch neither the waiting callbacks nor the clients.\<close>

lemma plain_same:
  assumes "checks_ok t" "out t = out s" "\<And>b. callbacks (app t b) = callbacks (app s b)"
  shows "plain E Z s t"
  using assms by (simp add: effect_def waiting_def)

lemma plain_upd: "checks_ok s \<Longrightarrow> (\<And>m. callbacks (f m) = callbacks m) \<Longrightarrow> plain E Z s (upd a f s)"
  by (rule plain_same) (simp_all add: upd_def checks_ok_def)

lemma plain_refl: "checks_ok s \<Longrightarrow> plain E Z s s"
  by (rule plain_same) simp_all

lemma plain_emit:
  assumes "checks_ok s" "\<And>b. told b l = []" "\<And>i a p. l \<noteq> Called i a p 0"
  shows "plain E Z s (emit l s)"
proof -
  have "out (emit l s) = out s @ [l]" "\<And>b. waiting b s = answered b [l] @ waiting b (emit l s)"
    using assms(2) by (simp_all add: emit_def waiting_def)
  moreover have "checks_ok (emit l s)" using assms(1) by (simp add: checks_ok_def emit_def)
  ultimately show ?thesis using assms(3) unfolding effect_def append_Nil append_Nil2 by (metis empty_iff empty_set set_ConsD)
qed

lemma plain_then: "plain E Z s t \<Longrightarrow> (checks_ok t \<Longrightarrow> plain E Z t u) \<Longrightarrow> plain E Z s u"
  using plain_trans effect_checks by blast

section \<open>Calls\<close>

fun zeros :: "call \<Rightarrow> nat set" where
  "zeros (CallClear a e) = (if e = 0 then {a} else {})"
| "zeros (CallLoop a orig cbs e) = (if e = 0 then {a} else {})"
| "zeros (CallCallback cb a p e) = (if e = 0 then {a} else {})"
| "zeros (CallThen (StartThen a) e) = {}"
| "zeros (CallThen (ReqThen a) e) = (if e = 0 then {a} else {})"
| "zeros (CallThen (TickThen a t) e) = (if e = 0 then {a} else {})"
| "zeros (CallError a pid e) = (if e = 0 then {a} else {})"
| "zeros c = {}"

fun front :: "call \<Rightarrow> nat \<Rightarrow> nat list" where
  "front (CallLoop a orig cbs e) = (\<lambda>b. if b = a then clients cbs else [])"
| "front (CallCallback cb a p e) = (\<lambda>b. if b = a then client cb else [])"
| "front c = (\<lambda>b. [])"

fun rear :: "call \<Rightarrow> nat \<Rightarrow> nat list" where
  "rear (CallRequire c cb) = (\<lambda>b. if b = c then client cb else [])"
| "rear c = (\<lambda>b. [])"

fun effect_pre :: "call \<Rightarrow> pm \<Rightarrow> bool" where
  "effect_pre (CallLoop a orig cbs e) s = (callbacks (app s a) = orig)"
| "effect_pre (CallCheck c k) s = own_check c k"
| "effect_pre c s = True"

fun effect_post :: "call \<Rightarrow> pm \<Rightarrow> bool" where
  "effect_post (CallLoop a orig cbs e) s' = (callbacks (app s' a) = orig)"
| "effect_post c s' = True"

definition effect_rel :: "pm_env \<Rightarrow> call \<Rightarrow> pm \<Rightarrow> pm \<Rightarrow> bool" where
  "effect_rel E c s s' \<longleftrightarrow> (checks_ok s \<longrightarrow> effect_pre c s \<longrightarrow> effect E (zeros c) (front c) (rear c) s s' \<and> effect_post c s')"

text \<open>The errors of \<open>uv_spawn\<close> that reach the listeners are not 0.\<close>

definition spawn_errors :: "pm_env \<Rightarrow> bool" where
  "spawn_errors E \<longleftrightarrow> (\<forall>p. spawn E p \<noteq> FailsLate 0 \<and> spawn E p \<noteq> FailsNow 0)"

definition effects_ok :: "pm_env \<Rightarrow> caller \<Rightarrow> bool" where
  "effects_ok E go \<longleftrightarrow> (\<forall>c s s'. go c s = ret s' \<longrightarrow> effect_rel E c s s')"

lemma effects_okD:
  "effects_ok E go \<Longrightarrow> go c s = ret s' \<Longrightarrow> checks_ok s \<Longrightarrow> effect_pre c s \<Longrightarrow>
     effect E (zeros c) (front c) (rear c) s s' \<and> effect_post c s'"
  by (simp add: effects_ok_def effect_rel_def)

text \<open>A call that answers nobody of its own accord, after a change of the state.\<close>

lemma plain_call:
  assumes "effects_ok E go" "go c t = ret s'" "plain E Z s t" "effect_pre c t"
    and "front c = (\<lambda>b. [])" "rear c = (\<lambda>b. [])" "zeros c \<subseteq> Z"
  shows "plain E Z s s'"
proof (rule plain_then [OF assms(3)])
  assume "checks_ok t"
  from effects_okD [OF assms(1,2) this assms(4)] assms(5,6,7) show "plain E Z t s'"
    using effect_mono by fastforce
qed

lemma ClearCallbacks_effect:
  assumes "effects_ok E go" "checks_ok s" "ClearCallbacks go a err s = ret s'"
  shows "plain E (if err = 0 then {a} else {}) s s'"
proof -
  let ?Z = "if err = 0 then {a} else {}" and ?cbs = "callbacks (app s a)"
  obtain t where t: "go (CallLoop a ?cbs ?cbs err) s = ret t" "s' = upd a (\<lambda>m. m\<lparr>callbacks := []\<rparr>) t"
    using assms(3) by (auto simp: ClearCallbacks_def bindP_ret_iff)
  from effects_okD [OF assms(1) t(1) assms(2)]
  have e: "effect E ?Z (\<lambda>b. if b = a then clients ?cbs else []) (\<lambda>b. []) s t" "callbacks (app t a) = ?cbs" by simp_all
  from e(1) obtain l where l: "out t = out s @ l" "\<And>b. (if b = a then clients ?cbs else []) @ waiting b s = answered b l @ waiting b t"
    "\<And>i c p. Called i c p 0 \<in> set l \<Longrightarrow> c \<in> ?Z \<union> no_checker E" "checks_ok t"
    unfolding effect_def append_Nil2 by blast
  have "answered a l = clients ?cbs" using l(2) [of a] e(2) by (simp add: waiting_def)
  then have "waiting b s = answered b l @ waiting b s'" for b
    using l(2) [of b] by (simp add: t(2) waiting_def upd_def split: if_splits)
  moreover have "out s' = out s @ l" "checks_ok s'" using l(1,4) by (simp_all add: t(2) upd_def checks_ok_def)
  ultimately show ?thesis using l(3) unfolding effect_def append_Nil append_Nil2 by blast
qed

lemma callback_loop_effect:
  assumes "effects_ok E go" "checks_ok s" "callbacks (app s a) = orig" "callback_loop go a orig cbs err s = ret s'"
  shows "effect E (if err = 0 then {a} else {}) (\<lambda>b. if b = a then clients cbs else []) (\<lambda>b. []) s s'
    \<and> callbacks (app s' a) = orig"
proof (cases cbs)
  case Nil
  with assms have "s' = s" by (simp add: callback_loop_def)
  moreover have "(\<lambda>b. if b = a then clients cbs else []) = (\<lambda>b. [])" using Nil by auto
  ultimately show ?thesis using plain_refl [OF assms(2)] assms(3) by presburger
next
  case (Cons cb rest)
  let ?Z = "if err = 0 then {a} else {}"
  obtain t where t: "go (CallCallback cb a (m_process (app s a)) err) s = ret t" "go (CallLoop a orig rest err) t = ret s'"
    "callbacks (app t a) = orig"
    using assms(4) Cons by (auto simp: callback_loop_def bindP_ret_iff split: if_splits)
  from effects_okD [OF assms(1) t(1) assms(2)]
  have "effect E ?Z (\<lambda>b. if b = a then client cb else []) (\<lambda>b. []) s t" by simp
  then obtain l where l: "out t = out s @ l" "\<And>b. (if b = a then client cb else []) @ waiting b s = answered b l @ waiting b t"
    "\<And>i c p. Called i c p 0 \<in> set l \<Longrightarrow> c \<in> ?Z \<union> no_checker E" "checks_ok t"
    unfolding effect_def append_Nil2 by blast
  from effects_okD [OF assms(1) t(2) l(4)] t(3)
  have 2: "effect E ?Z (\<lambda>b. if b = a then clients rest else []) (\<lambda>b. []) t s'" "callbacks (app s' a) = orig" by simp_all
  from 2(1) obtain l' where l': "out s' = out t @ l'"
    "\<And>b. (if b = a then clients rest else []) @ waiting b t = answered b l' @ waiting b s'"
    "\<And>i c p. Called i c p 0 \<in> set l' \<Longrightarrow> c \<in> ?Z \<union> no_checker E" "checks_ok s'"
    unfolding effect_def append_Nil2 by blast
  have w: "waiting a t = waiting a s" "waiting a s' = waiting a s" using assms(3) t(3) 2(2) by (simp_all add: waiting_def)
  have "answered a l = client cb" "answered a l' = clients rest"
    using l(2) [of a] l'(2) [of a] w by simp_all
  then have "(if b = a then clients cbs else []) @ waiting b s = answered b (l @ l') @ waiting b s'" for b
    using l(2) [of b] l'(2) [of b] w Cons by (cases "b = a") simp_all
  moreover have "out s' = out s @ (l @ l')" using l(1) l'(1) by simp
  moreover have "c \<in> ?Z \<union> no_checker E" if "Called i c p 0 \<in> set (l @ l')" for i c p
    using that l(3) l'(3) unfolding set_append by blast
  ultimately show ?thesis using l'(4) 2(2) unfolding effect_def append_Nil2 by blast
qed

lemma call_callback_effect:
  assumes "effects_ok E go" "checks_ok s" "call_callback go cb a p err s = ret s'"
  shows "effect E (if err = 0 then {a} else {}) (\<lambda>b. if b = a then client cb else []) (\<lambda>b. []) s s'"
proof (cases cb)
  case (Client i)
  with assms(3) have s': "s' = emit (Called i a p err) s" by (simp add: call_callback_def)
  have "out s' = out s @ [Called i a p err]" "checks_ok s'"
    "\<And>b. (if b = a then client cb else []) @ waiting b s = answered b [Called i a p err] @ waiting b s'"
    using assms(2) Client by (simp_all add: s' emit_def waiting_def checks_ok_def)
  moreover have "c \<in> (if err = 0 then {a} else {}) \<union> no_checker E" if "Called j c q 0 \<in> set [Called i a p err]" for j c q
    using that by simp
  ultimately show ?thesis unfolding effect_def append_Nil2 by blast
next
  case (PreambleOf par)
  let ?Z = "if err = 0 then {a} else {}" and ?s1 = "upd par (\<lambda>m. m\<lparr>pending_preamble := pending_preamble m - 1\<rparr>) s"
  define s2 where "s2 = (if err \<noteq> 0 then upd par (\<lambda>m. m\<lparr>error_preamble := error_preamble m + 1\<rparr>) ?s1 else ?s1)"
  have 1: "plain E ?Z s ?s1" by (rule plain_upd [OF assms(2)]) simp
  have "plain E ?Z ?s1 (upd par (\<lambda>m. m\<lparr>error_preamble := error_preamble m + 1\<rparr>) ?s1)"
    by (rule plain_upd [OF effect_checks [OF 1]]) simp
  from plain_trans [OF 1 this] 1 have 2: "plain E ?Z s s2" unfolding s2_def by presburger
  have "(if pending_preamble (app s2 par) = 0 then go (CallThen (StartThen par) (error_preamble (app s2 par))) s2
         else ret s2) = ret s'"
    using assms(3) unfolding PreambleOf call_callback_def callback.case preamble_callback_def Let_def s2_def .
  then consider "ret s2 = ret s'" | e where "go (CallThen (StartThen par) e) s2 = ret s'"
    by (metis (no_types))
  then have "plain E ?Z s s'"
  proof cases
    case 1
    with 2 show ?thesis by simp
  next
    case (2 e)
    from plain_call [OF assms(1) this \<open>plain E ?Z s s2\<close>] show ?thesis by simp
  qed
  moreover have "(\<lambda>b. if b = a then client cb else []) = (\<lambda>b. [])" using PreambleOf by auto
  ultimately show ?thesis by presburger
qed

lemma plain_observed:
  "checks_ok s \<Longrightarrow> plain E Z s (emit (ObservedStart p) s)"
  "checks_ok s \<Longrightarrow> plain E Z s (emit (ObservedError p e) s)"
  "checks_ok s \<Longrightarrow> plain E Z s (emit (ObservedExit p c g) s)"
  "checks_ok s \<Longrightarrow> plain E Z s (emit (Killed p) s)"
  by (rule plain_emit; simp)+

lemma launched_plain: "checks_ok s \<Longrightarrow> plain E Z s (launched a s)"
  by (rule plain_same) (auto simp: checks_ok_def launched_def state_defs split: if_splits)

lemma start_then_effect:
  assumes "effects_ok E go" "spawn_errors E" "checks_ok s" "start_then go E a err s = ret s'"
  shows "plain E {} s s'"
proof (cases "err = 0")
  case False
  with assms(4) have "go (CallClear a err) s = ret s'" by (simp add: start_then_alt)
  from plain_call [OF assms(1) this plain_refl [OF assms(3)]] False show ?thesis by simp
next
  case True
  note L = launched_plain [OF assms(3), of E "{}" a]
  let ?p = "next_pid s"
  have "\<exists>t. plain E {} s t \<and> s' = emit (ObservedStart ?p) t"
  proof (cases "spawn E ?p")
    case Started
    with True assms(4) L show ?thesis by (auto simp: start_then_alt)
  next
    case (FailsLate e)
    with True assms(4) obtain t where t: "go (CallError a ?p e) (launched a s) = ret t" "s' = emit (ObservedStart ?p) t"
      by (auto simp: start_then_alt bindP_ret_iff)
    have "e \<noteq> 0" using assms(2) FailsLate by (auto simp: spawn_errors_def)
    with plain_call [OF assms(1) t(1) L] t(2) show ?thesis by auto
  next
    case (FailsNow e)
    with True assms(4) obtain t u where t: "go (CallError a ?p e) (launched a s) = ret t"
      "go (CallExit a ?p (- 1) (- 1)) t = ret u" "s' = emit (ObservedStart ?p) u"
      by (auto simp: start_then_alt bindP_ret_iff)
    have "e \<noteq> 0" using assms(2) FailsNow by (auto simp: spawn_errors_def)
    with plain_call [OF assms(1) t(1) L] have "plain E {} s t" by simp
    from plain_call [OF assms(1) t(2) this] t(3) show ?thesis by auto
  qed
  then obtain t where "plain E {} s t" "s' = emit (ObservedStart ?p) t" by blast
  then show ?thesis using plain_then plain_observed(1) by blast
qed

lemma require_then_effect:
  assumes "effects_ok E go" "checks_ok s" "require_then go E a err s = ret s'"
  shows "plain E (if err = 0 then {a} else {}) s s'"
proof -
  let ?Z = "if err = 0 then {a} else {}"
  have u: "plain E ?Z s (upd a (\<lambda>m. m\<lparr>require_start_time := now s\<rparr>) s)"
    "plain E ?Z s (upd a (\<lambda>m. m\<lparr>restart := True\<rparr>) s)"
    by (rule plain_upd [OF assms(2)]; simp)+
  consider "err = 0" "go (CallClear a 0) s = ret s'" | "go (CallStart a) (upd a (\<lambda>m. m\<lparr>require_start_time := now s\<rparr>) s) = ret s'"
    | pid where "process_Kill pid (upd a (\<lambda>m. m\<lparr>restart := True\<rparr>) s) = ret s'"
    using assms(3) by (auto simp: require_then_def split: if_splits option.splits)
  then show ?thesis
  proof cases
    case 1
    from plain_call [OF assms(1) 1(2) plain_refl [OF assms(2)]] 1(1) show ?thesis by simp
  next
    case 2
    from plain_call [OF assms(1) this u(1)] show ?thesis by simp
  next
    case (3 pid)
    then have "s' = emit (Killed pid) (upd a (\<lambda>m. m\<lparr>restart := True\<rparr>) s)"
      by (auto simp: process_Kill_def split: if_splits)
    then show ?thesis using plain_then [OF u(2)] plain_observed(4) by simp
  qed
qed

lemma timer_Close_plain: "timer_Close t s = ret s' \<Longrightarrow> checks_ok s \<Longrightarrow> plain E Z s s'"
  by (rule plain_same) (auto simp: timer_Close_def checks_ok_def split: option.splits)

lemma tick_then_effect:
  assumes "effects_ok E go" "checks_ok s" "tick_then go E a tid err s = ret s'"
  shows "plain E (if err = 0 then {a} else {}) s s'"
proof -
  let ?Z = "if err = 0 then {a} else {}"
  obtain t where t: "s' = upd a (\<lambda>m. m\<lparr>is_checking := False\<rparr>) t"
    "t = s \<or> (\<exists>u. timer_Close tid s = ret u \<and> go (CallClear a err) (upd a (\<lambda>m. m\<lparr>checker_timer := None\<rparr>) u) = ret t)"
    using assms(3) by (auto simp: tick_then_def bindP_ret_iff split: if_splits)
  have "plain E ?Z s t"
    using t(2)
  proof
    assume "t = s"
    with plain_refl [OF assms(2)] show ?thesis by blast
  next
    assume "\<exists>u. timer_Close tid s = ret u \<and> go (CallClear a err) (upd a (\<lambda>m. m\<lparr>checker_timer := None\<rparr>) u) = ret t"
    then obtain u where u: "timer_Close tid s = ret u" "go (CallClear a err) (upd a (\<lambda>m. m\<lparr>checker_timer := None\<rparr>) u) = ret t"
      by blast
    have "plain E ?Z s (upd a (\<lambda>m. m\<lparr>checker_timer := None\<rparr>) u)"
      by (rule plain_then [OF timer_Close_plain [OF u(1) assms(2)]]) (erule plain_upd, simp)
    from plain_call [OF assms(1) u(2) this] show ?thesis by simp
  qed
  then show ?thesis unfolding t(1) by (rule plain_then) (erule plain_upd, simp)
qed

lemma delete_plain: "checks_ok s \<Longrightarrow> plain E Z s (delete_process p s)"
  by (rule plain_same) (auto simp: checks_ok_def delete_process_def split: if_splits)

lemma app_exit_effect:
  assumes "effects_ok E go" "checks_ok s" "app_exit go E a pid status sg s = ret s'"
  shows "plain E {} s s'"
proof -
  let ?st = "if status \<noteq> 0 then status else sg"
  let ?s1 = "upd a (\<lambda>m. m\<lparr>m_process := None\<rparr>) (emit (ObservedExit pid ?st sg) s)"
  have s1: "plain E {} s ?s1"
    by (rule plain_then [OF plain_observed(3) [OF assms(2)]]) (erule plain_upd, simp)
  obtain t where t: "s' = delete_process pid t"
    "t = ?s1 \<or> go (CallStart a) (upd a (\<lambda>m. m\<lparr>restart := False\<rparr>) ?s1) = ret t
      \<or> app_checker (conf E a) = None \<and> (\<exists>e. go (CallClear a e) ?s1 = ret t)"
    using assms(3) unfolding app_exit_def Let_def by (auto simp: bindP_ret_iff split: if_splits)
  have s2: "plain E {} s (upd a (\<lambda>m. m\<lparr>restart := False\<rparr>) ?s1)"
    by (rule plain_then [OF s1]) (erule plain_upd, simp)
  have clear: "plain E {} s t" if "app_checker (conf E a) = None" "go (CallClear a e) ?s1 = ret t" for e
  proof -
    from s1 have "plain E {a} s ?s1" by (rule effect_mono) simp
    from plain_call [OF assms(1) that(2) this] have "plain E {a} s t" by simp
    with that(1) show ?thesis by (rule effect_unchecked)
  qed
  have "plain E {} s t"
    using t(2) clear s1 plain_call [OF assms(1) _ s2, of "CallStart a"] by (auto simp del: if_split)
  then show ?thesis unfolding t(1) by (rule plain_then) (rule delete_plain)
qed

lemma Check_effect:
  assumes "effects_ok E go" "spawn_errors E" "checks_ok s" "own_check c k" "Check go E c k s = ret s'"
  shows "plain E {} s s'"
proof (cases "app_checker (conf E c) = None")
  case True
  with assms(5) have 1: "go (CallThen k 0) s = ret s'" by (simp add: Check_def)
  have "zeros (CallThen k 0) \<subseteq> {c}" using assms(4) by (auto simp: own_check_def)
  with plain_call [OF assms(1) 1 plain_refl [OF assms(3)]] have "plain E {c} s s'" by simp
  with True show ?thesis by (rule effect_unchecked)
next
  case False
  let ?p = "next_pid s"
  obtain s1 where new: "new_process (CheckProcess c k) s = (?p, s1)" by (simp add: new_process_def)
  have s1: "plain E {} s s1"
    by (rule plain_same) (use assms(3,4) new in \<open>auto simp: new_process_def checks_ok_def split: if_splits\<close>)
  have se: "plain E {} s (emit (ObservedError ?p e) s1)" for e
    by (rule plain_then [OF s1]) (rule plain_observed(2))
  have z: "zeros (CallThen k e) = {}" if "e \<noteq> 0" for e using assms(4) that by (auto simp: own_check_def)
  have "\<exists>t. plain E {} s t \<and> s' = emit (ObservedStart ?p) t"
  proof (cases "spawn E ?p")
    case Started
    with False assms(5) s1 show ?thesis by (auto simp: Check_def new)
  next
    case (FailsLate e)
    with False assms(5) obtain t where t: "go (CallThen k e) (emit (ObservedError ?p e) s1) = ret t" "s' = emit (ObservedStart ?p) t"
      by (auto simp: Check_def new bindP_ret_iff)
    have "e \<noteq> 0" using assms(2) FailsLate by (auto simp: spawn_errors_def)
    with plain_call [OF assms(1) t(1) se] t(2) z show ?thesis by auto
  next
    case (FailsNow e)
    with False assms(5) obtain t u where t: "go (CallThen k e) (emit (ObservedError ?p e) s1) = ret t"
      "go (CallThen k (- 1)) (emit (ObservedExit ?p (- 1) (- 1)) t) = ret u" "s' = emit (ObservedStart ?p) (delete_process ?p u)"
      by (auto simp: Check_def new bindP_ret_iff)
    have "e \<noteq> 0" using assms(2) FailsNow by (auto simp: spawn_errors_def)
    with plain_call [OF assms(1) t(1) se] z have "plain E {} s t" by simp
    then have "plain E {} s (emit (ObservedExit ?p (- 1) (- 1)) t)" by (rule plain_then) (rule plain_observed(3))
    from plain_call [OF assms(1) t(2) this] z have "plain E {} s u" by simp
    then have "plain E {} s (delete_process ?p u)" by (rule plain_then) (rule delete_plain)
    with t(3) show ?thesis by blast
  qed
  then obtain t where "plain E {} s t" "s' = emit (ObservedStart ?p) t" by blast
  then show ?thesis using plain_then plain_observed(1) by blast
qed

lemma Require_effect:
  assumes "effects_ok E go" "checks_ok s" "Require go c cb s = ret s'"
  shows "effect E {} (\<lambda>b. []) (\<lambda>b. if b = c then client cb else []) s s'"
proof -
  let ?s = "upd c (\<lambda>m. m\<lparr>callbacks := callbacks m @ [cb]\<rparr>) s"
  have checks: "checks_ok ?s" using assms(2) by (simp add: checks_ok_def upd_def)
  have "s' = ?s \<or> go (CallCheck c (ReqThen c)) ?s = ret s'"
    using assms(3) by (auto simp: Require_def Let_def split: if_splits)
  then have "plain E {} ?s s'"
    using plain_call [OF assms(1) _ plain_refl [OF checks]] plain_refl [OF checks] by (auto simp: own_check_def)
  moreover have "waiting b s @ (if b = c then client cb else []) = waiting b ?s" "out ?s = out s" for b
    by (simp_all add: waiting_def upd_def)
  ultimately show ?thesis unfolding effect_def append_Nil append_Nil2 by (simp only:)
qed

lemma method_effect:
  assumes "effects_ok E go" "spawn_errors E" "checks_ok s" "effect_pre c s" "pm_call go E c s = ret s'"
  shows "effect E (zeros c) (front c) (rear c) s s' \<and> effect_post c s'"
proof (cases c)
  case (CallClear a e)
  then show ?thesis using assms ClearCallbacks_effect by simp
next
  case (CallLoop a orig cbs e)
  with assms(5) have "callback_loop go a orig cbs e s = ret s'" by simp
  from callback_loop_effect [OF assms(1,3) _ this] CallLoop assms(4) show ?thesis by simp
next
  case (CallCallback cb a p e)
  with assms(5) have "call_callback go cb a p e s = ret s'" by simp
  from call_callback_effect [OF assms(1,3) this] CallCallback show ?thesis by simp
next
  case (CallThen k e)
  then show ?thesis using assms start_then_effect require_then_effect tick_then_effect
    by (cases k) (simp_all add: call_then_def)
next
  case (CallError a pid e)
  let ?s = "emit (ObservedError pid e) (upd a (\<lambda>m. m\<lparr>m_process := None\<rparr>) s)"
  have "plain E (zeros c) s ?s"
    by (rule plain_then [OF plain_upd [OF assms(3)] plain_observed(2)]) simp_all
  from plain_call [OF assms(1) _ this, of "CallClear a e"] CallError assms(5) show ?thesis by (simp add: app_error_def)
next
  case (CallExit a pid st sg)
  then show ?thesis using assms app_exit_effect by simp
next
  case (CallStart a)
  then show ?thesis using assms(5) plain_call [OF assms(1) _ plain_refl [OF assms(3)]] by (simp add: pm_Start_def)
next
  case (CallCheckPreamble a)
  let ?s = "upd a (\<lambda>m. m\<lparr>error_preamble := 0, pending_preamble := int (length (app_preamble (conf E a)))\<rparr>) s"
  have "plain E {} s ?s" by (rule plain_upd [OF assms(3)]) simp
  from plain_call [OF assms(1) _ this] CallCheckPreamble assms(5) show ?thesis
    by (auto simp: CheckPreamble_def Let_def split: if_splits)
next
  case (CallRequireEach a cs)
  show ?thesis
  proof (cases cs)
    case Nil
    with CallRequireEach assms(3,5) show ?thesis by (simp add: require_each_def plain_refl)
  next
    case (Cons c' rest)
    with CallRequireEach assms(5) obtain t where t: "go (CallRequire c' (PreambleOf a)) s = ret t"
      "go (CallRequireEach a rest) t = ret s'" by (auto simp: require_each_def bindP_ret_iff)
    have "plain E {} s t" by (rule plain_call [OF assms(1) t(1) plain_refl [OF assms(3)]]) auto
    from plain_call [OF assms(1) t(2) this] CallRequireEach show ?thesis by simp
  qed
next
  case (CallRequire c' cb)
  with assms(5) have "Require go c' cb s = ret s'" by simp
  from Require_effect [OF assms(1,3) this] CallRequire show ?thesis by simp
next
  case (CallCheck c' k)
  then show ?thesis using assms Check_effect by simp
qed

interpretation effects: call_relation E "\<lambda>c s s'. spawn_errors E \<longrightarrow> effect_rel E c s s'" for E
proof unfold_locales
  fix go c s s'
  assume "\<And>c s s'. go c s = ret s' \<Longrightarrow> spawn_errors E \<longrightarrow> effect_rel E c s s'" "pm_call go E c s = ret s'"
  then show "spawn_errors E \<longrightarrow> effect_rel E c s s'" using method_effect [of E go s c s']
    by (auto simp: effect_rel_def effects_ok_def)
qed

section \<open>Events\<close>

lemma timer_tick_cases:
  assumes "timer_tick go a tid s = ret t"
  obtains "timer_Close tid s = ret t" | "t = s"
    | u where "go (CallCheck a (TickThen a tid)) s = ret u" "t = upd a (\<lambda>m. m\<lparr>is_checking := True\<rparr>) u"
proof (cases "callbacks (app s a) = [] \<or> is_checking (app s a)")
  case True
  then have "timer_Close tid s = ret t \<or> t = s" using assms by (auto simp: timer_tick_def split: if_splits)
  then show ?thesis using that(1,2) by blast
next
  case False
  with assms have "bindP (go (CallCheck a (TickThen a tid)) s) (\<lambda>s. ret (upd a (\<lambda>m. m\<lparr>is_checking := True\<rparr>) s)) = ret t"
    unfolding timer_tick_def by presburger
  then show ?thesis using that(3) unfolding bindP_ret_iff by blast
qed

text \<open>The ways in which an event can be handled without a fault.\<close>

lemma pm_handle_cases [consumes 1]:
  assumes "pm_handle go e s = ret t"
  obtains (require) c i where "e = EvRequire c i" "go (CallRequire c (Client i)) s = ret t"
  | (close) tid where "e = EvTick tid" "timer_Close tid s = ret t"
  | (idle) tid where "e = EvTick tid" "t = s"
  | (check) tid a u where "e = EvTick tid" "go (CallCheck a (TickThen a tid)) s = ret u"
      "t = upd a (\<lambda>m. m\<lparr>is_checking := True\<rparr>) u"
  | (error) pid x a where "e = EvError pid x" "procs s pid = Some (AppProcess a)" "go (CallError a pid x) s = ret t"
  | (app_exit) pid c sg a where "e = EvExit pid c sg" "procs s pid = Some (AppProcess a)" "go (CallExit a pid c sg) s = ret t"
  | (check_exit) pid c sg st a k u where "e = EvExit pid c sg" "procs s pid = Some (CheckProcess a k)"
      "st = (if c \<noteq> 0 then c else sg)" "t = delete_process pid u"
      "go (CallThen k (int_of_int64 st)) (emit (ObservedExit pid st sg) s) = ret u"
  | (closed) tid where "e = EvTimerClosed tid" "t = s\<lparr>timers := (timers s)(tid := None)\<rparr>"
  | (clock) w where "e = EvClock w" "t = s\<lparr>now := w\<rparr>"
proof (cases e)
  case (EvTick tid)
  with assms obtain a where "timer_tick go a tid s = ret t" by (auto split: option.splits)
  then show ?thesis using EvTick close idle check by (cases rule: timer_tick_cases) blast+
next
  case (EvError pid x)
  with assms show ?thesis using error by (auto simp: process_error_def split: option.splits pkind.splits)
next
  case (EvExit pid c sg)
  with assms have x: "process_exit go pid c sg s = ret t" by simp
  show ?thesis
  proof (cases "procs s pid")
    case None
    with x show ?thesis by (simp add: process_exit_def)
  next
    case (Some k)
    with x EvExit show ?thesis
      by (cases k) (auto simp: process_exit_def Let_def bindP_ret_iff simp del: if_split intro: app_exit check_exit)
  qed
qed (use assms require closed clock in simp_all)

lemma run_call:
  assumes "spawn_errors E" "pm_run n E c s = ret t" "checks_ok s" "effect_pre c s"
  shows "effect E (zeros c) (front c) (rear c) s t"
  using effects.run_relation [OF assms(2)] assms(1,3,4) by (simp add: effect_rel_def)

text \<open>The apps for which an event itself reports success: a check of theirs that succeeded.\<close>

fun succeeded :: "pm \<Rightarrow> pm_event \<Rightarrow> nat set" where
  "succeeded s (EvExit pid c sg) = {a. \<exists>k. procs s pid = Some (CheckProcess a k) \<and> int_of_int64 (if c \<noteq> 0 then c else sg) = 0}"
| "succeeded s (EvError pid e) = {a. procs s pid = Some (AppProcess a) \<and> e = 0}"
| "succeeded s e = {}"

lemma step_plain:
  assumes "effects_ok E go" "pm_handle go e s = ret t" "checks_ok s" "\<And>c i. e \<noteq> EvRequire c i"
  shows "plain E (succeeded s e) s t"
proof -
  note call = plain_call [OF assms(1) _ plain_refl [OF assms(3)]]
  from assms(2) show ?thesis
  proof (cases rule: pm_handle_cases)
    case (close tid)
    then show ?thesis using timer_Close_plain assms(3) by blast
  next
    case (idle tid)
    then show ?thesis using plain_refl assms(3) by simp
  next
    case (check tid a u)
    have "plain E (succeeded s e) s u" by (rule call [OF check(2)]) (simp_all add: own_check_def)
    then show ?thesis unfolding check(3) by (rule plain_then) (erule plain_upd, simp)
  next
    case (error pid x a)
    show ?thesis by (rule call [OF error(3)]) (use error in simp_all)
  next
    case (app_exit pid c sg a)
    show ?thesis by (rule call [OF app_exit(3)]) simp_all
  next
    case (check_exit pid c sg st a k u)
    have "own_check a k" using assms(3) check_exit(2) by (simp add: checks_ok_def)
    then have "zeros (CallThen k (int_of_int64 st)) \<subseteq> succeeded s e"
      using check_exit(1-3) by (auto simp: own_check_def split: if_splits)
    with plain_call [OF assms(1) check_exit(5) plain_observed(3) [OF assms(3)]] have "plain E (succeeded s e) s u" by simp
    then show ?thesis unfolding check_exit(4) by (rule plain_then) (rule delete_plain)
  qed (use assms(3,4) plain_same [of t s E] in \<open>simp_all add: checks_ok_def\<close>)
qed

lemma step_effect:
  assumes "spawn_errors E" "pm_step E s e t" "checks_ok s"
  shows "effect E (succeeded s e) (\<lambda>b. []) (\<lambda>b. asked b [e]) s t"
proof -
  obtain n where n: "pm_handle (pm_run n E) e s = ret t" using assms(2) by (auto simp: pm_step_def)
  have ok: "effects_ok E (pm_run n E)"
    using effects.run_relation assms(1) by (auto simp: effects_ok_def)
  show ?thesis
  proof (cases "\<exists>c i. e = EvRequire c i")
    case False
    then have "asked b [e] = []" for b by (cases e) auto
    with step_plain [OF ok n assms(3)] False show ?thesis by (metis (no_types, lifting) ext)
  next
    case True
    then obtain c i where e: "e = EvRequire c i" by blast
    then have "pm_run n E (CallRequire c (Client i)) s = ret t" using n by simp
    from run_call [OF assms(1) this assms(3)]
    have "effect E {} (\<lambda>b. []) (\<lambda>b. if b = c then [i] else []) s t"
      unfolding zeros.simps front.simps rear.simps client.simps effect_pre.simps by blast
    moreover have "(\<lambda>b. if b = c then [i] else []) = (\<lambda>b. asked b [e])" using e by auto
    ultimately show ?thesis using effect_mono by fastforce
  qed
qed

lemma step_pointers:
  assumes "pm_step E s e t" "pointers_ok s"
  shows "\<exists>D. pointer_post D s t"
proof -
  obtain n where n: "pm_handle (pm_run n E) e s = ret t" using assms(1) by (auto simp: pm_step_def)
  have call: "pointer_post (deletes c) u v" if "pm_run n E c u = ret v" "pointers_ok u" "pointer_pre c u" for c u v
    using pointers.run_relation [OF that(1)] that(2,3) by (simp add: pointer_rel_def)
  have ok: "calls_ok (pm_run n E)" using call by (auto simp: calls_ok_def)
  from n show ?thesis
  proof (cases rule: pm_handle_cases)
    case (require c i)
    then show ?thesis using call [OF _ assms(2)] by fastforce
  next
    case (close tid)
    then show ?thesis using timer_Close_post assms(2) by blast
  next
    case (idle tid)
    then show ?thesis using pointer_post_refl assms(2) by blast
  next
    case (check tid a u)
    have "pointer_post {} s u" using call [OF check(2) assms(2)] by simp
    then have "pointer_post {} s t" unfolding check(3) by (rule post_then) (erule pointer_post_upd, simp)
    then show ?thesis by blast
  next
    case (error pid x a)
    then show ?thesis using call [OF error(3) assms(2)] by auto
  next
    case (app_exit pid c sg a)
    then show ?thesis using call [OF app_exit(3) assms(2)] by auto
  next
    case (check_exit pid c sg st a k u)
    have su: "pointer_post {} s u"
      using call_after [OF ok check_exit(5) pointer_emit_plain(3) [OF assms(2)]] by simp
    have "pid < next_pid s" using assms(2) check_exit(2) by (simp add: pointers_ok_def)
    with su check_exit(2) have "procs u pid = Some (CheckProcess a k)" by (simp add: pointer_post_def)
    then have "m_process (app u b) \<noteq> Some pid" for b
      using pointer_post_ok [OF su] by (auto simp: pointers_ok_def)
    from pointer_post_trans [OF su pointer_post_delete [OF pointer_post_ok [OF su] this]]
    show ?thesis unfolding check_exit(4) by blast
  qed (use assms(2) pointer_post_same [of s t] in fastforce)+
qed

end
