(* ===== verification/ProcessManagerTermination.thy ===== *)
theory ProcessManagerTermination
  imports ProcessManagerAnswers
begin

text \<open>
  Every event of the process manager is handled in finitely many nested calls when the
  preambles of the configuration are acyclic: going down from an app to its preambles and up
  from an app to those waiting for it both come to an end. More fuel never changes an outcome.
\<close>

section \<open>Fuel\<close>

definition leP :: "'a outcome \<Rightarrow> 'a outcome \<Rightarrow> bool" where
  "leP x y \<longleftrightarrow> x = None \<or> x = y"

lemma leP_refl [simp]: "leP x x"
  by (simp add: leP_def)

lemma leP_bind: "leP x y \<Longrightarrow> (\<And>s. leP (f s) (g s)) \<Longrightarrow> leP (bindP x f) (bindP y g)"
  by (auto simp: leP_def bindP_def split: option.split sum.split)

lemma leP_trans: "leP x y \<Longrightarrow> leP y z \<Longrightarrow> leP x z"
  by (auto simp: leP_def)

lemma pm_call_mono:
  assumes "\<And>c s. leP (go c s) (go' c s)"
  shows "leP (pm_call go E c s) (pm_call go' E c s)"
proof -
  note rules = assms leP_bind leP_refl
  show ?thesis
  proof (cases c)
    case (CallClear a e)
    then show ?thesis by (auto simp: ClearCallbacks_def intro!: rules)
  next
    case (CallLoop a orig cbs e)
    then show ?thesis by (cases cbs) (auto simp: callback_loop_def intro!: rules)
  next
    case (CallCallback cb a p e)
    then show ?thesis by (cases cb) (auto simp: call_callback_def preamble_callback_def Let_def intro!: rules)
  next
    case (CallThen k e)
    then show ?thesis
      by (cases k; cases "spawn E (next_pid s)")
        (auto simp: call_then_def start_then_alt require_then_def tick_then_def intro!: rules split: option.split)
  next
    case (CallError a pid e)
    then show ?thesis by (auto simp: app_error_def intro!: rules)
  next
    case (CallExit a pid st sg)
    then show ?thesis unfolding CallExit pm_call.simps app_exit_def Let_def by (intro rules) (simp add: assms)
  next
    case (CallStart a)
    then show ?thesis by (auto simp: pm_Start_def intro!: rules)
  next
    case (CallCheckPreamble a)
    then show ?thesis by (auto simp: CheckPreamble_def Let_def intro!: rules)
  next
    case (CallRequireEach a cs)
    then show ?thesis by (cases cs) (auto simp: require_each_def intro!: rules)
  next
    case (CallRequire c' cb)
    then show ?thesis by (auto simp: Require_def Let_def intro!: rules)
  next
    case (CallCheck c' k)
    then show ?thesis
      by (cases "spawn E (next_pid s)") (auto simp: Check_def new_process_def intro!: rules)
  qed
qed

lemma pm_run_mono: "leP (pm_run n E c s) (pm_run (Suc n) E c s)"
proof (induction n arbitrary: c s)
  case 0
  then show ?case by (simp add: leP_def)
next
  case (Suc n)
  show ?case unfolding pm_run.simps(2) [of "Suc n"] by (subst pm_run.simps(2)) (rule pm_call_mono [OF Suc])
qed

lemma pm_run_more: "pm_run n E c s = Some r \<Longrightarrow> n \<le> m \<Longrightarrow> pm_run m E c s = Some r"
proof (induction m)
  case (Suc m)
  then show ?case using pm_run_mono [of m E c s] by (cases "n = Suc m") (auto simp: leP_def simp del: pm_run.simps)
qed simp

text \<open>
  An outcome by fuel settles when it is not \<open>None\<close> from some fuel on; then it is always the
  same.
\<close>

definition settles :: "(nat \<Rightarrow> 'a outcome) \<Rightarrow> bool" where
  "settles X \<longleftrightarrow> (\<exists>n r. \<forall>m\<ge>n. X m = Some r)"

lemma settles_const [simp]: "settles (\<lambda>n. Some r)"
  by (auto simp: settles_def)

lemma settles_bind:
  assumes "settles X" "\<And>s' n. (\<forall>m\<ge>n. X m = ret s') \<Longrightarrow> settles (\<lambda>n. F n s')"
  shows "settles (\<lambda>n. bindP (X n) (F n))"
proof -
  obtain n r where n: "\<forall>m\<ge>n. X m = Some r" using assms(1) by (auto simp: settles_def)
  show ?thesis
  proof (cases r)
    case (Inl e)
    with n have "\<forall>m\<ge>n. bindP (X m) (F m) = Some (Inl e)" by simp
    then show ?thesis unfolding settles_def by blast
  next
    case (Inr s')
    with n assms(2) [of n s'] obtain k q where k: "\<forall>m\<ge>k. F m s' = Some q" by (auto simp: settles_def)
    with n Inr have "\<forall>m\<ge>max n k. bindP (X m) (F m) = Some q" by simp
    then show ?thesis unfolding settles_def by blast
  qed
qed

lemma settles_if [simp]: "settles (\<lambda>n. if b then X n else Y n) = (if b then settles X else settles Y)"
  by simp

lemma settles_option [simp]:
  "settles (\<lambda>n. case x of None \<Rightarrow> X n | Some y \<Rightarrow> Y n y) = (case x of None \<Rightarrow> settles X | Some y \<Rightarrow> settles (\<lambda>n. Y n y))"
  by (simp split: option.split)

definition ends :: "pm_env \<Rightarrow> call \<Rightarrow> pm \<Rightarrow> bool" where
  "ends E c s \<longleftrightarrow> settles (\<lambda>n. pm_run n E c s)"

lemma ends_iff: "ends E c s \<longleftrightarrow> (\<exists>n. pm_run n E c s \<noteq> None)"
  unfolding ends_def settles_def using pm_run_more [of _ E c s] by (metis not_None_eq order_refl)

lemma ends_call: "settles (\<lambda>n. pm_call (pm_run n E) E c s) \<Longrightarrow> ends E c s"
  unfolding ends_iff settles_def by (metis option.distinct(1) order_refl pm_run.simps(2))

lemma settles_run [simp]: "settles (\<lambda>n. pm_run n E c s) = ends E c s"
  by (simp add: ends_def)

section \<open>Who waits for whom\<close>

text \<open>A preamble callback waits on a preamble of its app.\<close>

definition callback_ok :: "pm_env \<Rightarrow> nat \<Rightarrow> callback \<Rightarrow> bool" where
  "callback_ok E a cb \<longleftrightarrow> (\<forall>p. cb = PreambleOf p \<longrightarrow> a \<in> set (app_preamble (conf E p)))"

definition waits_ok :: "pm_env \<Rightarrow> pm \<Rightarrow> bool" where
  "waits_ok E s \<longleftrightarrow> (\<forall>a. \<forall>cb \<in> set (callbacks (app s a)). callback_ok E a cb)"

fun waits_pre :: "pm_env \<Rightarrow> call \<Rightarrow> bool" where
  "waits_pre E (CallRequire c cb) = callback_ok E c cb"
| "waits_pre E (CallRequireEach a cs) = (set cs \<subseteq> set (app_preamble (conf E a)))"
| "waits_pre E c = True"

definition waits_rel :: "pm_env \<Rightarrow> call \<Rightarrow> pm \<Rightarrow> pm \<Rightarrow> bool" where
  "waits_rel E c s s' \<longleftrightarrow> (waits_ok E s \<longrightarrow> waits_pre E c \<longrightarrow> waits_ok E s')"

lemma waits_upd: "waits_ok E s \<Longrightarrow> (\<And>m. set (callbacks (f m)) \<subseteq> set (callbacks m)) \<Longrightarrow> waits_ok E (upd a f s)"
  by (fastforce simp: waits_ok_def upd_def)

lemma waits_same: "waits_ok E s \<Longrightarrow> app t = app s \<Longrightarrow> waits_ok E t"
  by (simp add: waits_ok_def)

lemma waits_state [simp]:
  "waits_ok E (emit l s) = waits_ok E s" "waits_ok E (delete_process p s) = waits_ok E s"
  "waits_ok E (s\<lparr>procs := p', next_pid := n'\<rparr>) = waits_ok E s"
  by (simp_all add: waits_ok_def emit_def delete_process_def)

lemma launched_waits: "waits_ok E s \<Longrightarrow> waits_ok E (launched a s)"
  unfolding launched_def by (rule waits_upd) (simp_all add: waits_ok_def new_process_def new_timer_def)

definition waits_go :: "pm_env \<Rightarrow> caller \<Rightarrow> bool" where
  "waits_go E go \<longleftrightarrow> (\<forall>c s s'. go c s = ret s' \<longrightarrow> waits_ok E s \<longrightarrow> waits_pre E c \<longrightarrow> waits_ok E s')"

lemma waits_goD: "waits_go E go \<Longrightarrow> go c s = ret s' \<Longrightarrow> waits_ok E s \<Longrightarrow> waits_pre E c \<Longrightarrow> waits_ok E s'"
  by (simp add: waits_go_def)

text \<open>An outcome all of whose results keep the invariant.\<close>

definition keeps :: "pm_env \<Rightarrow> pm outcome \<Rightarrow> bool" where
  "keeps E r \<longleftrightarrow> (\<forall>s'. r = ret s' \<longrightarrow> waits_ok E s')"

lemma keeps_simps [simp]: "keeps E None" "keeps E (Some (Inl f))" "keeps E (ret s) = waits_ok E s"
  by (simp_all add: keeps_def)

lemma keeps_bind: "keeps E r \<Longrightarrow> (\<And>s. waits_ok E s \<Longrightarrow> keeps E (f s)) \<Longrightarrow> keeps E (bindP r f)"
  by (auto simp: keeps_def bindP_ret_iff)

lemma keeps_go: "waits_go E go \<Longrightarrow> waits_ok E s \<Longrightarrow> waits_pre E c \<Longrightarrow> keeps E (go c s)"
  using waits_goD by (auto simp: keeps_def)

lemma keeps_timer: "waits_ok E s \<Longrightarrow> keeps E (timer_Close t s)"
  by (auto simp: timer_Close_def waits_ok_def split: option.split)

lemma keeps_kill: "waits_ok E s \<Longrightarrow> keeps E (process_Kill p s)"
  by (simp add: process_Kill_def)

lemma method_waits:
  assumes "waits_go E go" "waits_ok E s" "waits_pre E c"
  shows "keeps E (pm_call go E c s)"
proof -
  note go = keeps_go [OF assms(1)]
  note rules = go keeps_bind keeps_timer keeps_kill waits_upd assms(2) launched_waits [OF assms(2)]
  show ?thesis
  proof (cases c)
    case (CallClear a e)
    then show ?thesis by (auto simp: ClearCallbacks_def intro!: rules)
  next
    case (CallLoop a orig cbs e)
    then show ?thesis by (cases cbs) (auto simp: callback_loop_def intro!: rules)
  next
    case (CallCallback cb a p e)
    then show ?thesis by (cases cb) (auto simp: call_callback_def preamble_callback_def Let_def intro!: rules)
  next
    case (CallThen k e)
    then show ?thesis
      by (cases k; cases "spawn E (next_pid s)")
        (auto simp: call_then_def start_then_alt require_then_def tick_then_def intro!: rules split: option.split)
  next
    case (CallError a pid e)
    then show ?thesis by (auto simp: app_error_def intro!: rules)
  next
    case (CallExit a pid st sg)
    then show ?thesis by (auto simp: app_exit_def Let_def intro!: rules)
  next
    case (CallStart a)
    then show ?thesis by (auto simp: pm_Start_def intro!: rules)
  next
    case (CallCheckPreamble a)
    then show ?thesis by (auto simp: CheckPreamble_def Let_def intro!: rules)
  next
    case (CallRequireEach a cs)
    with assms(3) show ?thesis by (cases cs) (auto simp: require_each_def callback_ok_def intro!: rules)
  next
    case (CallRequire c' cb)
    have "waits_ok E (upd c' (\<lambda>m. m\<lparr>callbacks := callbacks m @ [cb]\<rparr>) s)"
      using assms(2,3) CallRequire by (auto simp: waits_ok_def upd_def)
    with CallRequire show ?thesis by (auto simp: Require_def Let_def intro!: go)
  next
    case (CallCheck c' k)
    then show ?thesis
      by (cases "spawn E (next_pid s)") (auto simp: Check_def new_process_def intro!: rules)
  qed
qed

interpretation waits: call_relation E "waits_rel E" for E
proof unfold_locales
  fix go c s s'
  assume "\<And>c s s'. go c s = ret s' \<Longrightarrow> waits_rel E c s s'" "pm_call go E c s = ret s'"
  then show "waits_rel E c s s'" using method_waits [of E go s c]
    by (auto simp: waits_rel_def waits_go_def keeps_def)
qed

lemma run_waits: "pm_run n E c s = ret s' \<Longrightarrow> waits_ok E s \<Longrightarrow> waits_pre E c \<Longrightarrow> waits_ok E s'"
  using waits.run_relation by (auto simp: waits_rel_def)

section \<open>Calls end\<close>

text \<open>
  Preambles are ranked below the apps they belong to, ranks are bounded, and no process fails
  so early that its exit is reported before \<open>Start\<close> returns.
\<close>

definition acyclic_env :: "pm_env \<Rightarrow> (nat \<Rightarrow> nat) \<Rightarrow> nat \<Rightarrow> bool" where
  "acyclic_env E rk R \<longleftrightarrow> (\<forall>a. rk a < R \<and> (\<forall>c \<in> set (app_preamble (conf E a)). rk c < rk a)) \<and> (\<forall>p e. spawn E p \<noteq> FailsNow e)"

lemma ends_run_bind:
  assumes "ends E c s" "waits_ok E s" "waits_pre E c" "\<And>s'. waits_ok E s' \<Longrightarrow> settles (\<lambda>n. F n s')"
  shows "settles (\<lambda>n. bindP (pm_run n E c s) (F n))"
proof (rule settles_bind)
  show "settles (\<lambda>n. pm_run n E c s)" using assms(1) by simp
  fix s' n
  assume "\<forall>m\<ge>n. pm_run m E c s = ret s'"
  then have "pm_run n E c s = ret s'" by simp
  from run_waits [OF this assms(2,3)] show "settles (\<lambda>n. F n s')" by (rule assms(4))
qed

text \<open>Up: from an app to those that wait for it.\<close>

lemma loop_ends:
  assumes up: "\<And>p s err. a \<in> set (app_preamble (conf E p)) \<Longrightarrow> waits_ok E s \<Longrightarrow> ends E (CallThen (StartThen p) err) s"
  shows "waits_ok E s \<Longrightarrow> \<forall>cb \<in> set cbs. callback_ok E a cb \<Longrightarrow> ends E (CallLoop a orig cbs err) s"
proof (induction cbs arbitrary: s)
  case Nil
  show ?case by (rule ends_call) (simp add: callback_loop_def)
next
  case (Cons cb rest)
  have "ends E (CallCallback cb a (m_process (app s a)) err) s"
  proof (rule ends_call, cases cb)
    case (Client i)
    then show "settles (\<lambda>n. pm_call (pm_run n E) E (CallCallback cb a (m_process (app s a)) err) s)"
      by (simp add: call_callback_def)
  next
    case (PreambleOf p)
    let ?s1 = "upd p (\<lambda>m. m\<lparr>pending_preamble := pending_preamble m - 1\<rparr>) s"
    let ?s2 = "if err \<noteq> 0 then upd p (\<lambda>m. m\<lparr>error_preamble := error_preamble m + 1\<rparr>) ?s1 else ?s1"
    have "waits_ok E ?s2" using Cons.prems(1) by (auto intro!: waits_upd)
    moreover have "a \<in> set (app_preamble (conf E p))" using Cons.prems(2) PreambleOf by (simp add: callback_ok_def)
    ultimately have e: "ends E (CallThen (StartThen p) e) ?s2 = True" for e using up by blast
    then show "settles (\<lambda>n. pm_call (pm_run n E) E (CallCallback cb a (m_process (app s a)) err) s)"
      unfolding PreambleOf pm_call.simps call_callback_def callback.case preamble_callback_def Let_def settles_if settles_run
      by (simp only: e settles_const if_cancel)
  qed
  then have "settles (\<lambda>n. bindP (pm_run n E (CallCallback cb a (m_process (app s a)) err) s)
      ((\<lambda>n s. if callbacks (app s a) \<noteq> orig then Some (Inl BadIterator) else pm_run n E (CallLoop a orig rest err) s) n))"
    by (rule ends_run_bind) (use Cons in simp_all)
  then show ?case by (intro ends_call) (simp add: callback_loop_def)
qed

lemma clear_ends:
  assumes up: "\<And>p s err. a \<in> set (app_preamble (conf E p)) \<Longrightarrow> waits_ok E s \<Longrightarrow> ends E (CallThen (StartThen p) err) s"
    and "waits_ok E s"
  shows "ends E (CallClear a err) s"
proof -
  have "ends E (CallLoop a (callbacks (app s a)) (callbacks (app s a)) err) s"
    by (rule loop_ends [OF up assms(2)]) (use assms(2) in \<open>simp_all add: waits_ok_def\<close>)
  from ends_run_bind [OF this assms(2), where F = "\<lambda>n s. ret (upd a (\<lambda>m. m\<lparr>callbacks := []\<rparr>) s)"]
  show ?thesis by (intro ends_call) (simp add: ClearCallbacks_def)
qed

lemma up_ends:
  assumes "acyclic_env E rk R"
  shows "waits_ok E s \<Longrightarrow> ends E (CallThen (StartThen a) err) s"
proof (induction "R - rk a" arbitrary: a s err rule: less_induct)
  case less
  have up: "ends E (CallThen (StartThen p) x) s" if "a \<in> set (app_preamble (conf E p))" "waits_ok E s" for p s x
  proof -
    have "R - rk p < R - rk a" using assms that(1) by (simp add: acyclic_env_def diff_less_mono2)
    then show ?thesis using less.hyps that(2) by blast
  qed
  have clear: "ends E (CallClear a x) t" if "waits_ok E t" for t x by (rule clear_ends [OF up that])
  have error: "ends E (CallError a pid x) t" if "waits_ok E t" for t pid x
    by (rule ends_call) (use that in \<open>simp add: app_error_def clear waits_upd\<close>)
  show ?case
  proof (rule ends_call, cases "err = 0")
    case False
    then show "settles (\<lambda>n. pm_call (pm_run n E) E (CallThen (StartThen a) err) s)"
      by (simp add: call_then_def start_then_alt clear less.prems)
  next
    case True
    note L = launched_waits [OF less.prems, of a]
    show "settles (\<lambda>n. pm_call (pm_run n E) E (CallThen (StartThen a) err) s)"
    proof (cases "spawn E (next_pid s)")
      case Started
      with True show ?thesis by (simp add: call_then_def start_then_alt)
    next
      case (FailsLate e)
      with True ends_run_bind [OF error [OF L] L, where F = "\<lambda>n s'. ret (emit (ObservedStart (next_pid s)) s')"]
      show ?thesis by (simp add: call_then_def start_then_alt)
    next
      case (FailsNow e)
      with assms show ?thesis by (simp add: acyclic_env_def)
    qed
  qed
qed

lemma clear_ends_all: "acyclic_env E rk R \<Longrightarrow> waits_ok E s \<Longrightarrow> ends E (CallClear a err) s"
  by (rule clear_ends) (rule up_ends)

lemma tick_then_ends:
  assumes "acyclic_env E rk R" "waits_ok E s"
  shows "ends E (CallThen (TickThen a tid) err) s"
proof (rule ends_call)
  have "settles (\<lambda>n. bindP (timer_Close tid s) (\<lambda>s. pm_run n E (CallClear a err) (upd a (\<lambda>m. m\<lparr>checker_timer := None\<rparr>) s)))"
  proof (cases "timer_Close tid s")
    case (Some r)
    then show ?thesis using keeps_timer [OF assms(2), of tid]
      by (cases r) (simp_all add: clear_ends_all [OF assms(1)] waits_upd)
  qed (simp add: timer_Close_def split: option.splits prod.splits)
  then have "settles (\<lambda>n. if b then bindP (timer_Close tid s) (\<lambda>s. pm_run n E (CallClear a err) (upd a (\<lambda>m. m\<lparr>checker_timer := None\<rparr>) s)) else ret s)" for b
    by (cases b) simp_all
  from settles_bind [OF this, where F = "\<lambda>n s. ret (upd a (\<lambda>m. m\<lparr>is_checking := False\<rparr>) s)"]
  show "settles (\<lambda>n. pm_call (pm_run n E) E (CallThen (TickThen a tid) err) s)"
    by (simp add: call_then_def tick_then_def)
qed

text \<open>Down: from an app to its preambles.\<close>

lemma check_ends:
  assumes "acyclic_env E rk R" "waits_ok E s"
    and "\<And>s err. waits_ok E s \<Longrightarrow> ends E (CallThen k err) s"
  shows "ends E (CallCheck c k) s"
proof (rule ends_call, cases "app_checker (conf E c) = None")
  case True
  with assms(2,3) show "settles (\<lambda>n. pm_call (pm_run n E) E (CallCheck c k) s)" by (simp add: Check_def)
next
  case False
  let ?s1 = "snd (new_process (CheckProcess c k) s)"
  have w: "waits_ok E ?s1" using assms(2) by (simp add: new_process_def)
  show "settles (\<lambda>n. pm_call (pm_run n E) E (CallCheck c k) s)"
  proof (cases "spawn E (next_pid s)")
    case Started
    with False show ?thesis by (auto simp: Check_def new_process_def Let_def)
  next
    case (FailsLate e)
    from w have we: "waits_ok E (emit (ObservedError (next_pid s) e) ?s1)" by simp
    with False FailsLate ends_run_bind [OF assms(3) [OF we] we, where F = "\<lambda>n s'. ret (emit (ObservedStart (next_pid s)) s')"]
    show ?thesis by (auto simp: Check_def new_process_def Let_def)
  next
    case (FailsNow e)
    with assms(1) show ?thesis by (simp add: acyclic_env_def)
  qed
qed

lemma require_then_ends:
  assumes "acyclic_env E rk R" "waits_ok E s" "\<And>s. waits_ok E s \<Longrightarrow> ends E (CallStart a) s"
  shows "ends E (CallThen (ReqThen a) err) s"
proof (rule ends_call)
  have "settles (\<lambda>n. process_Kill pid t)" for pid t by (simp add: process_Kill_def)
  with assms(2) show "settles (\<lambda>n. pm_call (pm_run n E) E (CallThen (ReqThen a) err) s)"
    by (cases "m_process (app s a)")
      (auto simp: call_then_def require_then_def clear_ends_all [OF assms(1)] intro!: assms(3) waits_upd)
qed

lemma down_ends:
  assumes "acyclic_env E rk R"
  shows "waits_ok E s \<Longrightarrow> ends E (CallStart a) s"
proof (induction "rk a" arbitrary: a s rule: less_induct)
  case less
  have require: "ends E (CallRequire c (PreambleOf a)) t" if "c \<in> set (app_preamble (conf E a))" "waits_ok E t" for c t
  proof (rule ends_call)
    let ?t = "upd c (\<lambda>m. m\<lparr>callbacks := callbacks m @ [PreambleOf a]\<rparr>) t"
    have rk: "rk c < rk a" using assms that(1) by (simp add: acyclic_env_def)
    have w: "waits_ok E ?t" using that by (auto simp: waits_ok_def upd_def callback_ok_def)
    have "ends E (CallThen (ReqThen c) x) u" if "waits_ok E u" for u x
      by (rule require_then_ends [OF assms that]) (rule less.hyps [OF rk])
    from check_ends [OF assms w this]
    show "settles (\<lambda>n. pm_call (pm_run n E) E (CallRequire c (PreambleOf a)) t)"
      by (simp add: Require_def Let_def)
  qed
  have each: "set cs \<subseteq> set (app_preamble (conf E a)) \<Longrightarrow> waits_ok E t \<Longrightarrow> ends E (CallRequireEach a cs) t" for cs t
  proof (induction cs arbitrary: t)
    case Nil
    show ?case by (rule ends_call) (simp add: require_each_def)
  next
    case (Cons c cs)
    then have c: "c \<in> set (app_preamble (conf E a))" by simp
    from Cons have "settles (\<lambda>n. bindP (pm_run n E (CallRequire c (PreambleOf a)) t) (pm_run n E (CallRequireEach a cs)))"
      by (intro ends_run_bind [OF require [OF c Cons.prems(2)]]) (use c in \<open>auto simp: callback_ok_def\<close>)
    then show ?case by (intro ends_call) (simp add: require_each_def)
  qed
  let ?s = "upd a (\<lambda>m. m\<lparr>error_preamble := 0, pending_preamble := int (length (app_preamble (conf E a)))\<rparr>) s"
  have w: "waits_ok E ?s" using less.prems by (rule waits_upd) simp
  have "ends E (CallCheckPreamble a) s"
    by (rule ends_call, unfold pm_call.simps CheckPreamble_def Let_def settles_if settles_run)
      (use up_ends [OF assms w] each [OF subset_refl w] in presburger)
  then show ?case by (intro ends_call) (simp add: pm_Start_def)
qed

lemma require_ends:
  assumes "acyclic_env E rk R" "waits_ok E s"
  shows "ends E (CallRequire c (Client i)) s"
proof (rule ends_call)
  let ?s = "upd c (\<lambda>m. m\<lparr>callbacks := callbacks m @ [Client i]\<rparr>) s"
  have w: "waits_ok E ?s" using assms(2) by (auto simp: waits_ok_def upd_def callback_ok_def)
  have "ends E (CallThen (ReqThen c) x) u" if "waits_ok E u" for u x
    by (rule require_then_ends [OF assms(1) that]) (rule down_ends [OF assms(1)])
  from check_ends [OF assms(1) w this] show "settles (\<lambda>n. pm_call (pm_run n E) E (CallRequire c (Client i)) s)"
    by (simp add: Require_def Let_def)
qed

section \<open>Events end\<close>

lemma exit_ends:
  assumes "acyclic_env E rk R" "waits_ok E s"
  shows "ends E (CallExit a pid st sg) s"
proof (rule ends_call)
  let ?st = "if st \<noteq> 0 then st else sg"
  let ?s1 = "upd a (\<lambda>m. m\<lparr>m_process := None\<rparr>) (emit (ObservedExit pid ?st sg) s)"
  let ?s2 = "upd a (\<lambda>m. m\<lparr>restart := False\<rparr>) ?s1"
  have w: "waits_ok E ?s1" using assms(2) by (intro waits_upd) simp_all
  have w2: "waits_ok E ?s2" using w by (rule waits_upd) simp
  have "settles (\<lambda>n. if ?st \<noteq> 0
                then if restart (app ?s1 a) then pm_run n E (CallStart a) ?s2
                     else if app_checker (conf E a) = None then pm_run n E (CallClear a (int_of_int64 ?st)) ?s1
                     else ret ?s1
                else ret ?s1)"
    unfolding settles_if settles_run using down_ends [OF assms(1) w2] clear_ends_all [OF assms(1) w] by simp
  from settles_bind [OF this, where F = "\<lambda>n s. ret (delete_process pid s)"]
  show "settles (\<lambda>n. pm_call (pm_run n E) E (CallExit a pid st sg) s)"
    unfolding pm_call.simps app_exit_def Let_def by simp
qed

text \<open>Checks under way continue with a lambda of a require or of a timer.\<close>

lemma handle_settles:
  assumes "acyclic_env E rk R" "waits_ok E s" "checks_ok s"
  shows "settles (\<lambda>n. pm_handle (pm_run n E) e s)"
proof (cases e)
  case (EvRequire c i)
  with require_ends [OF assms(1,2)] show ?thesis by simp
next
  case (EvTick t)
  have "ends E (CallCheck a (TickThen a t)) s" for a
    by (rule check_ends [OF assms(1,2)]) (rule tick_then_ends [OF assms(1)])
  then have c: "settles (\<lambda>n. bindP (pm_run n E (CallCheck a (TickThen a t)) s) (\<lambda>s. ret (upd a (\<lambda>m. m\<lparr>is_checking := True\<rparr>) s)))" for a
    by (intro settles_bind) simp_all
  have k: "settles (\<lambda>n. timer_Close t s)" by (simp add: timer_Close_def split: option.split)
  have "settles (\<lambda>n. timer_tick (pm_run n E) a t s)" for a
    unfolding timer_tick_def settles_if using c k by simp
  with EvTick show ?thesis by (cases "timers s t") auto
next
  case (EvError pid x)
  have "ends E (CallError a pid x) s" for a
    by (rule ends_call) (use assms(2) in \<open>simp add: app_error_def clear_ends_all [OF assms(1)] waits_upd\<close>)
  then have "settles (\<lambda>n. case k of AppProcess a \<Rightarrow> pm_run n E (CallError a pid x) s | CheckProcess c k \<Rightarrow> Some (Inl UseAfterFree))" for k
    by (cases k) simp_all
  with EvError show ?thesis by (cases "procs s pid") (simp_all add: process_error_def)
next
  case (EvExit pid c sg)
  let ?st = "if c \<noteq> 0 then c else sg"
  have check: "settles (\<lambda>n. bindP (pm_run n E (CallThen k (int_of_int64 ?st)) (emit (ObservedExit pid ?st sg) s)) (\<lambda>s. ret (delete_process pid s)))"
    if "own_check a k" for a k
  proof -
    have w: "waits_ok E (emit (ObservedExit pid ?st sg) s)" using assms(2) by simp
    have "ends E (CallThen k (int_of_int64 ?st)) (emit (ObservedExit pid ?st sg) s)"
      using that require_then_ends [OF assms(1) w down_ends [OF assms(1)]] tick_then_ends [OF assms(1) w]
      unfolding own_check_def by blast
    then show ?thesis by (intro settles_bind) simp_all
  qed
  show ?thesis
  proof (cases "procs s pid")
    case None
    with EvExit show ?thesis by (simp add: process_exit_def)
  next
    case (Some pk)
    show ?thesis
    proof (cases pk)
      case (AppProcess a)
      with Some EvExit exit_ends [OF assms(1,2)] show ?thesis by (simp add: process_exit_def)
    next
      case (CheckProcess a k)
      with Some assms(3) have "own_check a k" by (simp add: checks_ok_def)
      from check [OF this] Some CheckProcess EvExit show ?thesis
        unfolding EvExit pm_handle.simps process_exit_def Let_def by simp
    qed
  qed
qed simp_all

lemma step_waits:
  assumes "pm_step E s e t" "waits_ok E s"
  shows "waits_ok E t"
proof -
  obtain n where n: "pm_handle (pm_run n E) e s = ret t" using assms(1) by (auto simp: pm_step_def)
  have go: "waits_go E (pm_run n E)" using run_waits by (auto simp: waits_go_def)
  note rules = keeps_go [OF go] keeps_bind keeps_timer waits_upd assms(2)
  have "keeps E (pm_handle (pm_run n E) e s)"
  proof (cases e)
    case (EvRequire c i)
    then show ?thesis by (auto simp: callback_ok_def intro!: rules)
  next
    case (EvTick t)
    then show ?thesis by (cases "timers s t") (auto simp: timer_tick_def intro!: rules)
  next
    case (EvError pid x)
    then show ?thesis by (auto simp: process_error_def intro!: rules split: option.split pkind.split)
  next
    case (EvExit pid c sg)
    then show ?thesis by (auto simp: process_exit_def Let_def intro!: rules split: option.split pkind.split)
  qed (use assms(2) in \<open>simp_all add: waits_ok_def\<close>)
  with n show ?thesis by (simp add: keeps_def)
qed

lemma run_waits_ok: "run (pm_step E) s es t \<Longrightarrow> waits_ok E s \<Longrightarrow> waits_ok E t"
  by (induction rule: run.induct) (auto intro: step_waits)

text \<open>A step is determined by its event.\<close>

lemma pm_run_unique: "pm_run n E c s = Some r \<Longrightarrow> pm_run m E c s = Some q \<Longrightarrow> r = q"
  using pm_run_more [of n E c s r "max n m"] pm_run_more [of m E c s q "max n m"] by simp

end
