(* ===== verification/ProcessManagerClaims.thy ===== *)
theory ProcessManagerClaims
  imports ProcessManagerTermination
begin

text \<open>
  The properties of the process manager over whole runs, and runs that go wrong.
\<close>

section \<open>Runs\<close>

definition pm_init :: "pm \<Rightarrow> bool" where
  "pm_init s \<longleftrightarrow> s = new_pm"

definition pm_good :: "pm \<Rightarrow> bool" where
  "pm_good s \<longleftrightarrow> pointers_ok s \<and> checks_ok s"

interpretation pms: invariant_system pm_init "\<lambda>s e t. spawn_errors E \<and> pm_step E s e t" pm_good for E
proof unfold_locales
  show "pm_good s" if "pm_init s" for s
    using that by (simp add: pm_init_def pm_good_def pointers_ok_def checks_ok_def new_pm_def new_mapp_def)
  show "pm_good t" if "pm_good s" "spawn_errors E \<and> pm_step E s e t" for s e t
    using that step_pointers [of E s e t] step_effect [of E s e t] effect_checks pointer_post_ok
    by (auto simp: pm_good_def)
qed

text \<open>Executing a sequence of events with a given fuel.\<close>

primrec pm_exec :: "nat \<Rightarrow> pm_env \<Rightarrow> pm_event list \<Rightarrow> pm \<Rightarrow> pm outcome" where
  "pm_exec n E [] s = ret s"
| "pm_exec n E (e # es) s = (if pm_allowed s e then bindP (pm_handle (pm_run n E) e s) (pm_exec n E es) else None)"

lemma pm_exec_run: "pm_exec n E es s = ret t \<Longrightarrow> run (pm_step E) s es t"
  by (induction es arbitrary: s) (auto simp: bindP_ret_iff pm_step_def run_Nil split: if_splits intro!: run_Cons)

lemma run_pm_good: "run (pm_step E) s es t \<Longrightarrow> spawn_errors E \<Longrightarrow> pm_good s \<Longrightarrow> pm_good t"
  by (induction rule: run.induct) (auto dest: pms.inv_step [of _ E, OF _ conjI])

lemma run_answers:
  assumes "run (pm_step E) s es t" "spawn_errors E" "pm_good s"
  shows "\<exists>l. out t = out s @ l \<and> waiting b s @ asked b es = answered b l @ waiting b t"
  using assms
proof (induction rule: run.induct)
  case (run_Nil s)
  then show ?case by simp
next
  case (run_Cons s e t es u)
  have "effect E (succeeded s e) (\<lambda>b. []) (\<lambda>b. asked b [e]) s t"
    using step_effect run_Cons.prems run_Cons.hyps(1) by (simp add: pm_good_def)
  then obtain l where l: "out t = out s @ l" "waiting b s @ asked b [e] = answered b l @ waiting b t"
    unfolding effect_def append_Nil by blast
  have "pm_good t" using pms.inv_step [OF run_Cons.prems(2) conjI [OF run_Cons.prems(1) run_Cons.hyps(1)]] .
  with run_Cons obtain l' where l': "out u = out t @ l'" "waiting b t @ asked b es = answered b l' @ waiting b u" by blast
  have "asked b (e # es) = asked b [e] @ asked b es" using asked_simps(2) [of b "[e]" es] by simp
  then have "waiting b s @ asked b (e # es) = answered b (l @ l') @ waiting b u"
    using l(2) l'(2) by (metis append.assoc answered_simps(3))
  with l(1) l'(1) show ?case by (metis append.assoc)
qed

section \<open>A sample configuration\<close>

definition sample_command :: Command where
  "sample_command = \<lparr>cmd_file = ''f'', cmd_args = [], cmd_env = [], cmd_cwd = [], cmd_timeout = 0\<rparr>"

text \<open>App 0 stands alone, app 1 has a checker and the preamble 0; apps 2 and 3 are each other's preamble; app 4 has a checker.\<close>

definition sample_conf :: "nat \<Rightarrow> App" where
  "sample_conf a = \<lparr>app_name = ''a'', app_command = sample_command,
     app_checker = (if a = 1 \<or> a = 4 then Some sample_command else None), app_max_start_time = 0,
     app_preamble = (if a = 1 then [0] else if a = 2 then [3] else if a = 3 then [2] else []), app_tags = []\<rparr>"

definition sample_env :: pm_env where
  "sample_env = \<lparr>conf = sample_conf, spawn = (\<lambda>_. Started)\<rparr>"

lemma sample_env_errors: "spawn_errors sample_env"
  by (simp add: spawn_errors_def sample_env_def)

lemma int_of_int64_small [simp]: "int_of_int64 0 = 0" "int_of_int64 1 = 1" "int_of_int64 (- 1) = - 1"
  by (simp_all add: int_of_int64_def)

lemmas sample_simps = sample_env_def sample_conf_def new_pm_def new_mapp_def method_defs state_defs start_timeout_def ENOENT_def
  timer_tick_def process_exit_def process_error_def timer_Close_def process_Kill_def Let_def eval_nat_numeral

text \<open>App 4 is required, started after its check failed, checked and found running.\<close>

definition sample_events :: "pm_event list" where
  "sample_events = [EvRequire 4 7, EvRequire 4 8, EvExit 0 1 0, EvTick 0]"

lemma sample_checked: "\<exists>s. pm_exec 9 sample_env sample_events new_pm = ret s
   \<and> m_process (app s 4) = Some 1 \<and> procs s 2 = Some (CheckProcess 4 (TickThen 4 0)) \<and> waiting 4 s = [7, 8] \<and> answered 4 (out s) = []
   \<and> (\<exists>t. pm_exec 9 sample_env [EvExit 2 0 0] s = ret t
       \<and> out t = out s @ [ObservedExit 2 0 0, Called 7 4 (Some 1) 0, Called 8 4 (Some 1) 0])"
  by (simp add: sample_events_def sample_simps waiting_def clients_def answered_def)

lemma run_reach_good:
  "run (pm_step E) s es t \<Longrightarrow> spawn_errors E \<Longrightarrow> reach pm_init (\<lambda>s e t. spawn_errors E \<and> pm_step E s e t) s \<Longrightarrow>
     reach pm_init (\<lambda>s e t. spawn_errors E \<and> pm_step E s e t) t"
  by (induction rule: run.induct) (auto intro: reach_step)

lemma sample_reach:
  assumes "pm_exec n E es new_pm = ret s" "spawn_errors E"
  shows "reach pm_init (\<lambda>s e t. spawn_errors E \<and> pm_step E s e t) s"
  by (rule run_reach_good [OF pm_exec_run [OF assms(1)] assms(2) reach_init]) (simp add: pm_init_def)

lemma new_pm_good: "pm_good new_pm"
  using pms.inv_init by (simp add: pm_init_def)

section \<open>Properties\<close>

text \<open>
  C26: the process pointer of an app, which \<open>Require\<close> kills and the callbacks are given, is
  never left dangling: in every reachable state it points at a process object of that app that
  has not been deleted, and whatever happens next, every process a client is handed or that is
  killed is alive at that moment or was started in the course of the same event.
\<close>

theorem process_pointers:
  assumes "reach pm_init (\<lambda>s e t. spawn_errors E \<and> pm_step E s e t) s"
  shows "(\<forall>a q. m_process (app s a) = Some q \<longrightarrow> procs s q = Some (AppProcess a))
    \<and> (\<forall>e t. pm_step E s e t \<longrightarrow> (\<exists>l. out t = out s @ l \<and> list_all (names_live s t) l))"
proof -
  from pms.reach_inv [OF assms] have good: "pm_good s" .
  have "\<exists>l. out t = out s @ l \<and> list_all (names_live s t) l" if "pm_step E s e t" for e t
    using step_pointers [OF that] good unfolding pm_good_def pointer_post_def by blast
  with good show ?thesis by (simp add: pm_good_def pointers_ok_def)
qed

theorem process_pointers_witness:
  "\<exists>s. m_process (app s 4) = Some 1 \<and> procs s 1 = Some (AppProcess 4)
     \<and> (\<exists>e t. pm_step sample_env s e t \<and> (\<exists>l. out t = out s @ l \<and> l \<noteq> [] \<and> list_all (names_live s t) l))"
proof -
  obtain s t where s: "pm_exec 9 sample_env sample_events new_pm = ret s" "m_process (app s 4) = Some 1"
    "pm_exec 9 sample_env [EvExit 2 0 0] s = ret t" "out t = out s @ [ObservedExit 2 0 0, Called 7 4 (Some 1) 0, Called 8 4 (Some 1) 0]"
    using sample_checked by blast
  have "pm_step sample_env s (EvExit 2 0 0) t"
    using s(3) by (auto simp: pm_step_def bindP_ret_iff split: if_splits)
  moreover from process_pointers [OF sample_reach [OF s(1) sample_env_errors]]
  have p: "\<forall>a q. m_process (app s a) = Some q \<longrightarrow> procs s q = Some (AppProcess a)"
    "\<forall>e t. pm_step sample_env s e t \<longrightarrow> (\<exists>l. out t = out s @ l \<and> list_all (names_live s t) l)" by blast+
  ultimately obtain l where "out t = out s @ l" "list_all (names_live s t) l" by blast
  moreover from this(1) s(4) have "l \<noteq> []" by auto
  ultimately show ?thesis using \<open>pm_step sample_env s (EvExit 2 0 0) t\<close> p(1) s(2) by blast
qed

text \<open>
  C3: every client that requires an app is answered exactly once, in the order of the
  requests: at the end of any run the clients that required an app are those answered about
  it, in the order they were answered, followed by those still waiting.
\<close>

theorem process_answers:
  assumes "spawn_errors E" "run (pm_step E) new_pm es s"
  shows "asked b es = answered b (out s) @ waiting b s"
proof -
  from run_answers [OF assms(2,1) new_pm_good] obtain l where
    "out s = out new_pm @ l" "waiting b new_pm @ asked b es = answered b l @ waiting b s" by blast
  then show ?thesis by (simp add: new_pm_def waiting_def new_mapp_def)
qed

theorem process_answers_witness: "\<exists>s. run (pm_step sample_env) new_pm sample_events s \<and> asked 4 sample_events = [7, 8]
   \<and> asked 4 sample_events = answered 4 (out s) @ waiting 4 s \<and> waiting 4 s = [7, 8]"
proof -
  obtain s where s: "pm_exec 9 sample_env sample_events new_pm = ret s" "waiting 4 s = [7, 8]"
    using sample_checked by blast
  have "asked 4 sample_events = [7, 8]" by (simp add: sample_events_def asked_def)
  with pm_exec_run [OF s(1)] process_answers [OF sample_env_errors pm_exec_run [OF s(1)], of 4] s(2)
  show ?thesis by blast
qed

text \<open>
  C27: success is never made up: when a client waiting for an app with a checker is told error
  0, the event that led to it is the exit of a check of that very app with status 0, or an
  error 0 reported by the app's process (which a read of no bytes reports).
\<close>

theorem process_success:
  assumes "reach pm_init (\<lambda>s e t. spawn_errors E \<and> pm_step E s e t) s" "spawn_errors E" "pm_step E s e t"
    and "app_checker (conf E a) \<noteq> None" "out t = out s @ l" "Called i a p 0 \<in> set l"
  shows "(\<exists>pid c sg k. e = EvExit pid c sg \<and> procs s pid = Some (CheckProcess a k) \<and> int_of_int64 (if c \<noteq> 0 then c else sg) = 0)
    \<or> (\<exists>pid. e = EvError pid 0 \<and> procs s pid = Some (AppProcess a))"
proof -
  have "checks_ok s" using pms.reach_inv [OF assms(1)] by (simp add: pm_good_def)
  from step_effect [OF assms(2,3) this] assms(5,6) have "a \<in> succeeded s e \<union> no_checker E"
    unfolding effect_def by (metis same_append_eq)
  with assms(4) have "a \<in> succeeded s e" by (auto simp: no_checker_def)
  then show ?thesis by (cases "(s, e)" rule: succeeded.cases) (auto split: if_splits)
qed

theorem process_success_witness:
  "\<exists>s t. pm_step sample_env s (EvExit 2 0 0) t \<and> out t = out s @ [ObservedExit 2 0 0, Called 7 4 (Some 1) 0, Called 8 4 (Some 1) 0]
     \<and> ((\<exists>pid c sg k. EvExit 2 0 0 = EvExit pid c sg \<and> procs s pid = Some (CheckProcess 4 k) \<and> int_of_int64 (if c \<noteq> 0 then c else sg) = 0)
       \<or> (\<exists>pid. EvExit 2 0 0 = EvError pid 0 \<and> procs s pid = Some (AppProcess 4)))"
proof -
  obtain s t where s: "pm_exec 9 sample_env sample_events new_pm = ret s"
    "pm_exec 9 sample_env [EvExit 2 0 0] s = ret t" "out t = out s @ [ObservedExit 2 0 0, Called 7 4 (Some 1) 0, Called 8 4 (Some 1) 0]"
    using sample_checked by blast
  have step: "pm_step sample_env s (EvExit 2 0 0) t"
    using s(2) by (auto simp: pm_step_def bindP_ret_iff split: if_splits)
  have "app_checker (conf sample_env 4) \<noteq> None" by (simp add: sample_env_def sample_conf_def)
  from process_success [OF sample_reach [OF s(1) sample_env_errors] sample_env_errors step this s(3), of 7 "Some 1"] step s(3)
  show ?thesis by auto
qed

text \<open>
  A check that ends after the timer that started it was closed and deleted uses the deleted
  timer: an app's process reports an error while its check is running, its clients are
  answered, the next tick closes the timer, and the end of the check, with status 0, closes it
  again.
\<close>

theorem timer_race:
  "\<exists>s. run (pm_step sample_env) new_pm [EvRequire 4 7, EvExit 0 1 0, EvTick 0, EvError 1 (- 104), EvTick 0, EvTimerClosed 0] s
     \<and> pm_allowed s (EvExit 2 0 0) \<and> (\<forall>n. pm_handle (pm_run (Suc (Suc n)) sample_env) (EvExit 2 0 0) s = Some (Inl UseAfterFree))"
proof -
  have "\<exists>s. pm_exec 9 sample_env [EvRequire 4 7, EvExit 0 1 0, EvTick 0, EvError 1 (- 104), EvTick 0, EvTimerClosed 0] new_pm = ret s
     \<and> pm_allowed s (EvExit 2 0 0) \<and> (\<forall>n. pm_handle (pm_run (Suc (Suc n)) sample_env) (EvExit 2 0 0) s = Some (Inl UseAfterFree))"
    by (simp add: sample_simps)
  then show ?thesis using pm_exec_run by blast
qed

text \<open>
  A checker that cannot be run makes the manager start the app and kill it again: the
  failure is reported twice, as an error at once, after which the app is started, and as an exit
  later, after which the app, whose process runs by then, is killed to be restarted.
\<close>

theorem failed_check_kills:
  "\<exists>s. run (pm_step (sample_env\<lparr>spawn := \<lambda>p. if p = 0 then FailsLate (- 2) else Started\<rparr>)) new_pm [EvRequire 4 7, EvExit 0 (- 1) (- 1)] s
     \<and> out s = [ObservedError 0 (- 2), ObservedStart 1, ObservedStart 0, ObservedExit 0 (- 1) (- 1), Killed 1]"
proof -
  have "\<exists>s. pm_exec 9 (sample_env\<lparr>spawn := \<lambda>p. if p = 0 then FailsLate (- 2) else Started\<rparr>) [EvRequire 4 7, EvExit 0 (- 1) (- 1)] new_pm = ret s
     \<and> out s = [ObservedError 0 (- 2), ObservedStart 1, ObservedStart 0, ObservedExit 0 (- 1) (- 1), Killed 1]"
    by (simp add: sample_simps)
  then show ?thesis using pm_exec_run by blast
qed

text \<open>
  C28: every event is handled: when the preambles of the configuration are acyclic (each ranked
  below its app, the ranks bounded), no process start fails before it has pipes (\<open>FailsNow\<close>), and
  the errors of a start are other than 0, then in every state a run of fault-free events leads to, whatever happens next
  is handled in finitely many nested calls, and more fuel does not change the outcome.
\<close>

theorem process_manager_ends:
  assumes "acyclic_env E rk R" "spawn_errors E" "run (pm_step E) new_pm es s"
  shows "\<exists>n r. \<forall>m\<ge>n. pm_handle (pm_run m E) e s = Some r"
proof -
  have "waits_ok E new_pm" by (simp add: waits_ok_def new_pm_def new_mapp_def)
  with run_waits_ok assms(3) have "waits_ok E s" by blast
  moreover have "checks_ok s" using run_pm_good [OF assms(3,2) new_pm_good] by (simp add: pm_good_def)
  ultimately show ?thesis using handle_settles assms(1) unfolding settles_def by blast
qed

text \<open>The sample configuration without the two apps that are each other's preamble.\<close>

definition acyclic_conf :: "nat \<Rightarrow> App" where
  "acyclic_conf a = (sample_conf a)\<lparr>app_preamble := if a = 1 then [0] else []\<rparr>"

theorem process_manager_ends_witness:
  "\<exists>s. run (pm_step (sample_env\<lparr>conf := acyclic_conf\<rparr>)) new_pm [EvRequire 1 7, EvExit 0 1 0] s
     \<and> (\<exists>n r. \<forall>m\<ge>n. pm_handle (pm_run m (sample_env\<lparr>conf := acyclic_conf\<rparr>)) (EvTick 0) s = Some r)"
proof -
  let ?E = "sample_env\<lparr>conf := acyclic_conf\<rparr>"
  have "\<exists>s. pm_exec 12 ?E [EvRequire 1 7, EvExit 0 1 0] new_pm = ret s"
    by (simp add: sample_simps acyclic_conf_def)
  then obtain s where s: "run (pm_step ?E) new_pm [EvRequire 1 7, EvExit 0 1 0] s" using pm_exec_run by blast
  have "acyclic_env ?E (\<lambda>a. if a = 1 then 1 else 0) 2" "spawn_errors ?E"
    by (auto simp: acyclic_env_def spawn_errors_def sample_env_def acyclic_conf_def)
  from process_manager_ends [OF this s, of "EvTick 0"] s show ?thesis by blast
qed

end
