(* ===== verification/ProcessOutcomes.thy ===== *)
theory ProcessOutcomes
  imports ProcessManagerClaims
begin

text \<open>
  The process manager and its processes together. \<open>ProcessManagers\<close> keeps of the start of a
  process only its outcome; here the outcome is computed from what libuv answers while the
  detailed process of \<open>Processes\<close> starts, and shown to be what its listeners, the ones the
  manager has put there, are told.
\<close>

fun first_error :: "int list \<Rightarrow> int" where
  "first_error [] = 0"
| "first_error (e # es) = (if e \<noteq> 0 then e else first_error es)"

definition outcome_of :: "spawn_result \<Rightarrow> start_outcome" where
  "outcome_of r =
     (if first_error (pipe_errs r) \<noteq> 0 then FailsNow (first_error (pipe_errs r))
      else if spawn_err r \<noteq> 0 then if spawn_has_loop r then FailsLate (spawn_err r) else FailsNow (spawn_err r)
      else if read_err1 r \<noteq> 0 then FailsLate (read_err1 r)
      else if read_err2 r \<noteq> 0 then FailsLate (read_err2 r)
      else Started)"

text \<open>What the listeners are told before \<open>Start\<close> returns, and what is left of the process then.\<close>

fun start_notices :: "start_outcome \<Rightarrow> notice list" where
  "start_notices Started = []"
| "start_notices (FailsLate e) = [NError e]"
| "start_notices (FailsNow e) = [NError e, NExit (- 1) (- 1)]"

fun left :: "start_outcome \<Rightarrow> proc \<Rightarrow> bool" where
  "left Started p = (\<not> p_deleted p \<and> p_running p \<and> uv_child p)"
| "left (FailsLate e) p = (\<not> p_deleted p \<and> (uv_child p \<and> SIGTERM \<in> set (uv_signals p) \<or> uv_closing p))"
| "left (FailsNow e) p = p_deleted p"

lemma outcome_errors: "spawn_errors (E\<lparr>spawn := \<lambda>pid. outcome_of (r pid)\<rparr>)"
  by (simp add: spawn_errors_def outcome_of_def)

lemma idle_proc:
  assumes "reach (pinit environ cmd) pstep p" "\<not> started p" "\<not> p_deleted p"
  shows "idle p"
  using process_sys.reach_inv [OF assms(1)] assms(2,3) by (auto simp: pinv_def phase_defs)

lemma first_error_none: "list_all (\<lambda>e. e = 0) es \<Longrightarrow> first_error es = 0"
  by (induction es) auto

lemma Start_told:
  assumes "idle p" "length (pipe_errs r) = 3" "porderly p (PStart r)"
  shows "\<exists>q. proc_Start r p = Inr (outcome_of r = Started, q) \<and> notices q = notices p @ start_notices (outcome_of r)
    \<and> left (outcome_of r) q"
proof -
  obtain e es where es: "pipe_errs r = e # es" using assms(2) by (cases "pipe_errs r") auto
  have p: "\<not> uv_has_loop p" "p_pipes p = [False, False, False]" "\<not> p_deleted p" "\<not> uv_child p" "\<not> uv_closing p"
    "uv_pipes_closing p = 0" "\<not> p_running p"
    using assms(1) by (simp_all add: idle_def)
  show ?thesis
  proof (cases "e = 0")
    case False
    with es have "outcome_of r = FailsNow e" by (simp add: outcome_of_def)
    with False es p show ?thesis
      by (simp add: proc_Start_def Spawn_def Let_def OnProcessExit_def close_pipes_def OnProcessHandleClose_def)
  next
    case True
    with assms(3) es have z: "list_all (\<lambda>e. e = 0) (pipe_errs r)" and l: "spawn_err r \<noteq> 0 \<longrightarrow> spawn_has_loop r" by auto
    note o0 = first_error_none [OF z]
    note st = InitStdio_ok [OF z assms(2)]
    show ?thesis
      using p l st o0
      by (auto simp: proc_Start_def Spawn_def Let_def outcome_of_def proc_Kill_def OnProcessExit_def close_pipes_def)
  qed
qed

section \<open>The manager's listeners\<close>

text \<open>The notices of a process delivered, in order, to an error and an exit listener.\<close>

fun deliver :: "(int \<Rightarrow> pm \<Rightarrow> pm outcome) \<Rightarrow> (int \<Rightarrow> int \<Rightarrow> pm \<Rightarrow> pm outcome) \<Rightarrow> notice list \<Rightarrow> pm \<Rightarrow> pm outcome" where
  "deliver on_err on_exit [] s = ret s"
| "deliver on_err on_exit (NError e # ns) s = bindP (on_err e s) (deliver on_err on_exit ns)"
| "deliver on_err on_exit (NExit c sg # ns) s = bindP (on_exit c sg s) (deliver on_err on_exit ns)"
| "deliver on_err on_exit (NData fd bs # ns) s = deliver on_err on_exit ns s"

lemma bindP_ret [simp]: "bindP r (\<lambda>s. ret s) = r"
  by (auto simp: bindP_def split: option.split sum.split)

lemma deliver_Nil: "deliver on_err on_exit [] = (\<lambda>s. ret s)"
  by (simp add: fun_eq_iff)

lemma deliver_NExit: "deliver on_err on_exit [NExit c sg] = on_exit c sg"
  by (simp add: fun_eq_iff deliver_Nil)

lemmas deliver_told = deliver_Nil deliver_NExit

definition app_deliver :: "caller \<Rightarrow> nat \<Rightarrow> nat \<Rightarrow> notice list \<Rightarrow> pm \<Rightarrow> pm outcome" where
  "app_deliver go a pid = deliver (\<lambda>e. go (CallError a pid e)) (\<lambda>c sg. go (CallExit a pid c sg))"

text \<open>The two listeners of a check, while the frame of \<open>Check\<close> is still there.\<close>

definition check_deliver :: "caller \<Rightarrow> kont \<Rightarrow> nat \<Rightarrow> notice list \<Rightarrow> pm \<Rightarrow> pm outcome" where
  "check_deliver go k pid =
     deliver (\<lambda>e s. go (CallThen k e) (emit (ObservedError pid e) s))
       (\<lambda>c sg s. let st = (if c \<noteq> 0 then c else sg)
          in bindP (go (CallThen k (int_of_int64 st)) (emit (ObservedExit pid st sg) s)) (\<lambda>s. ret (delete_process pid s)))"

definition app_created :: "nat \<Rightarrow> pm \<Rightarrow> pm" where
  "app_created a s = (let (pid, s1) = new_process (AppProcess a) s; (tid, s2) = new_timer a s1
     in upd a (\<lambda>m. m\<lparr>m_process := Some pid, checker_timer := Some tid, is_checking := False\<rparr>) s2)"

lemma start_then_told:
  "start_then go E a 0 s = bindP (app_deliver go a (next_pid s) (start_notices (spawn E (next_pid s))) (app_created a s))
     (\<lambda>s'. ret (emit (ObservedStart (next_pid s)) s'))"
  by (cases "spawn E (next_pid s)")
    (simp_all add: start_then_def app_created_def app_deliver_def deliver_told new_process_def new_timer_def Let_def)

lemma Check_told:
  "app_checker (conf E c) \<noteq> None \<Longrightarrow> Check go E c k s =
     bindP (check_deliver go k (next_pid s) (start_notices (spawn E (next_pid s))) (snd (new_process (CheckProcess c k) s)))
       (\<lambda>s'. ret (emit (ObservedStart (next_pid s)) s'))"
  by (cases "spawn E (next_pid s)"; cases "app_checker (conf E c)")
    (simp_all add: Check_def check_deliver_def deliver_told new_process_def Let_def int_of_int64_def)

text \<open>
  C32: what the manager's methods take for the outcome of starting a process is what the real process
  does, for the starts in which the pipes are opened all or none (the first \<open>uv_pipe_init\<close> fails or
  all three succeed) and a failed spawn leaves a handle that can be closed: then, whatever else
  libuv answers, the new process ends up running, or killed or closing with its exit still to come,
  or deleted, and the listeners of the app, or of the check, run on exactly the notices it gives
  before \<open>Start\<close> returns; and no outcome is an error 0, which is what the properties of the manager
  rely on.
\<close>

theorem process_start_refined:
  assumes "reach (pinit environ cmd) pstep p" "\<not> started p" "\<not> p_deleted p"
    and "length (pipe_errs r) = 3" "porderly p (PStart r)" "spawn E (next_pid s) = outcome_of r"
  shows "\<exists>q new. proc_Start r p = Inr (outcome_of r = Started, q) \<and> notices q = notices p @ new
    \<and> left (outcome_of r) q \<and> outcome_of r \<notin> {FailsLate 0, FailsNow 0}
    \<and> start_then go E a 0 s = bindP (app_deliver go a (next_pid s) new (app_created a s))
        (\<lambda>s'. ret (emit (ObservedStart (next_pid s)) s'))
    \<and> (app_checker (conf E a) \<noteq> None \<longrightarrow> Check go E a k s =
        bindP (check_deliver go k (next_pid s) new (snd (new_process (CheckProcess a k) s)))
          (\<lambda>s'. ret (emit (ObservedStart (next_pid s)) s')))"
proof -
  have "outcome_of r \<notin> {FailsLate 0, FailsNow 0}" by (simp add: outcome_of_def)
  with Start_told [OF idle_proc [OF assms(1-3)] assms(4,5)] assms(6) Check_told [of E a go k s]
    start_then_told [of go E a s] show ?thesis by auto
qed

definition failed_start :: spawn_result where
  "failed_start = \<lparr>pipe_errs = [- 24, 0, 0], spawn_err = 0, spawn_has_loop = False, read_err1 = 0, read_err2 = 0\<rparr>"

theorem process_start_refined_witness:
  "\<exists>q. proc_Start failed_start sample_proc = Inr (False, q) \<and> p_deleted q \<and> notices q = [NError (- 24), NExit (- 1) (- 1)]"
proof -
  have r: "reach (pinit [] sample_cmd) pstep sample_proc" using sample_init by (rule reach_init)
  have o': "outcome_of failed_start = FailsNow (- 24)" by (simp add: outcome_of_def failed_start_def)
  have n: "proc_Start failed_start sample_proc = Inr (ok, q) \<Longrightarrow> notices q = [NError (- 24), NExit (- 1) (- 1)]" for ok q
    by (auto simp: failed_start_def sample_proc_def new_proc_def proc_Start_def Spawn_def Let_def OnProcessExit_def
        close_pipes_def OnProcessHandleClose_def)
  from process_start_refined [OF r, of failed_start "sample_env\<lparr>spawn := \<lambda>_. outcome_of failed_start\<rparr>" new_pm "\<lambda>c s. None" 0 "StartThen 0"]
  obtain q where "proc_Start failed_start sample_proc = Inr (False, q)" "left (FailsNow (- 24)) q"
    unfolding o' by (auto simp: failed_start_def sample_proc_def new_proc_def)
  with n show ?thesis by auto
qed

end
