(* ===== verification/ProcessEnvs.thy ===== *)
theory ProcessEnvs
  imports StringBuffers Processes
begin

text \<open>
  \<open>Process::InitEnv\<close> (\<open>src/process.cc\<close>): the environment of the parent is copied into the
  process object through a \<open>StringBuffer\<close>, one variable at a time; this joins the models of
  the two. The theory of processes takes the result as given.
\<close>

section \<open>Copying the environment\<close>

text \<open>\<open>data\<close> used as a C string; it is null while nothing was allocated.\<close>

definition c_string :: "sbuf \<Rightarrow> fault + bytes" where
  "c_string sb =
     (if mem sb = [] then Inl NullDeref
      else if nul \<in> set (mem sb) then Inr (takeWhile (\<lambda>c. c \<noteq> nul) (mem sb)) else Inl WildPointer)"

text \<open>One variable; the result of \<open>Printf\<close> is not looked at.\<close>

definition env_step :: "(nat \<Rightarrow> bool) \<Rightarrow> bytes \<times> bytes \<Rightarrow> sbuf \<times> proc \<Rightarrow> (fault + sbuf \<times> proc) option" where
  "env_step alloc kv = (\<lambda>(sb, p).
     map_option (\<lambda>r. bindE r (\<lambda>(n, b). bindE (c_string b) (\<lambda>e. Inr (b, SetEnv e p))))
       (Printf alloc (Some (environ_item kv)) (Clear sb)))"

fun env_loop :: "(nat \<Rightarrow> bool) \<Rightarrow> (bytes \<times> bytes) list \<Rightarrow> sbuf \<times> proc \<Rightarrow> (fault + sbuf \<times> proc) option" where
  "env_loop alloc [] sp = Some (Inr sp)"
| "env_loop alloc (kv # kvs) sp =
     (case env_step alloc kv sp of None \<Rightarrow> None | Some (Inl e) \<Rightarrow> Some (Inl e) | Some (Inr sp') \<Rightarrow> env_loop alloc kvs sp')"

definition InitEnv :: "(nat \<Rightarrow> bool) \<Rightarrow> (bytes \<times> bytes) list \<Rightarrow> proc \<Rightarrow> (fault + proc) option" where
  "InitEnv alloc environ p = map_option (\<lambda>r. bindE r (\<lambda>(sb, p). Inr p)) (env_loop alloc environ (empty_sbuf, p))"

section \<open>Lemmas\<close>

text \<open>When formatting into an empty buffer succeeds, and what it leaves there otherwise.\<close>

lemma Printf_grows:
  assumes "sbuf_wf sb" "pos sb = 0" "length t < 2 ^ 31" "rounded (length t + 2) \<le> MAX_SIZE" "alloc (rounded (length t + 2))"
  shows "\<exists>b. Printf alloc (Some t) sb = Some (Inr (int (length t), b)) \<and> sbuf_wf b \<and> content b = content sb @ t \<and> pos b < cap b"
proof (cases "length t < cap sb")
  case True
  with assms(2) vprintf_fits [OF assms(1), of t alloc] show ?thesis by (simp add: Printf_def)
next
  case False
  have p: "pos sb \<le> cap sb" "cap sb \<le> MAX_SIZE" using assms(1) by (simp_all add: sbuf_wf_def)
  let ?s = "vsnprintf_store (cap sb) (Some t) sb" and ?n = "length t + 2"
  have k: "cap ?s = cap sb" "pos ?s = 0" "content ?s = content sb" using store_keeps [OF p(1), of "Some t"] assms(2) by simp_all
  have "?n + MIN_SIZE \<le> size_t" using assms(3) by (simp add: MIN_SIZE_def size_t_def)
  from Reserve_grow [OF _ _ this, of ?s alloc] k False assms(4,5) obtain b where
    b: "Reserve alloc ?n ?s = Inr (0, b)" "sbuf_wf b" "content b = content sb" "pos b = 0" "?n \<le> cap b" by auto
  have "vprintf alloc (Some t) sb = vprintf alloc (Some t) b"
    using False k b(1) assms(2) by (subst vprintf.simps) (simp add: Let_def)
  moreover from b(4,5) have "length t < cap b - pos b" by simp
  ultimately show ?thesis using vprintf_fits [OF b(2), of t alloc] b(3) by (simp add: Printf_def)
qed

lemma Printf_refused:
  assumes "sbuf_wf sb" "pos sb = 0" "length t < 2 ^ 31" "cap sb \<le> length t" "\<not> alloc (rounded (length t + 2))"
  shows "\<exists>r. Printf alloc (Some t) sb = Some (Inr (r, vsnprintf_store (cap sb) (Some t) sb)) \<and> r < 0"
proof -
  have p: "pos sb \<le> cap sb" using assms(2) by simp
  let ?s = "vsnprintf_store (cap sb) (Some t) sb" and ?n = "length t + 2"
  have k: "cap ?s = cap sb" "pos ?s = 0" using store_keeps [OF p, of "Some t"] assms(2) by simp_all
  have "?n + MIN_SIZE \<le> size_t" using assms(3) by (simp add: MIN_SIZE_def size_t_def)
  from Reserve_grow [OF _ _ this, of ?s alloc] k assms(4,5) obtain q where "Reserve alloc ?n ?s = Inr (q, ?s)" "q \<noteq> 0" by auto
  then show ?thesis unfolding Printf_def using k assms(2,4) by (subst vprintf.simps) (simp add: Let_def)
qed

lemma c_string_content:
  assumes "sbuf_wf b" "pos b < cap b" "nul \<notin> set (content b)"
  shows "c_string b = Inr (content b)"
proof -
  obtain k where k: "mem b = content b @ nul # replicate k nul"
    using sbuf_wf_mem(1) [OF assms(1)] assms(2) by (metis Suc_diff_Suc replicate_Suc)
  have "takeWhile (\<lambda>c. c \<noteq> nul) (mem b) = content b"
    unfolding k by (subst takeWhile_append2) (use assms(3) in auto)
  with k show ?thesis by (simp add: c_string_def)
qed

text \<open>A name or a value is a C string, so it has no terminator in it.\<close>

definition env_ok :: "bytes \<times> bytes \<Rightarrow> bool" where
  "env_ok kv \<longleftrightarrow> nul \<notin> set (fst kv @ snd kv) \<and> rounded (length (environ_item kv) + 2) \<le> MAX_SIZE"

lemma env_ok_item: "env_ok kv \<Longrightarrow> nul \<notin> set (environ_item kv)" "env_ok kv \<Longrightarrow> length (environ_item kv) < 2 ^ 31"
  using rounded_bounds(1) [of "length (environ_item kv) + 2"] by (auto simp: env_ok_def environ_item_def nul_def MAX_SIZE_def)

lemma env_step_grows:
  assumes "sbuf_wf sb" "env_ok kv" "\<And>n. n \<le> MAX_SIZE \<Longrightarrow> alloc n"
  shows "\<exists>b. env_step alloc kv (sb, p) = Some (Inr (b, SetEnv (environ_item kv) p)) \<and> sbuf_wf b"
proof -
  note wf = sbuf_wf_Clear(1) [OF assms(1)] sbuf_wf_Clear(2) [of sb]
  have "pos (Clear sb) = 0" by (simp add: Clear_def)
  from Printf_grows [OF wf(1) this env_ok_item(2) [OF assms(2)]] assms(2,3) wf(2) obtain b where
    b: "Printf alloc (Some (environ_item kv)) (Clear sb) = Some (Inr (int (length (environ_item kv)), b))" "sbuf_wf b"
      "content b = environ_item kv" "pos b < cap b" by (auto simp: env_ok_def)
  with c_string_content [OF b(2,4)] env_ok_item(1) [OF assms(2)] show ?thesis
    by (simp add: env_step_def)
qed

lemma env_loop_grows:
  assumes "\<And>n. n \<le> MAX_SIZE \<Longrightarrow> alloc n"
  shows "\<forall>kv \<in> set environ. env_ok kv \<Longrightarrow> sbuf_wf sb \<Longrightarrow>
    \<exists>b. env_loop alloc environ (sb, p) = Some (Inr (b, p\<lparr>p_env := p_env p @ map (\<lambda>kv. Some (environ_item kv)) environ\<rparr>))"
proof (induction environ arbitrary: sb p)
  case (Cons kv kvs)
  then obtain b where b: "env_step alloc kv (sb, p) = Some (Inr (b, SetEnv (environ_item kv) p))" "sbuf_wf b"
    using env_step_grows [of sb kv alloc p] assms by auto
  from Cons.IH [OF _ b(2), of "SetEnv (environ_item kv) p"] Cons.prems(1) b(1) show ?case by (simp add: SetEnv_def)
qed simp

text \<open>A variable longer than the buffer, when the allocator refuses: what fits of it is set.\<close>

lemma environ_truncated:
  assumes "sbuf_wf sb" "cap sb > 0" "env_ok kv" "cap sb \<le> length (environ_item kv)" "\<not> alloc (rounded (length (environ_item kv) + 2))"
  shows "\<exists>b. env_step alloc kv (sb, p) = Some (Inr (b, SetEnv (take (cap sb - 1) (environ_item kv)) p))"
proof -
  let ?t = "environ_item kv"
  have c: "cap (Clear sb) = cap sb" "pos (Clear sb) = 0" by (simp_all add: Clear_def)
  from Printf_refused [OF sbuf_wf_Clear(1) [OF assms(1)] c(2) env_ok_item(2) [OF assms(3)]] assms(4,5) c(1) obtain r where
    r: "Printf alloc (Some ?t) (Clear sb) = Some (Inr (r, vsnprintf_store (cap sb) (Some ?t) (Clear sb)))" by auto
  have m: "mem (vsnprintf_store (cap sb) (Some ?t) (Clear sb)) = take (cap sb - 1) ?t @ [nul]"
    using assms(2,4) c by (simp add: vsnprintf_store_def splice_def Clear_def)
  have "nul \<notin> set (take (cap sb - 1) ?t)" using env_ok_item(1) [OF assms(3)] by (meson in_set_takeD)
  then have "c_string (vsnprintf_store (cap sb) (Some ?t) (Clear sb)) = Inr (take (cap sb - 1) ?t)"
    unfolding c_string_def m by (subst takeWhile_append2) auto
  with r show ?thesis by (simp add: env_step_def)
qed

section \<open>Property\<close>

text \<open>
  C40: a process starts with the environment of its parent, every variable as \<open>name=value\<close> in the
  order libuv lists them, when every variable is a C string below the limit of the buffer of 256 MB
  and the allocator grants every size up to that limit. When the very first allocation fails the
  null pointer is copied from, whatever the allocator would have granted later; \<open>environ_truncated\<close>
  has what a later refusal does.
\<close>

theorem process_environment:
  assumes "\<forall>kv \<in> set environ. env_ok kv"
  shows "((\<forall>n \<le> MAX_SIZE. alloc n) \<longrightarrow>
       InitEnv alloc environ p = Some (Inr (p\<lparr>p_env := p_env p @ map (\<lambda>kv. Some (fst kv @ ''='' @ snd kv)) environ\<rparr>)))
    \<and> (environ \<noteq> [] \<longrightarrow> \<not> alloc (rounded (length (environ_item (hd environ)) + 2)) \<longrightarrow> InitEnv alloc environ p = Some (Inl NullDeref))"
proof (intro conjI impI)
  assume "\<forall>n \<le> MAX_SIZE. alloc n"
  with env_loop_grows [of alloc environ empty_sbuf p] assms sbuf_wf_empty(1)
  show "InitEnv alloc environ p = Some (Inr (p\<lparr>p_env := p_env p @ map (\<lambda>kv. Some (fst kv @ ''='' @ snd kv)) environ\<rparr>))"
    by (auto simp: InitEnv_def environ_item_def)
next
  assume "environ \<noteq> []" and no: "\<not> alloc (rounded (length (environ_item (hd environ)) + 2))"
  then obtain kv kvs where e: "environ = kv # kvs" by (cases environ) auto
  have "Clear empty_sbuf = empty_sbuf" by (simp add: Clear_def empty_sbuf_def)
  with Printf_refused [OF sbuf_wf_empty(1), of "environ_item kv" alloc] no env_ok_item(2) [of kv] assms e
  obtain r where "Printf alloc (Some (environ_item kv)) (Clear empty_sbuf) = Some (Inr (r, empty_sbuf))"
    by (auto simp: empty_sbuf_def vsnprintf_store_def)
  then show "InitEnv alloc environ p = Some (Inl NullDeref)"
    unfolding e by (simp add: InitEnv_def env_step_def c_string_def empty_sbuf_def)
qed

text \<open>The constructor of the theory of processes is the one of the code.\<close>

lemma new_proc_InitEnv:
  assumes "\<forall>kv \<in> set environ. env_ok kv" "\<And>n. n \<le> MAX_SIZE \<Longrightarrow> alloc n"
  shows "InitEnv alloc environ (new_proc [] file) = Some (Inr (new_proc environ file))"
proof -
  obtain b where "env_loop alloc environ (empty_sbuf, new_proc [] file)
      = Some (Inr (b, (new_proc [] file)\<lparr>p_env := p_env (new_proc [] file) @ map (\<lambda>kv. Some (environ_item kv)) environ\<rparr>))"
    using env_loop_grows [of alloc environ empty_sbuf "new_proc [] file"] assms sbuf_wf_empty(1) by blast
  then show ?thesis by (simp add: InitEnv_def) (simp add: new_proc_def)
qed

theorem process_environment_witness:
  "InitEnv (\<lambda>n. True) [(''HOME'', ''/r''), (''A'', [])] (new_proc [] ''nc'')
     = Some (Inr ((new_proc [] ''nc'')\<lparr>p_env := [Some ''HOME=/r'', Some ''A='']\<rparr>))"
proof -
  have "env_ok (''HOME'', ''/r'') \<and> env_ok (''A'', [])"
    by (simp add: env_ok_def environ_item_def nul_def rounded_def MIN_SIZE_def MAX_SIZE_def)
  then have "\<forall>kv \<in> set [(''HOME'', ''/r''), (''A'', [])]. env_ok kv" by simp
  from process_environment [OF this, of "\<lambda>n. True" "new_proc [] ''nc''"] show ?thesis by (simp add: new_proc_def)
qed

end
