(* ===== verification/TcpProxies.thy ===== *)
theory TcpProxies
  imports Configs "HOL-Library.Multiset"
begin

text \<open>
  \<open>TcpProxy\<close> (\<open>src/tcp_proxy.cc\<close>, \<open>include/tcp_proxy.h\<close>): for every connection a forwarder,
  the check of the upstream's app, the connection to the upstream, and the set of forwarders
  by which the closures that wait for those two tell whether theirs still exists. Forwarders
  are heap objects with an address, which the allocator may use again; of the forwarder itself
  only the two connection pointers matter here.
\<close>

section \<open>State\<close>

text \<open>How far the closures of a connection have come.\<close>

datatype stage = Checking | Dialing | Settled

record pconn =
  fwd_at :: nat
  pc_stage :: stage
  in_closing :: bool
  in_deleted :: bool

text \<open>A forwarder: the connection it was made for, whether it still has its incoming
  connection, and its outgoing one, named by the connection whose closure dialled it.\<close>

record lfwd =
  lf_owner :: nat
  has_incoming :: bool
  lf_outgoing :: "nat option"

text \<open>\<open>handed\<close> and \<open>dropped\<close> record what became of upstream connections.\<close>

record proxy =
  forwarders :: "nat set"
  live :: "nat \<Rightarrow> lfwd option"
  pconns :: "nat \<Rightarrow> pconn"
  next_conn :: nat
  handed :: "(nat \<times> nat) list"
  dropped :: "nat list"

definition proxy_name :: "Upstream \<Rightarrow> bytes" where
  "proxy_name up = up_host up @ '':'' @ show_int (up_port up)"

definition new_proxy_object :: proxy where
  "new_proxy_object = \<lparr>forwarders = {}, live = (\<lambda>_. None), pconns = (\<lambda>_. \<lparr>fwd_at = 0, pc_stage = Settled, in_closing = False, in_deleted = True\<rparr>),
     next_conn = 0, handed = [], dropped = []\<rparr>"

definition set_pconn :: "nat \<Rightarrow> (pconn \<Rightarrow> pconn) \<Rightarrow> proxy \<Rightarrow> proxy" where
  "set_pconn c f w = w\<lparr>pconns := (pconns w)(c := f (pconns w c))\<rparr>"

section \<open>Operations\<close>

definition Has :: "nat \<Rightarrow> proxy \<Rightarrow> bool" where
  "Has f w \<longleftrightarrow> f \<in> forwarders w"

definition proxy_Remove :: "nat \<Rightarrow> proxy \<Rightarrow> fault + proxy" where
  "proxy_Remove f w = (if f \<notin> forwarders w then Inl AssertFailed else Inr (w\<lparr>forwarders := forwarders w - {f}\<rparr>))"

definition incoming_Close :: "nat \<Rightarrow> proxy \<Rightarrow> fault + proxy" where
  "incoming_Close c w =
     (if in_deleted (pconns w c) then Inl UseAfterFree else Inr (set_pconn c (\<lambda>k. k\<lparr>in_closing := True\<rparr>) w))"

text \<open>The continuation of the upstream check, made for connection \<open>c\<close>.\<close>

definition proxy_checked :: "nat \<Rightarrow> int \<Rightarrow> proxy \<Rightarrow> fault + proxy" where
  "proxy_checked c err w =
     (if err \<noteq> 0
      then let w1 = set_pconn c (\<lambda>k. k\<lparr>pc_stage := Settled\<rparr>) w
           in if Has (fwd_at (pconns w c)) w1 then incoming_Close c w1 else Inr w1
      else Inr (set_pconn c (\<lambda>k. k\<lparr>pc_stage := Dialing\<rparr>) w))"

text \<open>The continuation of \<open>TcpClient::Connect\<close>; \<open>out\<close> says whether there is a connection.\<close>

definition proxy_connected :: "nat \<Rightarrow> bool \<Rightarrow> proxy \<Rightarrow> fault + proxy" where
  "proxy_connected c out w =
     (let w1 = set_pconn c (\<lambda>k. k\<lparr>pc_stage := Settled\<rparr>) w; f = fwd_at (pconns w c)
      in if \<not> Has f w1 then if out then Inr (w1\<lparr>dropped := dropped w1 @ [c]\<rparr>) else Inr w1
         else if out
         then (case live w1 f of
                 None \<Rightarrow> Inl UseAfterFree
               | Some l \<Rightarrow> Inr (w1\<lparr>live := (live w1)(f \<mapsto> l\<lparr>lf_outgoing := Some c\<rparr>), handed := handed w1 @ [(lf_owner l, c)]\<rparr>))
         else incoming_Close c w1)"

text \<open>
  \<open>CheckUpstreamProcess\<close>: without an app the continuation is called at once; with one the
  process manager answers, at once (\<open>Some\<close>) or later.
\<close>

definition CheckUpstreamProcess :: "Upstream \<Rightarrow> int option \<Rightarrow> (int \<Rightarrow> proxy \<Rightarrow> fault + proxy) \<Rightarrow> proxy \<Rightarrow> fault + proxy" where
  "CheckUpstreamProcess up answer then_do w =
     (if up_app up = None then then_do 0 w else case answer of Some err \<Rightarrow> then_do err w | None \<Rightarrow> Inr w)"

text \<open>The connection listener of \<open>Init\<close>; the new forwarder lies at \<open>f\<close>.\<close>

definition proxy_OnConnection :: "Upstream \<Rightarrow> nat \<Rightarrow> int option \<Rightarrow> proxy \<Rightarrow> fault + proxy" where
  "proxy_OnConnection up f answer w =
     (let c = next_conn w;
          w1 = set_pconn c (\<lambda>_. \<lparr>fwd_at = f, pc_stage = Checking, in_closing = False, in_deleted = False\<rparr>)
                 (w\<lparr>next_conn := c + 1, live := (live w)(f \<mapsto> \<lparr>lf_owner = c, has_incoming = True, lf_outgoing = None\<rparr>)\<rparr>);
          w2 = w1\<lparr>forwarders := insert f (forwarders w1)\<rparr>
      in CheckUpstreamProcess up answer (proxy_checked c) w2)"

text \<open>
  The close listeners of the forwarder (see its own theory), with the proxy's close listener,
  which removes it from the set: the second connection to close deletes it.
\<close>

definition forwarder_gone :: "nat \<Rightarrow> proxy \<Rightarrow> fault + proxy" where
  "forwarder_gone f w = bindE (proxy_Remove f w) (\<lambda>w. Inr (w\<lparr>live := (live w)(f := None)\<rparr>))"

definition incoming_closed :: "nat \<Rightarrow> proxy \<Rightarrow> fault + proxy" where
  "incoming_closed c w =
     (let f = fwd_at (pconns w c)
      in bindE (case live w f of
                  None \<Rightarrow> Inl UseAfterFree
                | Some l \<Rightarrow> if lf_outgoing l = None then forwarder_gone f w
                            else Inr (w\<lparr>live := (live w)(f \<mapsto> l\<lparr>has_incoming := False\<rparr>)\<rparr>))
           (\<lambda>w. Inr (set_pconn c (\<lambda>k. k\<lparr>in_deleted := True\<rparr>) w)))"

definition outgoing_closed :: "nat \<Rightarrow> proxy \<Rightarrow> fault + proxy" where
  "outgoing_closed f w =
     (case live w f of
        None \<Rightarrow> Inl UseAfterFree
      | Some l \<Rightarrow> if has_incoming l
                  then incoming_Close (lf_owner l) (w\<lparr>live := (live w)(f \<mapsto> l\<lparr>lf_outgoing := None\<rparr>)\<rparr>)
                  else forwarder_gone f w)"

section \<open>Events\<close>

datatype proxy_event =
    PAccept nat "int option"
  | PChecked nat int
  | PConnected nat bool
  | PIncomingClose nat
  | PIncomingClosed nat
  | POutgoingClosed nat

fun proxy_handle :: "Upstream \<Rightarrow> proxy_event \<Rightarrow> proxy \<Rightarrow> fault + proxy" where
  "proxy_handle up (PAccept f answer) w = proxy_OnConnection up f answer w"
| "proxy_handle up (PChecked c err) w = proxy_checked c err w"
| "proxy_handle up (PConnected c out) w = proxy_connected c out w"
| "proxy_handle up (PIncomingClose c) w = incoming_Close c w"
| "proxy_handle up (PIncomingClosed c) w = incoming_closed c w"
| "proxy_handle up (POutgoingClosed f) w = outgoing_closed f w"

text \<open>
  A new forwarder is put where none lies; the process manager and the connector answer a
  closure once; connections close as libuv says.
\<close>

fun proxy_allowed :: "proxy \<Rightarrow> proxy_event \<Rightarrow> bool" where
  "proxy_allowed w (PAccept f answer) = (live w f = None)"
| "proxy_allowed w (PChecked c err) = (c < next_conn w \<and> pc_stage (pconns w c) = Checking)"
| "proxy_allowed w (PConnected c out) = (c < next_conn w \<and> pc_stage (pconns w c) = Dialing)"
| "proxy_allowed w (PIncomingClose c) = (c < next_conn w \<and> \<not> in_deleted (pconns w c))"
| "proxy_allowed w (PIncomingClosed c) = (c < next_conn w \<and> in_closing (pconns w c) \<and> \<not> in_deleted (pconns w c))"
| "proxy_allowed w (POutgoingClosed f) = (\<exists>l. live w f = Some l \<and> lf_outgoing l \<noteq> None)"

text \<open>
  What the allocator does not promise: that no new forwarder is put at the address of one
  whose closures are still waiting.
\<close>

fun proxy_orderly :: "proxy \<Rightarrow> proxy_event \<Rightarrow> bool" where
  "proxy_orderly w (PAccept f answer) = (\<forall>c < next_conn w. pc_stage (pconns w c) \<noteq> Settled \<longrightarrow> fwd_at (pconns w c) \<noteq> f)"
| "proxy_orderly w e = True"

definition proxy_init :: "proxy \<Rightarrow> bool" where
  "proxy_init w \<longleftrightarrow> w = new_proxy_object"

definition proxy_step_any :: "Upstream \<Rightarrow> proxy \<Rightarrow> proxy_event \<Rightarrow> proxy \<Rightarrow> bool" where
  "proxy_step_any up w e v \<longleftrightarrow> proxy_allowed w e \<and> proxy_handle up e w = Inr v"

definition proxy_step :: "Upstream \<Rightarrow> proxy \<Rightarrow> proxy_event \<Rightarrow> proxy \<Rightarrow> bool" where
  "proxy_step up w e v \<longleftrightarrow> proxy_orderly w e \<and> proxy_step_any up w e v"

section \<open>The invariant\<close>

lemma set_pconn_sel [simp]:
  "pconns (set_pconn c f w) = (pconns w)(c := f (pconns w c))" "forwarders (set_pconn c f w) = forwarders w"
  "live (set_pconn c f w) = live w" "next_conn (set_pconn c f w) = next_conn w"
  "handed (set_pconn c f w) = handed w" "dropped (set_pconn c f w) = dropped w"
  by (simp_all add: set_pconn_def)

text \<open>A connection whose incoming object exists or whose closures wait, and its forwarder.\<close>

definition conn_ok :: "proxy \<Rightarrow> nat \<Rightarrow> bool" where
  "conn_ok w c \<longleftrightarrow> (let k = pconns w c in
     (\<not> in_deleted k \<longrightarrow> (\<exists>l. live w (fwd_at k) = Some l \<and> lf_owner l = c \<and> has_incoming l))
   \<and> (pc_stage k \<noteq> Settled \<longrightarrow> (\<forall>l. live w (fwd_at k) = Some l \<longrightarrow> lf_owner l = c \<and> has_incoming l \<and> lf_outgoing l = None))
   \<and> (pc_stage k \<noteq> Settled \<longrightarrow> c \<notin> snd ` set (handed w)))"

definition lfwd_ok :: "proxy \<Rightarrow> nat \<Rightarrow> bool" where
  "lfwd_ok w f \<longleftrightarrow> (\<forall>l. live w f = Some l \<longrightarrow> lf_owner l < next_conn w \<and> fwd_at (pconns w (lf_owner l)) = f
     \<and> (has_incoming l \<longleftrightarrow> \<not> in_deleted (pconns w (lf_owner l))))"

definition proxy_inv :: "proxy \<Rightarrow> bool" where
  "proxy_inv w \<longleftrightarrow> forwarders w = dom (live w) \<and> (\<forall>c < next_conn w. conn_ok w c) \<and> (\<forall>f. lfwd_ok w f)
     \<and> (\<forall>(o', c) \<in> set (handed w). o' = c \<and> c < next_conn w) \<and> distinct (map snd (handed w))"

lemma proxy_inv_init: "proxy_init w \<Longrightarrow> proxy_inv w"
  by (simp add: proxy_init_def proxy_inv_def new_proxy_object_def lfwd_ok_def)

lemma proxy_invD:
  assumes "proxy_inv w"
  shows "forwarders w = dom (live w)" "\<And>c. c < next_conn w \<Longrightarrow> conn_ok w c" "\<And>f. lfwd_ok w f"
    "\<And>o' c. (o', c) \<in> set (handed w) \<Longrightarrow> o' = c \<and> c < next_conn w" "distinct (map snd (handed w))"
  using assms by (auto simp: proxy_inv_def)

lemma proxy_invI:
  assumes "forwarders w = dom (live w)" "\<And>c. c < next_conn w \<Longrightarrow> conn_ok w c" "\<And>f. lfwd_ok w f"
    "\<And>o' c. (o', c) \<in> set (handed w) \<Longrightarrow> o' = c \<and> c < next_conn w" "distinct (map snd (handed w))"
  shows "proxy_inv w"
  using assms by (auto simp: proxy_inv_def)

text \<open>Changes that leave the forwarders alone: closing flags, and a stage that goes on.\<close>

lemma proxy_inv_frame:
  assumes "proxy_inv w" "forwarders v = forwarders w" "live v = live w" "next_conn v = next_conn w" "handed v = handed w"
    and "\<And>d. fwd_at (pconns v d) = fwd_at (pconns w d) \<and> in_deleted (pconns v d) = in_deleted (pconns w d)"
    and "\<And>d. pc_stage (pconns v d) \<noteq> Settled \<Longrightarrow> pc_stage (pconns w d) \<noteq> Settled"
  shows "proxy_inv v"
proof -
  have "conn_ok v c" if "c < next_conn w" for c
    using proxy_invD(2) [OF assms(1) that] assms(3,5,7) assms(6) [of c] by (simp add: conn_ok_def Let_def)
  moreover have "lfwd_ok v f" for f
    using proxy_invD(3) [OF assms(1), of f] assms(3,4,6) by (simp add: lfwd_ok_def)
  ultimately show ?thesis using assms(1-5) by (simp add: proxy_inv_def)
qed

lemma inv_settle: "proxy_inv w \<Longrightarrow> proxy_inv (set_pconn c (\<lambda>k. k\<lparr>pc_stage := Settled\<rparr>) w)"
  by (erule proxy_inv_frame) (auto split: if_splits)

lemma inv_closing: "proxy_inv w \<Longrightarrow> proxy_inv (set_pconn c (\<lambda>k. k\<lparr>in_closing := True\<rparr>) w)"
  by (erule proxy_inv_frame) (auto split: if_splits)

lemma inv_dialing: "proxy_inv w \<Longrightarrow> pc_stage (pconns w c) \<noteq> Settled \<Longrightarrow> proxy_inv (set_pconn c (\<lambda>k. k\<lparr>pc_stage := Dialing\<rparr>) w)"
  by (erule proxy_inv_frame) (auto split: if_splits)

text \<open>A waiting connection whose forwarder's address is in the set still has its own forwarder.\<close>

lemma waiting_forwarder:
  assumes "proxy_inv w" "c < next_conn w" "pc_stage (pconns w c) \<noteq> Settled" "Has (fwd_at (pconns w c)) w"
  shows "\<exists>l. live w (fwd_at (pconns w c)) = Some l \<and> lf_owner l = c \<and> has_incoming l \<and> lf_outgoing l = None \<and> \<not> in_deleted (pconns w c)"
proof -
  from assms(1,4) obtain l where l: "live w (fwd_at (pconns w c)) = Some l" by (auto simp: Has_def proxy_inv_def)
  with proxy_invD(2) [OF assms(1,2)] assms(3) have "lf_owner l = c \<and> has_incoming l \<and> lf_outgoing l = None" by (simp add: conn_ok_def Let_def)
  with l proxy_invD(3) [OF assms(1), of "fwd_at (pconns w c)"] show ?thesis by (auto simp: lfwd_ok_def)
qed

lemma inv_checked:
  assumes "proxy_inv w" "c < next_conn w" "pc_stage (pconns w c) = Checking"
  shows "\<exists>v. proxy_checked c err w = Inr v \<and> proxy_inv v"
proof (cases "err \<noteq> 0 \<and> Has (fwd_at (pconns w c)) w")
  case True
  with waiting_forwarder [OF assms(1,2)] assms(3) have "\<not> in_deleted (pconns w c)" by auto
  with True inv_closing [OF inv_settle [OF assms(1)]] show ?thesis
    by (simp add: proxy_checked_def incoming_Close_def Has_def Let_def)
next
  case False
  then show ?thesis using inv_settle [OF assms(1)] inv_dialing [OF assms(1)] assms(3)
    by (auto simp: proxy_checked_def Let_def Has_def)
qed

lemma inv_handed:
  assumes "proxy_inv w" "c < next_conn w" "pc_stage (pconns w c) = Dialing" "Has (fwd_at (pconns w c)) w"
  shows "\<exists>v. proxy_connected c True w = Inr v \<and> proxy_inv v \<and> handed v = handed w @ [(c, c)] \<and> dropped v = dropped w"
proof -
  let ?f = "fwd_at (pconns w c)"
  obtain l where l: "live w ?f = Some l" "lf_owner l = c" "has_incoming l" "\<not> in_deleted (pconns w c)"
    using waiting_forwarder [OF assms(1,2) _ assms(4)] assms(3) by auto
  let ?v = "(set_pconn c (\<lambda>k. k\<lparr>pc_stage := Settled\<rparr>) w)\<lparr>live := (live w)(?f \<mapsto> l\<lparr>lf_outgoing := Some c\<rparr>), handed := handed w @ [(c, c)]\<rparr>"
  have v: "proxy_connected c True w = Inr ?v"
    using assms(4) l by (simp add: proxy_connected_def Let_def Has_def)
  have new: "c \<notin> snd ` set (handed w)" using proxy_invD(2) [OF assms(1,2)] assms(3) by (simp add: conn_ok_def Let_def)
  have "conn_ok ?v d" if "d < next_conn w" for d
  proof (cases "d = c")
    case True
    with l show ?thesis by (simp add: conn_ok_def Let_def)
  next
    case False
    have d: "conn_ok w d" using proxy_invD(2) [OF assms(1) that] .
    show ?thesis
    proof (cases "fwd_at (pconns w d) = ?f")
      case True
      with d l \<open>d \<noteq> c\<close> have "in_deleted (pconns w d)" "pc_stage (pconns w d) = Settled"
        by (simp_all add: conn_ok_def Let_def)
      with \<open>d \<noteq> c\<close> show ?thesis by (simp add: conn_ok_def Let_def)
    next
      case False
      with d \<open>d \<noteq> c\<close> show ?thesis by (simp add: conn_ok_def Let_def)
    qed
  qed
  moreover have "lfwd_ok ?v f" for f
  proof (cases "f = ?f")
    case True
    with proxy_invD(3) [OF assms(1), of ?f] l show ?thesis by (simp add: lfwd_ok_def)
  next
    case False
    with proxy_invD(3) [OF assms(1), of f] show ?thesis by (auto simp: lfwd_ok_def)
  qed
  moreover have "distinct (map snd (handed ?v))" using proxy_invD(5) [OF assms(1)] new by auto
  moreover have "\<forall>(o', d) \<in> set (handed ?v). o' = d \<and> d < next_conn ?v"
    using proxy_invD(4) [OF assms(1)] assms(2) by auto
  moreover have "forwarders ?v = dom (live ?v)" using proxy_invD(1) [OF assms(1)] l(1) by auto
  ultimately have "proxy_inv ?v" by (intro proxy_invI) auto
  with v show ?thesis by simp
qed

lemma inv_connected:
  assumes "proxy_inv w" "c < next_conn w" "pc_stage (pconns w c) = Dialing"
  shows "\<exists>v. proxy_connected c out w = Inr v \<and> proxy_inv v
    \<and> mset (map snd (handed v)) + mset (dropped v) = mset (map snd (handed w)) + mset (dropped w) + (if out then {#c#} else {#})"
proof (cases "Has (fwd_at (pconns w c)) w")
  case True
  show ?thesis
  proof (cases out)
    case True
    with inv_handed [OF assms \<open>Has _ w\<close>] show ?thesis by auto
  next
    case False
    from waiting_forwarder [OF assms(1,2) _ \<open>Has _ w\<close>] assms(3) have "\<not> in_deleted (pconns w c)" by auto
    with False True inv_closing [OF inv_settle [OF assms(1)]] show ?thesis
      by (simp add: proxy_connected_def incoming_Close_def Has_def Let_def)
  qed
next
  case False
  have "proxy_inv ((set_pconn c (\<lambda>k. k\<lparr>pc_stage := Settled\<rparr>) w)\<lparr>dropped := dropped w @ [c]\<rparr>)"
    using inv_settle [OF assms(1), of c] by (rule proxy_inv_frame) simp_all
  with False inv_settle [OF assms(1), of c] show ?thesis
    by (simp add: proxy_connected_def Has_def Let_def)
qed

lemma inv_accept:
  assumes "proxy_inv w" "live w f = None" "\<forall>c < next_conn w. pc_stage (pconns w c) \<noteq> Settled \<longrightarrow> fwd_at (pconns w c) \<noteq> f"
  shows "\<exists>v. proxy_OnConnection up f answer w = Inr v \<and> proxy_inv v \<and> handed v = handed w \<and> dropped v = dropped w"
proof -
  let ?c = "next_conn w"
  let ?l = "\<lparr>lf_owner = ?c, has_incoming = True, lf_outgoing = None\<rparr>"
  let ?v = "(set_pconn ?c (\<lambda>_. \<lparr>fwd_at = f, pc_stage = Checking, in_closing = False, in_deleted = False\<rparr>)
                 (w\<lparr>next_conn := ?c + 1, live := (live w)(f \<mapsto> ?l)\<rparr>))\<lparr>forwarders := insert f (forwarders w)\<rparr>"
  have "conn_ok ?v c" if "c < ?c + 1" for c
  proof (cases "c = ?c")
    case True
    have "?c \<notin> snd ` set (handed w)" using proxy_invD(4) [OF assms(1), of _ ?c] by fastforce
    with True show ?thesis by (simp add: conn_ok_def Let_def)
  next
    case False
    with that have c: "c < ?c" by simp
    have d: "conn_ok w c" using proxy_invD(2) [OF assms(1) c] .
    show ?thesis
    proof (cases "fwd_at (pconns w c) = f")
      case True
      with d c assms(2,3) have "in_deleted (pconns w c)" "pc_stage (pconns w c) = Settled"
        by (auto simp: conn_ok_def Let_def)
      with False show ?thesis by (simp add: conn_ok_def Let_def)
    next
      case other: False
      with d False show ?thesis by (simp add: conn_ok_def Let_def)
    qed
  qed
  moreover have "lfwd_ok ?v g" for g
    using proxy_invD(3) [OF assms(1), of g] assms(2) by (auto simp: lfwd_ok_def)
  moreover have "forwarders ?v = dom (live ?v)" using proxy_invD(1) [OF assms(1)] by auto
  moreover have "\<forall>(o', d) \<in> set (handed ?v). o' = d \<and> d < next_conn ?v" using proxy_invD(4) [OF assms(1)] by fastforce
  moreover have "distinct (map snd (handed ?v))" using proxy_invD(5) [OF assms(1)] by simp
  ultimately have inv: "proxy_inv ?v" by (intro proxy_invI) auto
  have keep: "handed v = handed u \<and> dropped v = dropped u" if "proxy_checked c e u = Inr v" for c e u v
    using that by (auto simp: proxy_checked_def Let_def incoming_Close_def split: if_splits)
  have "\<exists>u. proxy_checked ?c e ?v = Inr u \<and> proxy_inv u" for e
    by (rule inv_checked [OF inv]) simp_all
  then have "\<exists>u. proxy_checked ?c e ?v = Inr u \<and> proxy_inv u \<and> handed u = handed w \<and> dropped u = dropped w" for e
    using keep by fastforce
  with inv show ?thesis
    by (auto simp: proxy_OnConnection_def CheckUpstreamProcess_def Let_def split: option.split)
qed

text \<open>A forwarder and its owner close.\<close>

lemma owner_forwarder:
  assumes "proxy_inv w" "c < next_conn w" "\<not> in_deleted (pconns w c)"
  shows "\<exists>l. live w (fwd_at (pconns w c)) = Some l \<and> lf_owner l = c \<and> has_incoming l"
  using proxy_invD(2) [OF assms(1,2)] assms(3) by (simp add: conn_ok_def Let_def)

lemma inv_gone:
  assumes "proxy_inv w" "live w f = Some l" "in_deleted (pconns v (lf_owner l))"
    and "forwarders v = forwarders w - {f}" "live v = (live w)(f := None)" "next_conn v = next_conn w" "handed v = handed w"
    and "\<And>d. fwd_at (pconns v d) = fwd_at (pconns w d) \<and> pc_stage (pconns v d) = pc_stage (pconns w d)"
    and "\<And>d. d \<noteq> lf_owner l \<Longrightarrow> in_deleted (pconns v d) = in_deleted (pconns w d)"
  shows "proxy_inv v"
proof (rule proxy_invI)
  show "forwarders v = dom (live v)" using proxy_invD(1) [OF assms(1)] assms(4,5) by auto
  show "conn_ok v c" if "c < next_conn v" for c
  proof -
    have d: "conn_ok w c" using proxy_invD(2) [OF assms(1)] that assms(6) by simp
    show ?thesis
    proof (cases "c = lf_owner l")
      case True
      have "fwd_at (pconns w c) = f" using proxy_invD(3) [OF assms(1), of f] assms(2) True by (simp add: lfwd_ok_def)
      with True d assms(3,5,7,8) show ?thesis by (simp add: conn_ok_def Let_def)
    next
      case False
      with d assms(2,5,7,8,9) show ?thesis by (cases "fwd_at (pconns w c) = f") (auto simp: conn_ok_def Let_def)
    qed
  qed
  show "lfwd_ok v g" for g
  proof (cases "g = f")
    case True
    then show ?thesis using assms(5) by (simp add: lfwd_ok_def)
  next
    case False
    have "lf_owner k \<noteq> lf_owner l" if "live w g = Some k" for k
    proof -
      have "fwd_at (pconns w (lf_owner k)) = g" "fwd_at (pconns w (lf_owner l)) = f"
        using proxy_invD(3) [OF assms(1), of f] proxy_invD(3) [OF assms(1), of g] that assms(2) by (simp_all add: lfwd_ok_def)
      with False show ?thesis by auto
    qed
    with False proxy_invD(3) [OF assms(1), of g] assms(5,6,8,9) show ?thesis by (simp add: lfwd_ok_def)
  qed
qed (use proxy_invD(4,5) [OF assms(1)] assms(6,7) in auto)

lemma inv_half:
  assumes "proxy_inv w" "live w f = Some l" "lf_owner l = c" "lf_outgoing l \<noteq> None" "c < next_conn w"
  shows "proxy_inv (set_pconn c (\<lambda>k. k\<lparr>in_deleted := True\<rparr>) (w\<lparr>live := (live w)(f \<mapsto> l\<lparr>has_incoming := False\<rparr>)\<rparr>))"
    (is "proxy_inv ?v")
proof (rule proxy_invI)
  have f: "fwd_at (pconns w c) = f" using proxy_invD(3) [OF assms(1), of f] assms(2,3) by (auto simp: lfwd_ok_def)
  show "forwarders ?v = dom (live ?v)" using proxy_invD(1) [OF assms(1)] assms(2) by auto
  show "conn_ok ?v d" if "d < next_conn ?v" for d
  proof -
    have d: "conn_ok w d" using proxy_invD(2) [OF assms(1)] that by simp
    show ?thesis
    proof (cases "fwd_at (pconns w d) = f")
      case True
      with d assms(2,4) have "pc_stage (pconns w d) = Settled" by (auto simp: conn_ok_def Let_def)
      moreover have "d = c \<or> in_deleted (pconns w d)" using d True assms(2,3) by (auto simp: conn_ok_def Let_def)
      ultimately show ?thesis by (auto simp: conn_ok_def Let_def)
    next
      case False
      with f have "d \<noteq> c" by auto
      with False d show ?thesis by (simp add: conn_ok_def Let_def)
    qed
  qed
  show "lfwd_ok ?v g" for g
  proof (cases "g = f")
    case True
    then show ?thesis using assms(3,5) f by (simp add: lfwd_ok_def)
  next
    case False
    have "lf_owner k \<noteq> c" if "live w g = Some k" for k
      using proxy_invD(3) [OF assms(1), of g] that f False by (auto simp: lfwd_ok_def)
    with False proxy_invD(3) [OF assms(1), of g] show ?thesis by (auto simp: lfwd_ok_def)
  qed
qed (use proxy_invD(4,5) [OF assms(1)] in auto)

lemma inv_incoming_closed:
  assumes "proxy_inv w" "c < next_conn w" "\<not> in_deleted (pconns w c)"
  shows "\<exists>v. incoming_closed c w = Inr v \<and> proxy_inv v \<and> handed v = handed w \<and> dropped v = dropped w"
proof -
  let ?f = "fwd_at (pconns w c)"
  obtain l where l: "live w ?f = Some l" "lf_owner l = c" using owner_forwarder [OF assms] by blast
  show ?thesis
  proof (cases "lf_outgoing l = None")
    case True
    let ?v = "set_pconn c (\<lambda>k. k\<lparr>in_deleted := True\<rparr>) (w\<lparr>forwarders := forwarders w - {?f}, live := (live w)(?f := None)\<rparr>)"
    have "?f \<in> forwarders w" using proxy_invD(1) [OF assms(1)] l(1) by auto
    then have "incoming_closed c w = Inr ?v"
      using l(1) True by (simp add: incoming_closed_def forwarder_gone_def proxy_Remove_def Let_def)
    moreover have "proxy_inv ?v"
      by (rule inv_gone [OF assms(1) l(1)]) (use l(2) in simp_all)
    ultimately show ?thesis by simp
  next
    case False
    then have "incoming_closed c w = Inr (set_pconn c (\<lambda>k. k\<lparr>in_deleted := True\<rparr>) (w\<lparr>live := (live w)(?f \<mapsto> l\<lparr>has_incoming := False\<rparr>)\<rparr>))"
      unfolding incoming_closed_def Let_def l(1) option.case by (subst if_not_P) simp_all
    then show ?thesis using inv_half [OF assms(1) l False assms(2)] by simp
  qed
qed

lemma inv_outgoing_closed:
  assumes "proxy_inv w" "live w f = Some l"
  shows "\<exists>v. outgoing_closed f w = Inr v \<and> proxy_inv v \<and> handed v = handed w \<and> dropped v = dropped w"
proof (cases "has_incoming l")
  case True
  let ?c = "lf_owner l" and ?w = "w\<lparr>live := (live w)(f \<mapsto> l\<lparr>lf_outgoing := None\<rparr>)\<rparr>"
  have o: "?c < next_conn w" "fwd_at (pconns w ?c) = f" "\<not> in_deleted (pconns w ?c)"
    using proxy_invD(3) [OF assms(1), of f] assms(2) True by (auto simp: lfwd_ok_def)
  have "proxy_inv ?w"
  proof (rule proxy_invI)
    show "forwarders ?w = dom (live ?w)" using proxy_invD(1) [OF assms(1)] assms(2) by auto
    show "conn_ok ?w d" if "d < next_conn ?w" for d
      using proxy_invD(2) [OF assms(1), of d] that assms(2) by (cases "fwd_at (pconns w d) = f") (auto simp: conn_ok_def Let_def)
    show "lfwd_ok ?w g" for g
      using proxy_invD(3) [OF assms(1), of g] assms(2) by (cases "g = f") (auto simp: lfwd_ok_def)
  qed (use proxy_invD(4,5) [OF assms(1)] in auto)
  from inv_closing [OF this, of ?c] True assms(2) o(3) show ?thesis
    by (simp add: outgoing_closed_def incoming_Close_def)
next
  case False
  have d: "in_deleted (pconns w (lf_owner l))" using proxy_invD(3) [OF assms(1), of f] assms(2) False by (auto simp: lfwd_ok_def)
  have "f \<in> forwarders w" using proxy_invD(1) [OF assms(1)] assms(2) by auto
  then have "outgoing_closed f w = Inr (w\<lparr>forwarders := forwarders w - {f}, live := (live w)(f := None)\<rparr>)"
    using assms(2) False by (simp add: outgoing_closed_def forwarder_gone_def proxy_Remove_def)
  moreover have "proxy_inv (w\<lparr>forwarders := forwarders w - {f}, live := (live w)(f := None)\<rparr>)"
    by (rule inv_gone [OF assms]) (use d in simp_all)
  ultimately show ?thesis by simp
qed

text \<open>The connections an event adds to those dialled.\<close>

fun dialled :: "proxy_event \<Rightarrow> nat list" where
  "dialled (PConnected c out) = (if out then [c] else [])"
| "dialled e = []"

lemma proxy_inv_handle:
  assumes "proxy_inv w" "proxy_allowed w e" "proxy_orderly w e"
  shows "\<exists>v. proxy_handle up e w = Inr v \<and> proxy_inv v
    \<and> mset (map snd (handed v)) + mset (dropped v) = mset (map snd (handed w)) + mset (dropped w) + mset (dialled e)"
proof (cases e)
  case (PAccept f answer)
  with inv_accept [OF assms(1), of f up answer] assms(2,3) show ?thesis by auto
next
  case (PChecked c err)
  have keep: "handed v = handed w \<and> dropped v = dropped w" if "proxy_checked c err w = Inr v" for v
    using that by (auto simp: proxy_checked_def Let_def incoming_Close_def split: if_splits)
  from PChecked assms(2) inv_checked [OF assms(1), of c err] obtain v where
    "proxy_checked c err w = Inr v" "proxy_inv v" by auto
  with keep PChecked show ?thesis by auto
next
  case (PConnected c out)
  with inv_connected [OF assms(1), of c out] assms(2) show ?thesis by (auto split: if_splits)
next
  case (PIncomingClose c)
  with inv_closing [OF assms(1)] assms(2) show ?thesis by (simp add: incoming_Close_def)
next
  case (PIncomingClosed c)
  with inv_incoming_closed [OF assms(1), of c] assms(2) show ?thesis by auto
next
  case (POutgoingClosed f)
  with assms(2) obtain l where "live w f = Some l" by auto
  from inv_outgoing_closed [OF assms(1) this] obtain v where
    "outgoing_closed f w = Inr v" "proxy_inv v" "handed v = handed w" "dropped v = dropped w" by blast
  with POutgoingClosed show ?thesis by simp
qed

interpretation proxies: invariant_system proxy_init "proxy_step up" proxy_inv for up
proof unfold_locales
  show "proxy_inv w" if "proxy_init w" for w using that by (rule proxy_inv_init)
  show "proxy_inv v" if "proxy_inv w" "proxy_step up w e v" for w e v
    using proxy_inv_handle [OF that(1), of e up] that(2) by (auto simp: proxy_step_def proxy_step_any_def)
qed

lemma run_dialled:
  "run (proxy_step up) w es v \<Longrightarrow> proxy_inv w \<Longrightarrow>
     mset (map snd (handed v)) + mset (dropped v) = mset (map snd (handed w)) + mset (dropped w) + mset (concat (map dialled es))"
proof (induction rule: run.induct)
  case (run_Cons w e u es v)
  from run_Cons.hyps(1) proxy_inv_handle [OF run_Cons.prems, of e up]
  have "mset (map snd (handed u)) + mset (dropped u) = mset (map snd (handed w)) + mset (dropped w) + mset (dialled e)"
    "proxy_inv u" by (auto simp: proxy_step_def proxy_step_any_def)
  with run_Cons.IH show ?case by simp
qed simp

section \<open>Properties\<close>

text \<open>
  C8: while no new forwarder is put at the address of one whose closures are waiting, the proxy
  never touches a deleted object nor fails its assertion, every upstream connection that is
  handed over goes to the forwarder of the very connection it was dialled for, at most once,
  and each one dialled is either handed over or closed.
\<close>

theorem proxy_right_forwarder:
  assumes "run (proxy_step up) new_proxy_object es w"
  shows "(\<forall>e. proxy_allowed w e \<longrightarrow> proxy_orderly w e \<longrightarrow> (\<exists>v. proxy_handle up e w = Inr v))
    \<and> (\<forall>(o', c) \<in> set (handed w). o' = c) \<and> distinct (map snd (handed w))
    \<and> mset (map snd (handed w)) + mset (dropped w) = mset (concat (map dialled es))
    \<and> forwarders w = dom (live w)"
proof -
  have init: "proxy_inv new_proxy_object" using proxy_inv_init by (simp add: proxy_init_def)
  from proxies.run_inv [OF assms init] have inv: "proxy_inv w" .
  have "\<exists>v. proxy_handle up e w = Inr v" if "proxy_allowed w e" "proxy_orderly w e" for e
    using proxy_inv_handle [OF inv that] by blast
  moreover have "\<forall>(o', c) \<in> set (handed w). o' = c" using proxy_invD(4) [OF inv] by auto
  moreover have "mset (map snd (handed w)) + mset (dropped w) = mset (concat (map dialled es))"
    using run_dialled [OF assms init] by (simp add: new_proxy_object_def)
  ultimately show ?thesis using proxy_invD(1,5) [OF inv] by blast
qed

definition sample_upstream :: Upstream where
  "sample_upstream = new_upstream\<lparr>up_app := Some 0\<rparr>"

lemmas proxy_sample_simps = new_proxy_object_def sample_upstream_def new_upstream_def proxy_OnConnection_def CheckUpstreamProcess_def
  proxy_checked_def proxy_connected_def incoming_Close_def incoming_closed_def forwarder_gone_def proxy_Remove_def Has_def set_pconn_def Let_def

theorem proxy_right_forwarder_witness:
  "\<exists>w. run (proxy_step sample_upstream) new_proxy_object [PAccept 100 None, PChecked 0 0, PConnected 0 True] w
     \<and> handed w = [(0, 0)] \<and> mset (map snd (handed w)) + mset (dropped w) = {#0#}"
proof -
  have "\<exists>w. exec_run (\<lambda>w e. proxy_allowed w e \<and> proxy_orderly w e) (proxy_handle sample_upstream)
      [PAccept 100 None, PChecked 0 0, PConnected 0 True] new_proxy_object = Some w \<and> handed w = [(0, 0)]"
    by (simp add: proxy_sample_simps)
  then obtain w where w: "exec_run (\<lambda>w e. proxy_allowed w e \<and> proxy_orderly w e) (proxy_handle sample_upstream)
      [PAccept 100 None, PChecked 0 0, PConnected 0 True] new_proxy_object = Some w" "handed w = [(0, 0)]" by blast
  have "run (proxy_step sample_upstream) new_proxy_object [PAccept 100 None, PChecked 0 0, PConnected 0 True] w"
    by (rule exec_run_run [OF w(1)]) (simp add: proxy_step_def proxy_step_any_def)
  with proxy_right_forwarder [OF this] w(2) show ?thesis by auto
qed

text \<open>
  An address used again defeats the test: when a connection closes while its upstream check
  is under way and the next connection's forwarder is put at the same address, the first
  connection's upstream connection is handed to the second connection's forwarder, and if the
  check fails instead, the deleted first connection is used.
\<close>

theorem proxy_address_reuse:
  "\<exists>w v. run (proxy_step_any sample_upstream) new_proxy_object [PAccept 100 None, PIncomingClose 0, PIncomingClosed 0, PAccept 100 None] w
     \<and> proxy_allowed w (PChecked 0 (- 1)) \<and> proxy_handle sample_upstream (PChecked 0 (- 1)) w = Inl UseAfterFree
     \<and> run (proxy_step_any sample_upstream) w [PChecked 0 0, PConnected 0 True] v \<and> handed v = [(1, 0)]"
proof -
  let ?es = "[PAccept 100 None, PIncomingClose 0, PIncomingClosed 0, PAccept 100 None]"
  have "\<exists>w v. exec_run proxy_allowed (proxy_handle sample_upstream) ?es new_proxy_object = Some w
     \<and> proxy_allowed w (PChecked 0 (- 1)) \<and> proxy_handle sample_upstream (PChecked 0 (- 1)) w = Inl UseAfterFree
     \<and> exec_run proxy_allowed (proxy_handle sample_upstream) [PChecked 0 0, PConnected 0 True] w = Some v \<and> handed v = [(1, 0)]"
    by (simp add: proxy_sample_simps)
  moreover have "run (proxy_step_any sample_upstream) s es t" if "exec_run proxy_allowed (proxy_handle sample_upstream) es s = Some t" for s es t
    by (rule exec_run_run [OF that]) (simp add: proxy_step_any_def)
  ultimately show ?thesis by blast
qed

end
