(* ===== verification/ProxyForwarders.thy ===== *)
theory ProxyForwarders
  imports TcpProxies ForwarderProps
begin

text \<open>
  The proxy and the forwarder together. \<open>TcpProxies\<close> keeps of a forwarder only its owner and
  its two connection pointers; here the detailed forwarder of \<open>Forwarder\<close> is shown to behave
  like that: every step of it is matched by events of the proxy's system, so what is proved of
  the proxy holds with the real forwarders in it.
\<close>

section \<open>The abstraction\<close>

text \<open>
  What the proxy sees of the forwarder made for its connection \<open>c\<close>. A forwarder's outgoing
  connection is named by the connection whose closure dialled it.
\<close>

definition fwd_abs :: "nat \<Rightarrow> fwd \<Rightarrow> lfwd option" where
  "fwd_abs c w =
     (if deleted w then None
      else Some \<lparr>lf_owner = c, has_incoming = ftcp (cl w Incoming) \<noteq> None,
             lf_outgoing = (if ftcp (cl w Outgoing) = None then None else Some c)\<rparr>)"

text \<open>
  The detailed forwarder \<open>w\<close>, whose incoming connection is \<open>a\<close>, is the one at address \<open>f\<close> in
  the state \<open>W\<close> of the proxy, where that connection is \<open>c\<close>.
\<close>

definition fwd_rel :: "nat \<Rightarrow> nat \<Rightarrow> nat \<Rightarrow> fwd \<Rightarrow> proxy \<Rightarrow> bool" where
  "fwd_rel a f c w W \<longleftrightarrow>
     live W f = fwd_abs c w \<and> (f \<in> forwarders W \<longleftrightarrow> live W f \<noteq> None) \<and> c < next_conn W \<and> fwd_at (pconns W c) = f
     \<and> (in_deleted (pconns W c) \<longleftrightarrow> gone (conns w a)) \<and> (in_closing (pconns W c) \<longleftrightarrow> closing (conns w a))"

text \<open>The events of the proxy's system that a step of the forwarder stands for.\<close>

fun own_events :: "nat \<Rightarrow> nat \<Rightarrow> nat \<Rightarrow> fev \<Rightarrow> proxy_event list" where
  "own_events a f c (EvClosed t) = [if t = a then PIncomingClosed c else POutgoingClosed f]"
| "own_events a f c (EvAttach t st) = [PConnected c True]"
| "own_events a f c e = []"

definition proxy_events :: "nat \<Rightarrow> nat \<Rightarrow> nat \<Rightarrow> fwd \<Rightarrow> fev \<Rightarrow> fwd \<Rightarrow> proxy_event list" where
  "proxy_events a f c w e w' = own_events a f c e
     @ (if (\<forall>t. e \<noteq> EvClosed t) \<and> closing (conns w' a) \<and> \<not> closing (conns w a) then [PIncomingClose c] else [])"

section \<open>Steps that leave the pointers alone\<close>

definition links :: "fwd \<Rightarrow> fwd \<Rightarrow> bool" where
  "links w w' \<longleftrightarrow> (deleted w' \<longleftrightarrow> deleted w) \<and> (\<forall>c. ftcp (cl w' c) = ftcp (cl w c))
     \<and> (\<forall>t. (gone (conns w' t) \<longleftrightarrow> gone (conns w t)) \<and> (closing (conns w t) \<longrightarrow> closing (conns w' t)))"

lemma links_refl: "links w w"
  by (simp add: links_def)

lemma links_trans [trans]: "links u v \<Longrightarrow> links v w \<Longrightarrow> links u w"
  by (simp add: links_def)

lemma links_mark: "links w (mark t w)"
  by (simp add: links_def)

lemma links_conn:
  "(\<And>k. gone (f k) = gone k) \<Longrightarrow> (\<And>k. closing k \<Longrightarrow> closing (f k)) \<Longrightarrow> links w (upd_conn t f w)"
  by (simp add: links_def)

lemma links_slot: "links w (set_slot p bs w)"
  by (simp add: links_def)

lemma links_Swap: "links w (Swap c w)"
  by (simp add: links_def Swap_def Let_def)

lemma links_Close: "conn_Close t w = Inr w' \<Longrightarrow> links w w'"
  by (auto simp: conn_Close_def split: if_splits intro: links_conn links_refl)

lemma links_close_unless: "close_unless_closing t w = Inr w' \<Longrightarrow> links w w'"
  by (auto simp: close_unless_closing_def split: if_splits intro: links_Close links_refl)

lemma links_error_listener: "error_listener c w = Inr w' \<Longrightarrow> links w w'"
  by (auto simp: error_listener_def bindE_Inr_iff split: if_splits option.splits
      intro: links_trans links_Close links_close_unless)

lemma links_invoke:
  assumes "\<And>c u v. call c u = Inr v \<Longrightarrow> links u v"
  shows "invoke call cs w = Inr w' \<Longrightarrow> links w w'"
proof (induction cs arbitrary: w)
  case Nil
  then show ?case by (simp add: links_refl)
next
  case (Cons c cs)
  then show ?case by (auto simp: bindE_Inr_iff intro: links_trans assms)
qed

lemma links_OnError: "conn_OnError t w = Inr w' \<Longrightarrow> links w w'"
  by (auto simp: conn_OnError_def split: if_splits intro: links_invoke links_error_listener)

lemma links_Write: "conn_Write t p st w = Inr w' \<Longrightarrow> links w w'"
  by (auto simp: conn_Write_def split: if_splits intro: links_OnError links_conn)

lemma links_data_listener:
  assumes "data_listener s wr st c w = Inr w'"
  shows "links w w'"
proof -
  note slot = links_slot [of w "data_in (cl w c)" "in_buf w c @ s"]
  show ?thesis
    using assms links_refl links_trans [OF slot] links_trans [OF slot links_trans [OF links_Swap links_Write]]
    by (auto simp: data_listener_def Let_def slot split: if_splits option.splits)
qed

lemma links_send_listener:
  assumes "send_listener st c w = Inr w'"
  shows "links w w'"
proof -
  note slot = links_slot [of w "data_out (cl w (peer c))" "[]"]
  show ?thesis
    using assms links_trans [OF slot links_trans [OF links_Swap links_Write]]
    by (auto simp: send_listener_def Let_def slot split: if_splits option.splits)
qed

lemma links_after:
  "links (upd_conn t f w) w' \<Longrightarrow> (\<And>k. gone (f k) = gone k) \<Longrightarrow> (\<And>k. closing k \<Longrightarrow> closing (f k)) \<Longrightarrow> links w w'"
  by (rule links_trans [OF links_conn])

lemma links_data: "invoke (data_listener s wr st) cs w = Inr w' \<Longrightarrow> links w w'"
  by (rule links_invoke) (auto intro: links_data_listener)

lemma links_send: "invoke (send_listener st) cs w = Inr w' \<Longrightarrow> links w w'"
  by (rule links_invoke) (auto intro: links_send_listener)

lemma links_OnRead: "conn_OnRead t nread buf wr st w = Inr w' \<Longrightarrow> links w w'"
  unfolding conn_OnRead_def Let_def
  by (auto split: if_splits intro: links_Close links_OnError dest!: links_data elim!: links_after)

lemma links_OnWrite: "conn_OnWrite t status st w = Inr w' \<Longrightarrow> links w w'"
  unfolding conn_OnWrite_def Let_def
  by (auto split: if_splits dest!: links_OnError links_send elim!: links_after)

lemma links_handle:
  assumes "handle e w = Inr w'" "\<And>t. e \<noteq> EvClosed t" "\<And>t st. e \<noteq> EvAttach t st"
  shows "links w w'"
  using assms by (cases e) (auto intro: links_OnRead links_OnWrite links_Close)

section \<open>Steps that change them\<close>

lemma if_Inr: "(if P then r else Inr v) = Inr w \<Longrightarrow> w = v \<or> r = Inr w"
  by (simp split: if_splits)

lemma links_SetOutgoing:
  "SetOutgoing t st w = Inr w' \<Longrightarrow> links (upd_client Outgoing (\<lambda>k. k\<lparr>ftcp := Some t\<rparr>) w) w'"
proof -
  let ?w1 = "upd_client Outgoing (\<lambda>k. k\<lparr>ftcp := Some t\<rparr>) w"
  let ?w2 = "if ftcp (cl ?w1 Outgoing) \<noteq> ftcp (cl ?w1 Incoming) then fwd_Init Outgoing t ?w1
    else upd_client Outgoing (\<lambda>o'. o'\<lparr>data_in := data_in (cl ?w1 Incoming), data_out := data_out (cl ?w1 Incoming)\<rparr>) ?w1"
  have w2: "links ?w1 ?w2" by (simp add: links_def fwd_Init_def)
  assume "SetOutgoing t st w = Inr w'"
  then have "w' = ?w2 \<or> conn_Write t (data_out (cl (Swap Incoming ?w2) Incoming)) st (Swap Incoming ?w2) = Inr w'"
    unfolding SetOutgoing_def Let_def by (rule if_Inr)
  then show ?thesis using w2 links_trans [OF w2 links_trans [OF links_Swap links_Write]] by blast
qed

lemma OnClose_links:
  assumes "socks_ok a b w" "sock a b c = Some t" "\<not> gone (conns w t)" "conn_OnClose t w = Inr w'"
  shows "ftcp (cl w' c) = None" "ftcp (cl w' (peer c)) = ftcp (cl w (peer c))"
    "deleted w' \<longleftrightarrow> ftcp (cl w (peer c)) = None" "gone (conns w' k) \<longleftrightarrow> gone (conns w k) \<or> k = t"
    "closing (conns w' k) \<longleftrightarrow> closing (conns w k) \<or> ftcp (cl w (peer c)) = Some k"
proof -
  have f: "ftcp (cl w (peer c)) \<noteq> ftcp (cl w c)"
    using ftcp_distinct [OF assms(1-3)] by (cases c) auto
  have reg: "on_close (conns w t) = [c]" using sock_registered [OF assms(1,2)] by (simp add: registered_def)
  note nd = not_deleted [OF assms(1-3)]
  have "ftcp (cl w' c) = None \<and> ftcp (cl w' (peer c)) = ftcp (cl w (peer c))
    \<and> (deleted w' \<longleftrightarrow> ftcp (cl w (peer c)) = None) \<and> (gone (conns w' k) \<longleftrightarrow> gone (conns w k) \<or> k = t)
    \<and> (closing (conns w' k) \<longleftrightarrow> closing (conns w k) \<or> ftcp (cl w (peer c)) = Some k)"
  proof (cases "ftcp (cl w (peer c))")
    case None
    with f reg nd assms(4) show ?thesis by (auto simp: conn_OnClose_def close_listener_def Let_def split: if_splits)
  next
    case (Some q)
    then have "\<not> gone (conns w q)" using ftcp_sock [OF assms(1), of "peer c"] by (auto split: option.splits if_splits)
    with Some f reg nd assms(4) show ?thesis
      by (auto simp: conn_OnClose_def close_listener_def Let_def close_unless_closing_eq split: if_splits)
  qed
  then show "ftcp (cl w' c) = None" "ftcp (cl w' (peer c)) = ftcp (cl w (peer c))"
    "deleted w' \<longleftrightarrow> ftcp (cl w (peer c)) = None" "gone (conns w' k) \<longleftrightarrow> gone (conns w k) \<or> k = t"
    "closing (conns w' k) \<longleftrightarrow> closing (conns w k) \<or> ftcp (cl w (peer c)) = Some k" by blast+
qed

section \<open>The simulation\<close>

text \<open>A forwarder that exists, step by step: \<open>PIncomingClose\<close> brings the closing flag along.\<close>

lemma catch_up:
  assumes "live W f = fwd_abs c w'" "f \<in> forwarders W \<longleftrightarrow> live W f \<noteq> None" "c < next_conn W" "fwd_at (pconns W c) = f"
    "in_deleted (pconns W c) \<longleftrightarrow> gone (conns w' a)" "in_closing (pconns W c) \<longleftrightarrow> closing (conns w a)"
    "closing (conns w a) \<longrightarrow> closing (conns w' a)" "closing (conns w' a) \<longrightarrow> closing (conns w a) \<or> \<not> gone (conns w' a)"
  shows "\<exists>W'. run (proxy_step_any up) W (if closing (conns w' a) \<and> \<not> closing (conns w a) then [PIncomingClose c] else []) W'
    \<and> fwd_rel a f c w' W'"
proof (cases "closing (conns w' a) \<and> \<not> closing (conns w a)")
  case True
  let ?W = "set_pconn c (\<lambda>k. k\<lparr>in_closing := True\<rparr>) W"
  have "\<not> in_deleted (pconns W c)" using True assms(5,8) by blast
  then have "proxy_step_any up W (PIncomingClose c) ?W"
    using assms(3) by (simp add: proxy_step_any_def incoming_Close_def)
  moreover have "fwd_rel a f c w' ?W" using assms True by (simp add: fwd_rel_def)
  ultimately show ?thesis using True by (auto intro: run_Cons run_Nil)
next
  case False
  with assms have "fwd_rel a f c w' W" by (auto simp: fwd_rel_def)
  with False show ?thesis using run_Nil by fastforce
qed

lemma simulate_links:
  assumes "fwd_rel a f c w W" "links w w'" "closing (conns w' a) \<longrightarrow> closing (conns w a) \<or> \<not> gone (conns w a)"
  shows "\<exists>W'. run (proxy_step_any up) W (if closing (conns w' a) \<and> \<not> closing (conns w a) then [PIncomingClose c] else []) W'
    \<and> fwd_rel a f c w' W'"
proof -
  have "fwd_abs c w' = fwd_abs c w" using assms(2) by (simp add: links_def fwd_abs_def)
  with assms show ?thesis by (intro catch_up) (auto simp: fwd_rel_def links_def)
qed

lemma simulate_attach:
  assumes "fwd_rel a f c w W" "\<not> deleted w" "pc_stage (pconns W c) = Dialing"
    and "links (upd_client Outgoing (\<lambda>k. k\<lparr>ftcp := Some t\<rparr>) w) w'"
    and "closing (conns w' a) \<longrightarrow> closing (conns w a) \<or> \<not> gone (conns w a)"
  shows "\<exists>W'. run (proxy_step_any up) W (PConnected c True #
      (if closing (conns w' a) \<and> \<not> closing (conns w a) then [PIncomingClose c] else [])) W' \<and> fwd_rel a f c w' W'"
proof -
  obtain l where l: "live W f = Some l" "fwd_abs c w = Some l" using assms(1,2) by (auto simp: fwd_rel_def fwd_abs_def)
  define V where "V = (set_pconn c (\<lambda>k. k\<lparr>pc_stage := Settled\<rparr>) W)
    \<lparr>live := (live W)(f \<mapsto> l\<lparr>lf_outgoing := Some c\<rparr>), handed := handed W @ [(lf_owner l, c)]\<rparr>"
  have "c < next_conn W" "fwd_at (pconns W c) = f" "f \<in> forwarders W" using assms(1) l(1) by (auto simp: fwd_rel_def)
  with assms(3) l(1) have step: "proxy_step_any up W (PConnected c True) V"
    by (simp add: V_def proxy_step_any_def proxy_connected_def Has_def Let_def)
  have "fwd_abs c w' = Some (l\<lparr>lf_outgoing := Some c\<rparr>)"
    using assms(2,4) l(2) by (auto simp: links_def fwd_abs_def)
  then have "\<exists>W'. run (proxy_step_any up) V (if closing (conns w' a) \<and> \<not> closing (conns w a) then [PIncomingClose c] else []) W'
    \<and> fwd_rel a f c w' W'"
    using assms(1,4,5) l unfolding V_def by (intro catch_up) (auto simp: fwd_rel_def links_def)
  with step show ?thesis by (blast intro: run_Cons)
qed

lemma simulate_incoming_closed:
  assumes "fwd_rel a f c w W" "socks_ok a b w" "closing (conns w a)" "\<not> gone (conns w a)" "conn_OnClose a w = Inr w'"
  shows "\<exists>W'. run (proxy_step_any up) W [PIncomingClosed c] W' \<and> fwd_rel a f c w' W'"
proof -
  note w' = OnClose_links [OF assms(2) sock.simps(1) assms(4,5)]
  have nd: "\<not> deleted w" using not_deleted [OF assms(2) sock.simps(1) assms(4)] .
  have f: "ftcp (cl w Incoming) \<noteq> None" using ftcp_sock [OF assms(2), of Incoming] assms(4) by simp
  let ?l = "\<lparr>lf_owner = c, has_incoming = True, lf_outgoing = (if ftcp (cl w Outgoing) = None then None else Some c)\<rparr>"
  have l: "live W f = Some ?l" using assms(1) nd f by (simp add: fwd_rel_def fwd_abs_def)
  have r: "c < next_conn W" "fwd_at (pconns W c) = f" "f \<in> forwarders W" "in_closing (pconns W c)" "\<not> in_deleted (pconns W c)"
    using assms(1,3,4) l by (auto simp: fwd_rel_def)
  have out: "ftcp (cl w Outgoing) \<noteq> Some a" using ftcp_distinct [OF assms(2) sock.simps(1) assms(4)] ftcp_sock [OF assms(2), of Incoming] assms(4)
    by auto
  define V where "V = (if ftcp (cl w Outgoing) = None then W\<lparr>forwarders := forwarders W - {f}, live := (live W)(f := None)\<rparr>
      else W\<lparr>live := (live W)(f \<mapsto> ?l\<lparr>has_incoming := False\<rparr>)\<rparr>)"
  have "proxy_step_any up W (PIncomingClosed c) (set_pconn c (\<lambda>k. k\<lparr>in_deleted := True\<rparr>) V)"
    using l r by (simp add: proxy_step_any_def incoming_closed_def forwarder_gone_def proxy_Remove_def V_def Let_def)
  moreover have "fwd_rel a f c w' (set_pconn c (\<lambda>k. k\<lparr>in_deleted := True\<rparr>) V)"
    using l r w' out assms(3) by (auto simp: fwd_rel_def fwd_abs_def V_def)
  ultimately show ?thesis by (blast intro: run_Cons run_Nil)
qed

lemma simulate_outgoing_closed:
  assumes "fwd_rel a f c w W" "socks_ok a b w" "b = Some t" "\<not> gone (conns w t)" "conn_OnClose t w = Inr w'"
  shows "\<exists>W'. run (proxy_step_any up) W [POutgoingClosed f] W' \<and> fwd_rel a f c w' W'"
proof -
  have so: "sock a b Outgoing = Some t" using assms(3) by simp
  note w' = OnClose_links [OF assms(2) so assms(4,5), simplified]
  have nd: "\<not> deleted w" using not_deleted [OF assms(2) so assms(4)] .
  have fo: "ftcp (cl w Outgoing) = Some t" using ftcp_sock [OF assms(2), of Outgoing] assms(3,4) by simp
  have ta: "t \<noteq> a" using assms(2,3) by (auto simp: socks_ok_def)
  have fi: "ftcp (cl w Incoming) = (if gone (conns w a) then None else Some a)"
    using ftcp_sock [OF assms(2), of Incoming] by simp
  let ?l = "\<lparr>lf_owner = c, has_incoming = \<not> gone (conns w a), lf_outgoing = Some c\<rparr>"
  have l: "live W f = Some ?l" using assms(1) nd fo fi by (simp add: fwd_rel_def fwd_abs_def)
  have r: "c < next_conn W" "fwd_at (pconns W c) = f" "f \<in> forwarders W" "in_deleted (pconns W c) \<longleftrightarrow> gone (conns w a)"
    "in_closing (pconns W c) \<longleftrightarrow> closing (conns w a)"
    using assms(1) l by (auto simp: fwd_rel_def)
  define V where "V = (if gone (conns w a) then W\<lparr>forwarders := forwarders W - {f}, live := (live W)(f := None)\<rparr>
      else set_pconn c (\<lambda>k. k\<lparr>in_closing := True\<rparr>) (W\<lparr>live := (live W)(f \<mapsto> ?l\<lparr>lf_outgoing := None\<rparr>)\<rparr>))"
  have "proxy_step_any up W (POutgoingClosed f) V"
    using l r by (simp add: proxy_step_any_def outgoing_closed_def forwarder_gone_def proxy_Remove_def incoming_Close_def V_def Let_def)
  moreover have "fwd_rel a f c w' V"
    using l r w' ta fi by (auto simp: fwd_rel_def fwd_abs_def V_def)
  ultimately show ?thesis by (blast intro: run_Cons run_Nil)
qed

lemma forwarder_simulated:
  assumes inv: "finv a b w" and "fwd_step w e w'" "fwd_rel a f c w W"
    and "\<forall>t st. e = EvAttach t st \<longrightarrow> pc_stage (pconns W c) = Dialing"
  shows "\<exists>W'. run (proxy_step_any up) W (proxy_events a f c w e w') W' \<and> fwd_rel a f c w' W'"
proof -
  note socks = finv_socks [OF inv]
  have al: "allowed w e" and h: "handle e w = Inr w'" using assms(2) by (simp_all add: fwd_step_def)
  have shut: "closing (conns w' a) \<longrightarrow> closing (conns w a) \<or> \<not> gone (conns w a)"
    using socks_ok_side [OF socks, of Incoming] by (auto simp: side_ok_def)
  show ?thesis
  proof (cases e)
    case (EvClosed t)
    with al have t: "closing (conns w t)" "\<not> gone (conns w t)" by (auto elim: allowed_closedE)
    then have "conns w t \<noteq> new_conn" by auto
    then have "t = a \<or> b = Some t" using socks by (auto simp: socks_ok_def)
    then show ?thesis
    proof
      assume "t = a"
      with simulate_incoming_closed [OF assms(3) socks] t h EvClosed show ?thesis by (simp add: proxy_events_def)
    next
      assume b: "b = Some t"
      then have "t \<noteq> a" using socks by (auto simp: socks_ok_def)
      with simulate_outgoing_closed [OF assms(3) socks b] t h EvClosed show ?thesis by (simp add: proxy_events_def)
    qed
  next
    case (EvAttach t st)
    then have "\<not> deleted w" using al by (auto elim: allowed_attachE)
    moreover have "SetOutgoing t st w = Inr w'" using h EvAttach by simp
    ultimately show ?thesis
      using simulate_attach [OF assms(3) _ _ links_SetOutgoing shut] assms(4) EvAttach by (simp add: proxy_events_def)
  qed (use links_handle [OF h] simulate_links [OF assms(3) _ shut] in \<open>simp_all add: proxy_events_def\<close>)
qed

text \<open>
  C34: the proxy's view of its forwarders is the right one. Every step of a forwarder, whatever
  callback of libuv causes it, is matched by the events of the proxy's system it stands for
  (the close of a connection, the connection the proxy hands it, the close of the incoming
  connection after an error), and the two states keep agreeing on the two connection pointers,
  on whether the forwarder still exists, and on what is closed.
\<close>

theorem forwarder_refines_proxy:
  assumes "reach (\<lambda>w. w = fwd_Create a) fwd_step w" "fwd_step w e w'" "fwd_rel a f c w W"
    and "\<forall>t st. e = EvAttach t st \<longrightarrow> pc_stage (pconns W c) = Dialing"
  shows "\<exists>W'. run (proxy_step_any up) W (proxy_events a f c w e w') W' \<and> fwd_rel a f c w' W'"
proof -
  obtain b where "finv a b w" using reach_finv [OF assms(1)] by blast
  from forwarder_simulated [OF this assms(2-4)] show ?thesis .
qed

definition sample_dialing :: proxy where
  "sample_dialing = projr (proxy_handle sample_upstream (PChecked 0 0) (projr (proxy_handle sample_upstream (PAccept 100 None) new_proxy_object)))"

theorem forwarder_refines_proxy_witness:
  "\<exists>W. run (proxy_step_any sample_upstream) sample_dialing [PConnected 0 True] W \<and> fwd_rel 0 100 0 demo2 W
     \<and> live W 100 = Some \<lparr>lf_owner = 0, has_incoming = True, lf_outgoing = Some 0\<rparr>"
proof -
  have al: "allowed demo1 (EvAttach 7 0)" by (rule allow_attach) (simp_all add: demo1_def)
  have step: "fwd_step demo1 (EvAttach 7 0) demo2"
    using al handle_projr [OF demo1_reach al] by (simp add: fwd_step_def demo2_def)
  have rel: "fwd_rel 0 100 0 demo1 sample_dialing" and st: "pc_stage (pconns sample_dialing 0) = Dialing"
    by (simp_all add: sample_dialing_def proxy_sample_simps fwd_rel_def fwd_abs_def demo1_def new_client_def)
  have "proxy_events 0 100 0 demo1 (EvAttach 7 0) demo2 = [PConnected 0 True]"
    by (simp add: proxy_events_def demo2_conns)
  with forwarder_refines_proxy [OF demo1_reach step rel, of sample_upstream] st
  obtain W where W: "run (proxy_step_any sample_upstream) sample_dialing [PConnected 0 True] W" "fwd_rel 0 100 0 demo2 W"
    by auto
  moreover have "live W 100 = Some \<lparr>lf_owner = 0, has_incoming = True, lf_outgoing = Some 0\<rparr>"
    using W(2) by (simp add: fwd_rel_def fwd_abs_def demo2_conns)
  ultimately show ?thesis by blast
qed

end
