(* ===== verification/ProxyFlows.thy ===== *)
theory ProxyFlows
  imports ProxyForwarders
begin

text \<open>
  The proxy with its forwarders in full. \<open>TcpProxies\<close> has the proxy's own state and
  \<open>Forwarder\<close> one forwarder; here every accepted connection has the forwarder made for it,
  \<open>SetOutgoing\<close> and \<open>Close\<close> are called where the closures of \<open>TcpProxy::Init\<close> call them, and a
  forwarder's close listeners reach the proxy's set. The events of different connections
  interleave as they like.
\<close>

section \<open>State and operations\<close>

text \<open>The names of the incoming connection \<open>c\<close> and of the one dialled for it.\<close>

definition cin :: "nat \<Rightarrow> nat" where
  "cin c = 2 * c"

definition cout :: "nat \<Rightarrow> nat" where
  "cout c = 2 * c + 1"

lemma cin_cout [simp]: "cin c \<noteq> cout d" "cout d \<noteq> cin c" "cin c = cin d \<longleftrightarrow> c = d" "cout c = cout d \<longleftrightarrow> c = d"
  unfolding cin_def cout_def by presburger+

text \<open>\<open>fl_fwd\<close> has the forwarder made for each connection.\<close>

record flows =
  fl_proxy :: proxy
  fl_fwd :: "nat \<Rightarrow> fwd"

definition new_flows :: flows where
  "new_flows = \<lparr>fl_proxy = new_proxy_object, fl_fwd = (\<lambda>c. fwd_Create (cin c))\<rparr>"

fun proxy_all :: "Upstream \<Rightarrow> proxy_event list \<Rightarrow> proxy \<Rightarrow> fault + proxy" where
  "proxy_all up [] W = Inr W"
| "proxy_all up (e # es) W = bindE (proxy_handle up e W) (proxy_all up es)"

text \<open>A forwarder changes from \<open>w\<close> to \<open>w'\<close> while the proxy handles \<open>es\<close>.\<close>

definition flow_move :: "Upstream \<Rightarrow> nat \<Rightarrow> (fault + fwd) \<Rightarrow> (fwd \<Rightarrow> proxy_event list) \<Rightarrow> flows \<Rightarrow> fault + flows" where
  "flow_move up c r es S = bindE r (\<lambda>w'. bindE (proxy_all up (es w') (fl_proxy S))
     (\<lambda>W. Inr \<lparr>fl_proxy = W, fl_fwd = (fl_fwd S)(c := w')\<rparr>))"

definition flow_checked :: "Upstream \<Rightarrow> nat \<Rightarrow> int \<Rightarrow> flows \<Rightarrow> fault + flows" where
  "flow_checked up c err S =
     flow_move up c (if err \<noteq> 0 \<and> Has (fwd_at (pconns (fl_proxy S) c)) (fl_proxy S)
                     then conn_Close (cin c) (fl_fwd S c) else Inr (fl_fwd S c))
       (\<lambda>w'. [PChecked c err]) S"

text \<open>\<open>forwarder.SetOutgoing\<close> goes to whatever forwarder lies at the address.\<close>

definition flow_connected :: "Upstream \<Rightarrow> nat \<Rightarrow> bool \<Rightarrow> int \<Rightarrow> flows \<Rightarrow> fault + flows" where
  "flow_connected up c out st S =
     (let f = fwd_at (pconns (fl_proxy S) c)
      in if \<not> Has f (fl_proxy S) then flow_move up c (Inr (fl_fwd S c)) (\<lambda>w'. [PConnected c out]) S
         else if out
         then (case live (fl_proxy S) f of
                 None \<Rightarrow> Inl UseAfterFree
               | Some l \<Rightarrow> let d = lf_owner l; w = fl_fwd S d
                   in flow_move up d (SetOutgoing (cout c) st w)
                        (\<lambda>w'. PConnected c True # (if closing (conns w' (cin d)) \<and> \<not> closing (conns w (cin d))
                               then [PIncomingClose d] else [])) S)
         else flow_move up c (conn_Close (cin c) (fl_fwd S c)) (\<lambda>w'. [PConnected c False]) S)"

definition flow_accept :: "Upstream \<Rightarrow> nat \<Rightarrow> int option \<Rightarrow> flows \<Rightarrow> fault + flows" where
  "flow_accept up f answer S =
     (let c = next_conn (fl_proxy S)
      in bindE (flow_move up c (Inr (fwd_Create (cin c))) (\<lambda>w'. [PAccept f None]) S)
           (\<lambda>S. case answer of Some err \<Rightarrow> if up_app up = None then Inr S else flow_checked up c err S | None \<Rightarrow> Inr S))"

datatype flow_event =
    FAccept nat "int option"
  | FChecked nat int
  | FConnected nat bool int
  | FForward nat fev

fun flow_handle :: "Upstream \<Rightarrow> flow_event \<Rightarrow> flows \<Rightarrow> fault + flows" where
  "flow_handle up (FAccept f answer) S = flow_accept up f answer S"
| "flow_handle up (FChecked c err) S = flow_checked up c err S"
| "flow_handle up (FConnected c out st) S = flow_connected up c out st S"
| "flow_handle up (FForward c e) S =
     flow_move up c (handle e (fl_fwd S c))
       (\<lambda>w'. proxy_events (cin c) (fwd_at (pconns (fl_proxy S) c)) c (fl_fwd S c) e w') S"

fun flow_allowed :: "flows \<Rightarrow> flow_event \<Rightarrow> bool" where
  "flow_allowed S (FAccept f answer) = proxy_allowed (fl_proxy S) (PAccept f answer)"
| "flow_allowed S (FChecked c err) = proxy_allowed (fl_proxy S) (PChecked c err)"
| "flow_allowed S (FConnected c out st) = proxy_allowed (fl_proxy S) (PConnected c out)"
| "flow_allowed S (FForward c e) = (c < next_conn (fl_proxy S) \<and> allowed (fl_fwd S c) e \<and> (\<forall>t st. e \<noteq> EvAttach t st))"

fun flow_orderly :: "flows \<Rightarrow> flow_event \<Rightarrow> bool" where
  "flow_orderly S (FAccept f answer) = proxy_orderly (fl_proxy S) (PAccept f answer)"
| "flow_orderly S e = True"

definition flow_step :: "Upstream \<Rightarrow> flows \<Rightarrow> flow_event \<Rightarrow> flows \<Rightarrow> bool" where
  "flow_step up S e T \<longleftrightarrow> flow_allowed S e \<and> flow_orderly S e \<and> flow_handle up e S = Inr T"

section \<open>What an event of one connection leaves alone\<close>

lemma run_all: "run (proxy_step_any up) W es V \<Longrightarrow> proxy_all up es W = Inr V"
  by (induction rule: run.induct) (auto simp: proxy_step_any_def)

text \<open>
  \<open>keeps c W V\<close>: other connections and their forwarders are the same in \<open>V\<close>, and no closure
  of any connection waits that did not before.
\<close>

definition keeps :: "nat \<Rightarrow> proxy \<Rightarrow> proxy \<Rightarrow> bool" where
  "keeps c W V \<longleftrightarrow> next_conn W \<le> next_conn V
     \<and> (\<forall>d < next_conn W. d \<noteq> c \<longrightarrow> pconns V d = pconns W d
          \<and> (\<forall>f l. lf_owner l = d \<longrightarrow> (live V f = Some l \<longleftrightarrow> live W f = Some l)))
     \<and> (c < next_conn W \<longrightarrow> pc_stage (pconns V c) \<noteq> Settled \<longrightarrow> pc_stage (pconns W c) \<noteq> Settled)"

lemma keeps_refl: "keeps c W W"
  by (simp add: keeps_def)

lemma keeps_trans: "keeps c U V \<Longrightarrow> keeps c V W \<Longrightarrow> keeps c U W"
  unfolding keeps_def by (metis order_less_le_trans order_trans)

lemma keepsI:
  assumes "next_conn W \<le> next_conn V" "\<And>d. d < next_conn W \<Longrightarrow> d \<noteq> c \<Longrightarrow> pconns V d = pconns W d"
    and "\<And>g. g \<noteq> f \<Longrightarrow> live V g = live W g" "\<And>l. live W f = Some l \<Longrightarrow> lf_owner l = c" "\<And>l. live V f = Some l \<Longrightarrow> lf_owner l = c"
    and "c < next_conn W \<Longrightarrow> pc_stage (pconns V c) \<noteq> Settled \<Longrightarrow> pc_stage (pconns W c) \<noteq> Settled"
  shows "keeps c W V"
  unfolding keeps_def
proof (intro conjI allI impI)
  show "live V g = Some l \<longleftrightarrow> live W g = Some l" if "d < next_conn W" "d \<noteq> c" "lf_owner l = d" for d g l
    using assms(3-5) that by (cases "g = f") auto
qed (use assms in auto)

lemma keeps_pconns:
  "live V = live W \<Longrightarrow> next_conn V = next_conn W \<Longrightarrow> (\<And>d. d \<noteq> c \<Longrightarrow> pconns V d = pconns W d) \<Longrightarrow>
   (pc_stage (pconns V c) \<noteq> Settled \<Longrightarrow> pc_stage (pconns W c) \<noteq> Settled) \<Longrightarrow> keeps c W V"
  by (auto simp: keeps_def)

text \<open>The connection an event is about; an accepted one is new.\<close>

fun event_of :: "proxy \<Rightarrow> proxy_event \<Rightarrow> nat" where
  "event_of W (PAccept f answer) = next_conn W"
| "event_of W (PChecked c err) = c"
| "event_of W (PConnected c out) = c"
| "event_of W (PIncomingClose c) = c"
| "event_of W (PIncomingClosed c) = c"
| "event_of W (POutgoingClosed f) = (case live W f of Some l \<Rightarrow> lf_owner l | None \<Rightarrow> 0)"

lemma keeps_incoming_Close: "incoming_Close c W = Inr V \<Longrightarrow> keeps c W V"
  by (auto simp: incoming_Close_def split: if_splits intro!: keeps_pconns)

lemma keeps_stage:
  assumes "pc_stage (pconns W c) \<noteq> Settled"
  shows "keeps c W (set_pconn c (\<lambda>k. k\<lparr>pc_stage := s\<rparr>) W)"
  using assms by (intro keeps_pconns) auto

lemma keeps_checked: "proxy_checked c err W = Inr V \<Longrightarrow> pc_stage (pconns W c) \<noteq> Settled \<Longrightarrow> keeps c W V"
  by (auto simp: proxy_checked_def Let_def keeps_stage split: if_splits dest!: keeps_incoming_Close
      intro: keeps_trans [OF keeps_stage])

lemma keeps_connected:
  assumes "proxy_inv W" "c < next_conn W" "pc_stage (pconns W c) \<noteq> Settled" "proxy_connected c out W = Inr V"
  shows "keeps c W V"
proof (cases "Has (fwd_at (pconns W c)) W")
  case True
  from waiting_forwarder [OF assms(1-3) True] obtain l where "live W (fwd_at (pconns W c)) = Some l" "lf_owner l = c" by blast
  with assms(4) True keeps_trans [OF keeps_stage [OF assms(3)] keeps_incoming_Close] show ?thesis
    by (auto simp: proxy_connected_def Let_def Has_def split: if_splits intro!: keepsI [of _ _ _ "fwd_at (pconns W c)"])
next
  case False
  with assms(3,4) show ?thesis
    by (auto simp: proxy_connected_def Let_def Has_def split: if_splits intro!: keeps_pconns)
qed

lemma keeps_gone: "forwarder_gone f W = Inr V \<Longrightarrow> live W f = Some l \<Longrightarrow> keeps (lf_owner l) W V"
  by (auto simp: forwarder_gone_def proxy_Remove_def split: if_splits intro!: keepsI [of _ _ _ f])

lemma keeps_incoming_closed:
  assumes "proxy_inv W" "c < next_conn W" "\<not> in_deleted (pconns W c)" "incoming_closed c W = Inr V"
  shows "keeps c W V"
proof -
  from owner_forwarder [OF assms(1-3)] obtain l where l: "live W (fwd_at (pconns W c)) = Some l" "lf_owner l = c" by blast
  have half: "keeps c W (W\<lparr>live := (live W)(fwd_at (pconns W c) \<mapsto> l\<lparr>has_incoming := False\<rparr>)\<rparr>)"
    using l by (intro keepsI [of _ _ _ "fwd_at (pconns W c)"]) auto
  from assms(4) l obtain U where U: "V = set_pconn c (\<lambda>k. k\<lparr>in_deleted := True\<rparr>) U" "keeps c W U"
    using half keeps_gone by (fastforce simp: incoming_closed_def Let_def bindE_Inr_iff split: if_splits)
  have "keeps c U V" by (rule keeps_pconns) (simp_all add: U)
  with U(2) show ?thesis by (rule keeps_trans)
qed

lemma keeps_outgoing_closed:
  assumes "live W f = Some l" "outgoing_closed f W = Inr V"
  shows "keeps (lf_owner l) W V"
proof (cases "has_incoming l")
  case True
  let ?U = "W\<lparr>live := (live W)(f \<mapsto> l\<lparr>lf_outgoing := None\<rparr>)\<rparr>"
  have "keeps (lf_owner l) W ?U" using assms(1) by (intro keepsI [of _ _ _ f]) auto
  with assms True show ?thesis by (auto simp: outgoing_closed_def dest: keeps_incoming_Close intro: keeps_trans)
qed (use assms keeps_gone in \<open>auto simp: outgoing_closed_def\<close>)

lemma keeps_event:
  assumes "proxy_inv W" "proxy_allowed W e" "proxy_handle up e W = Inr V" "\<forall>f answer. e \<noteq> PAccept f answer"
  shows "keeps (event_of W e) W V"
  using assms
  by (cases e) (auto intro: keeps_checked keeps_connected keeps_incoming_Close keeps_incoming_closed keeps_outgoing_closed)

lemma next_incoming_Close: "incoming_Close c W = Inr V \<Longrightarrow> next_conn V = next_conn W"
  by (auto simp: incoming_Close_def split: if_splits)

lemma next_gone: "forwarder_gone f W = Inr V \<Longrightarrow> next_conn V = next_conn W"
  by (auto simp: forwarder_gone_def proxy_Remove_def split: if_splits)

lemma next_event:
  assumes "proxy_handle up e W = Inr V" "\<forall>f answer. e \<noteq> PAccept f answer"
  shows "next_conn V = next_conn W"
  using assms
  by (cases e) (auto simp: proxy_checked_def proxy_connected_def incoming_closed_def outgoing_closed_def Let_def bindE_Inr_iff
      split: if_splits option.splits dest!: next_incoming_Close next_gone)

lemma run_keeps:
  assumes "run (proxy_step_any up) W es V" "proxy_inv W" "\<forall>e \<in> set es. \<exists>out. e \<in> {PConnected c out, PIncomingClose c, PIncomingClosed c}"
  shows "proxy_inv V \<and> keeps c W V \<and> next_conn V = next_conn W"
  using assms
proof (induction rule: run.induct)
  case (run_Nil W)
  then show ?case by (simp add: keeps_refl)
next
  case (run_Cons W e U es V)
  have e: "event_of W e = c" "\<forall>f answer. e \<noteq> PAccept f answer" "proxy_orderly W e" using run_Cons.prems(2) by auto
  note st = run_Cons.hyps(1) [unfolded proxy_step_any_def]
  have "proxy_inv U" using proxy_inv_handle [OF run_Cons.prems(1) _ e(3), of up] st by auto
  moreover have "keeps c W U" "next_conn U = next_conn W"
    using keeps_event [OF run_Cons.prems(1), of e up U] next_event [of up e W U] st e by auto
  ultimately show ?case using run_Cons.IH run_Cons.prems(2) keeps_trans by auto
qed

lemma forward_keeps:
  assumes "run (proxy_step_any up) W (proxy_events (cin c) f c w e w') V" "proxy_inv W"
    and "\<And>l. live W f = Some l \<Longrightarrow> lf_owner l = c"
  shows "proxy_inv V \<and> keeps c W V \<and> next_conn V = next_conn W"
proof (cases "\<exists>t. e = EvClosed t \<and> t \<noteq> cin c")
  case True
  then have "proxy_events (cin c) f c w e w' = [POutgoingClosed f]" by (auto simp: proxy_events_def)
  with assms(1) have st: "proxy_allowed W (POutgoingClosed f)" "proxy_handle up (POutgoingClosed f) W = Inr V"
    by (auto simp: proxy_step_any_def elim!: run_ConsE elim: run.cases)
  then obtain l where "live W f = Some l" by auto
  with assms(3) keeps_outgoing_closed st(2) have "keeps c W V" by fastforce
  with proxy_inv_handle [OF assms(2) st(1), of up] next_event [OF st(2)] st(2) show ?thesis by auto
next
  case False
  show ?thesis
    by (rule run_keeps [OF assms(1,2)]) (use False in \<open>cases e; auto simp: proxy_events_def\<close>)
qed

section \<open>The invariant\<close>

text \<open>The proxy's record of a connection and the forwarder made for it agree.\<close>

definition agree :: "nat \<Rightarrow> fwd \<Rightarrow> proxy \<Rightarrow> bool" where
  "agree c w W \<longleftrightarrow>
     (\<forall>l. lf_owner l = c \<longrightarrow> (live W (fwd_at (pconns W c)) = Some l \<longleftrightarrow> fwd_abs c w = Some l))
   \<and> (in_deleted (pconns W c) \<longleftrightarrow> gone (conns w (cin c))) \<and> (in_closing (pconns W c) \<longleftrightarrow> closing (conns w (cin c)))"

definition flow_inv_at :: "nat \<Rightarrow> nat option \<Rightarrow> fwd \<Rightarrow> proxy \<Rightarrow> bool" where
  "flow_inv_at c b w W \<longleftrightarrow> finv (cin c) b w \<and> (b = None \<or> b = Some (cout c))
     \<and> (pc_stage (pconns W c) \<noteq> Settled \<longrightarrow> b = None) \<and> agree c w W"

definition flow_inv :: "flows \<Rightarrow> bool" where
  "flow_inv S \<longleftrightarrow> proxy_inv (fl_proxy S)
     \<and> (\<forall>c < next_conn (fl_proxy S). \<exists>b. flow_inv_at c b (fl_fwd S c) (fl_proxy S))"

lemma fwd_abs_owner: "fwd_abs c w = Some l \<Longrightarrow> lf_owner l = c"
  by (auto simp: fwd_abs_def split: if_splits)

lemma agree_rel: "fwd_rel (cin c) f c w W \<Longrightarrow> agree c w W"
  by (auto simp: agree_def fwd_rel_def)

lemma rel_agree:
  assumes "proxy_inv W" "c < next_conn W" "agree c w W" "\<not> deleted w"
  shows "fwd_rel (cin c) (fwd_at (pconns W c)) c w W"
proof -
  obtain l where l: "fwd_abs c w = Some l" using assms(4) by (simp add: fwd_abs_def)
  then have "live W (fwd_at (pconns W c)) = Some l" using assms(3) fwd_abs_owner by (auto simp: agree_def)
  with l assms(2,3) proxy_invD(1) [OF assms(1)] show ?thesis by (auto simp: fwd_rel_def agree_def)
qed

lemma keeps_agree: "keeps c W V \<Longrightarrow> d < next_conn W \<Longrightarrow> d \<noteq> c \<Longrightarrow> flow_inv_at d b w W \<Longrightarrow> flow_inv_at d b w V"
  unfolding flow_inv_at_def agree_def keeps_def by auto

text \<open>A move of one connection that leaves the others alone keeps the invariant.\<close>

lemma flow_inv_move:
  assumes inv: "flow_inv S" and k: "keeps c (fl_proxy S) V" and n: "\<And>d. d < next_conn V \<Longrightarrow> d = c \<or> d < next_conn (fl_proxy S)"
    and "proxy_inv V" "flow_inv_at c b w' V"
  shows "flow_inv \<lparr>fl_proxy = V, fl_fwd = (fl_fwd S)(c := w')\<rparr>"
proof -
  have "\<exists>b. flow_inv_at d b (((fl_fwd S)(c := w')) d) V" if "d < next_conn V" for d
  proof (cases "d = c")
    case True
    with assms(5) show ?thesis by auto
  next
    case False
    with n [OF that] obtain b where "flow_inv_at d b (fl_fwd S d) (fl_proxy S)" using inv by (auto simp: flow_inv_def)
    with keeps_agree [OF k _ False] n [OF that] False show ?thesis by auto
  qed
  with assms(4) show ?thesis by (simp add: flow_inv_def)
qed

lemma flow_inv_moved:
  assumes "flow_inv S" "r = Inr w'" "proxy_all up (es w') (fl_proxy S) = Inr V" "keeps c (fl_proxy S) V"
    and "\<And>d. d < next_conn V \<Longrightarrow> d = c \<or> d < next_conn (fl_proxy S)" "proxy_inv V" "flow_inv_at c b w' V"
  shows "\<exists>T. flow_move up c r es S = Inr T \<and> flow_inv T \<and> fl_proxy T = V"
  using flow_inv_move [OF assms(1,4-7)] assms(2,3) by (simp add: flow_move_def)

section \<open>Every event keeps it\<close>

lemma allowed_alive:
  assumes "finv a b w" "allowed w e" "\<forall>t st. e \<noteq> EvAttach t st"
  shows "\<not> deleted w"
proof -
  obtain t where t: "(\<exists>nread buf wr st. e = EvRead t nread buf wr st) \<or> (\<exists>status st. e = EvWrote t status st) \<or> e = EvClosed t \<or> e = EvClose t"
    using assms(3) by (cases e) auto
  then have "\<exists>c. sock a b c = Some t" using allowed_sock [OF finv_socks [OF assms(1)] assms(2)] by blast
  moreover have "\<not> gone (conns w t)" using assms(2) t
    by (auto elim: allowed_readE allowed_wroteE allowed_closedE allowed_closeE)
  ultimately show ?thesis using not_deleted [OF finv_socks [OF assms(1)]] by blast
qed

lemma flow_forward:
  assumes inv: "flow_inv S" and al: "flow_allowed S (FForward c e)"
  shows "\<exists>T. flow_handle up (FForward c e) S = Inr T \<and> flow_inv T"
proof -
  let ?W = "fl_proxy S" and ?w = "fl_fwd S c"
  let ?f = "fwd_at (pconns ?W c)"
  have c: "c < next_conn ?W" "allowed ?w e" "\<forall>t st. e \<noteq> EvAttach t st" and p: "proxy_inv ?W" using al inv by (auto simp: flow_inv_def)
  obtain b where b: "finv (cin c) b ?w" "b = None \<or> b = Some (cout c)" "pc_stage (pconns ?W c) \<noteq> Settled \<longrightarrow> b = None" "agree c ?w ?W"
    using inv c(1) by (auto simp: flow_inv_def flow_inv_at_def)
  obtain w' where w': "handle e ?w = Inr w'" "finv (cin c) b w'" using finv_handle_same [OF b(1) c(2)] c(3) by blast
  have rel: "fwd_rel (cin c) ?f c ?w ?W" using rel_agree [OF p c(1) b(4) allowed_alive [OF b(1) c(2,3)]] .
  have step: "fwd_step ?w e w'" using c(2) w'(1) by (simp add: fwd_step_def)
  obtain V where V: "run (proxy_step_any up) ?W (proxy_events (cin c) ?f c ?w e w') V" "fwd_rel (cin c) ?f c w' V"
    using forwarder_simulated [OF b(1) step rel, of up] c(3) by blast
  have own: "live ?W ?f = Some l \<Longrightarrow> lf_owner l = c" for l using rel fwd_abs_owner by (simp add: fwd_rel_def)
  note k = forward_keeps [OF V(1) p own]
  have "flow_inv_at c b w' V"
    using w'(2) b(2,3) agree_rel [OF V(2)] k c(1) by (simp add: flow_inv_at_def keeps_def)
  with flow_inv_moved [OF inv w'(1), of up "proxy_events (cin c) ?f c ?w e" V c b] run_all [OF V(1)] k
  show ?thesis by auto
qed

text \<open>The closures of a connection that waits: its forwarder, if its address is in the set, is its own.\<close>

lemma agree_waiting:
  assumes "proxy_inv W" "c < next_conn W" "pc_stage (pconns W c) \<noteq> Settled" "Has (fwd_at (pconns W c)) W" "agree c w W"
  obtains l where "live W (fwd_at (pconns W c)) = Some l" "lf_owner l = c" "\<not> deleted w" "\<not> gone (conns w (cin c))"
proof -
  from waiting_forwarder [OF assms(1-4)] obtain l where
    l: "live W (fwd_at (pconns W c)) = Some l" "lf_owner l = c" "\<not> in_deleted (pconns W c)" by blast
  then have "fwd_abs c w = Some l" "\<not> gone (conns w (cin c))" using assms(5) by (auto simp: agree_def)
  with that l show ?thesis by (auto simp: fwd_abs_def split: if_splits)
qed

lemma agree_mark: "agree c w W \<Longrightarrow> agree c (mark (cin c) w) (set_pconn c (\<lambda>k. k\<lparr>in_closing := True\<rparr>) W)"
  by (simp add: agree_def fwd_abs_def)

lemma agree_stage: "agree c w (set_pconn c (\<lambda>k. k\<lparr>pc_stage := s\<rparr>) W) \<longleftrightarrow> agree c w W"
  by (simp add: agree_def)

text \<open>Closing the incoming connection, with the event of the proxy that does so.\<close>

lemma flow_close_incoming:
  assumes inv: "flow_inv S" and c: "c < next_conn (fl_proxy S)" "pc_stage (pconns (fl_proxy S) c) \<noteq> Settled"
    "Has (fwd_at (pconns (fl_proxy S) c)) (fl_proxy S)"
    and h: "proxy_handle up e (fl_proxy S) = incoming_Close c (set_pconn c (\<lambda>k. k\<lparr>pc_stage := Settled\<rparr>) (fl_proxy S))"
  shows "\<exists>T. flow_move up c (conn_Close (cin c) (fl_fwd S c)) (\<lambda>w'. [e]) S = Inr T \<and> flow_inv T"
proof -
  let ?W = "fl_proxy S" and ?w = "fl_fwd S c"
  let ?U = "set_pconn c (\<lambda>k. k\<lparr>pc_stage := Settled\<rparr>) ?W"
  let ?V = "set_pconn c (\<lambda>k. k\<lparr>in_closing := True\<rparr>) ?U"
  have p: "proxy_inv ?W" using inv by (simp add: flow_inv_def)
  obtain b where b: "finv (cin c) b ?w" "b = None \<or> b = Some (cout c)" "agree c ?w ?W"
    using inv c(1) by (auto simp: flow_inv_def flow_inv_at_def)
  have alive: "\<not> gone (conns ?w (cin c))" using agree_waiting [OF p c b(3)] by blast
  then have ud: "\<not> in_deleted (pconns ?W c)" using b(3) by (simp add: agree_def)
  then have V: "incoming_Close c ?U = Inr ?V" by (simp add: incoming_Close_def)
  have "agree c (mark (cin c) ?w) ?V" by (rule agree_mark) (simp add: agree_stage b(3))
  then have at: "flow_inv_at c b (mark (cin c) ?w) ?V"
    using finv_mark [OF b(1) sock.simps(1)] b(2) by (simp add: flow_inv_at_def)
  have "\<exists>T. flow_move up c (conn_Close (cin c) ?w) (\<lambda>w'. [e]) S = Inr T \<and> flow_inv T \<and> fl_proxy T = ?V"
    by (rule flow_inv_moved [OF inv conn_Close_eq [OF alive] _ _ _ _ at])
      (use h V keeps_trans [OF keeps_stage [OF c(2)] keeps_incoming_Close [OF V]] inv_closing [OF inv_settle [OF p]] in simp_all)
  then show ?thesis by blast
qed

lemma flow_inv_checked:
  assumes inv: "flow_inv S" and c: "c < next_conn (fl_proxy S)" "pc_stage (pconns (fl_proxy S) c) = Checking"
  shows "\<exists>T. flow_checked up c err S = Inr T \<and> flow_inv T"
proof (cases "err \<noteq> 0 \<and> Has (fwd_at (pconns (fl_proxy S) c)) (fl_proxy S)")
  case True
  then have "proxy_handle up (PChecked c err) (fl_proxy S) = incoming_Close c (set_pconn c (\<lambda>k. k\<lparr>pc_stage := Settled\<rparr>) (fl_proxy S))"
    by (simp add: proxy_checked_def Let_def Has_def)
  from flow_close_incoming [OF inv c(1) _ _ this] True c(2) show ?thesis by (simp add: flow_checked_def)
next
  case False
  let ?s = "if err \<noteq> 0 then Settled else Dialing"
  let ?V = "set_pconn c (\<lambda>k. k\<lparr>pc_stage := ?s\<rparr>) (fl_proxy S)"
  have p: "proxy_inv (fl_proxy S)" using inv by (simp add: flow_inv_def)
  obtain b where b: "flow_inv_at c b (fl_fwd S c) (fl_proxy S)" using inv c(1) by (auto simp: flow_inv_def)
  have V: "proxy_handle up (PChecked c err) (fl_proxy S) = Inr ?V"
    using False by (auto simp: proxy_checked_def Let_def Has_def)
  have at: "flow_inv_at c b (fl_fwd S c) ?V" using b c(2) by (auto simp: flow_inv_at_def agree_stage)
  have pV: "proxy_inv ?V" using inv_settle [OF p] inv_dialing [OF p] c(2) by simp
  have "\<exists>T. flow_move up c (Inr (fl_fwd S c)) (\<lambda>w'. [PChecked c err]) S = Inr T \<and> flow_inv T \<and> fl_proxy T = ?V"
    by (rule flow_inv_moved [OF inv refl _ _ _ pV at]) (use V c(2) keeps_stage [of "fl_proxy S" c ?s] in auto)
  with False show ?thesis by (auto simp: flow_checked_def)
qed

text \<open>Before a connection is attached only the incoming one is known.\<close>

lemma attach_allowed:
  assumes "finv a None w" "t \<noteq> a" "\<not> deleted w"
  shows "allowed w (EvAttach t st)"
proof (rule allow_attach)
  have other: "k \<noteq> a \<Longrightarrow> conns w k = new_conn" for k using finv_socks [OF assms(1)] by (simp add: socks_ok_def)
  then show "conns w t = new_conn" using assms(2) by simp
  have "on_data (conns w a) = [Incoming]"
    using sock_registered [OF finv_socks [OF assms(1)], of Incoming a] by (simp add: registered_def)
  then show "Outgoing \<notin> set (on_data (conns w k))" for k using other [of k] by (cases "k = a") auto
qed (rule assms(3))

lemma settled_run:
  assumes "run (proxy_step_any up) W (PConnected c True # es) V" "proxy_inv W" "set es \<subseteq> {PIncomingClose c}"
  shows "pc_stage (pconns V c) = Settled"
proof -
  from assms(1) obtain U where U: "proxy_step_any up W (PConnected c True) U" "run (proxy_step_any up) U es V"
    by (auto elim: run_ConsE)
  then have al: "c < next_conn W" and h: "proxy_handle up (PConnected c True) W = Inr U" and "proxy_allowed W (PConnected c True)"
    by (auto simp: proxy_step_any_def)
  with proxy_inv_handle [OF assms(2), of "PConnected c True" up] have "proxy_inv U" by auto
  from run_keeps [OF U(2) this, of c] assms(3) have k: "keeps c U V" by auto
  have "pc_stage (pconns U c) = Settled" "next_conn U = next_conn W"
    using h by (auto simp: proxy_connected_def Let_def incoming_Close_def split: if_splits option.splits)
  with k al show ?thesis by (auto simp: keeps_def)
qed

lemma flow_attach:
  assumes inv: "flow_inv S" and c: "c < next_conn (fl_proxy S)" "pc_stage (pconns (fl_proxy S) c) = Dialing"
    "Has (fwd_at (pconns (fl_proxy S) c)) (fl_proxy S)"
  shows "\<exists>T. flow_connected up c True st S = Inr T \<and> flow_inv T"
proof -
  let ?W = "fl_proxy S" and ?w = "fl_fwd S c"
  let ?f = "fwd_at (pconns ?W c)" and ?e = "EvAttach (cout c) st"
  let ?es = "\<lambda>w'. PConnected c True # (if closing (conns w' (cin c)) \<and> \<not> closing (conns ?w (cin c)) then [PIncomingClose c] else [])"
  have p: "proxy_inv ?W" using inv by (simp add: flow_inv_def)
  have b: "finv (cin c) None ?w" "agree c ?w ?W"
    using inv c(1,2) by (auto simp: flow_inv_def flow_inv_at_def)
  obtain l where l: "live ?W ?f = Some l" "lf_owner l = c" "\<not> deleted ?w"
    using agree_waiting [OF p c(1) _ c(3) b(2)] c(2) by auto
  have al: "allowed ?w ?e" by (rule attach_allowed [OF b(1) _ l(3)]) simp
  obtain w' where w': "SetOutgoing (cout c) st ?w = Inr w'" "finv (cin c) (Some (cout c)) w'" using finv_Attach [OF b(1) al] by blast
  have step: "fwd_step ?w ?e w'" using al w'(1) by (simp add: fwd_step_def)
  obtain V where V: "run (proxy_step_any up) ?W (proxy_events (cin c) ?f c ?w ?e w') V" "fwd_rel (cin c) ?f c w' V"
    using forwarder_simulated [OF b(1) step rel_agree [OF p c(1) b(2) l(3)], of up] c(2) by blast
  have es: "proxy_events (cin c) ?f c ?w ?e w' = ?es w'" by (simp add: proxy_events_def)
  note k = forward_keeps [OF V(1) p]
  have "pc_stage (pconns V c) = Settled" by (rule settled_run [OF V(1) [unfolded es] p]) auto
  with V(2) w'(2) agree_rel have at: "flow_inv_at c (Some (cout c)) w' V" by (simp add: flow_inv_at_def)
  have "\<exists>T. flow_move up c (SetOutgoing (cout c) st ?w) ?es S = Inr T \<and> flow_inv T \<and> fl_proxy T = V"
    by (rule flow_inv_moved [OF inv w'(1) _ _ _ _ at]) (use run_all [OF V(1)] es k l in auto)
  with c(3) l show ?thesis by (auto simp: flow_connected_def Let_def)
qed

lemma flow_inv_connected:
  assumes inv: "flow_inv S" and c: "c < next_conn (fl_proxy S)" "pc_stage (pconns (fl_proxy S) c) = Dialing"
  shows "\<exists>T. flow_connected up c out st S = Inr T \<and> flow_inv T"
proof (cases "Has (fwd_at (pconns (fl_proxy S) c)) (fl_proxy S)")
  case True
  show ?thesis
  proof (cases out)
    case True
    with flow_attach [OF assms \<open>Has _ _\<close>] show ?thesis by simp
  next
    case False
    then have "proxy_handle up (PConnected c False) (fl_proxy S) = incoming_Close c (set_pconn c (\<lambda>k. k\<lparr>pc_stage := Settled\<rparr>) (fl_proxy S))"
      using True by (simp add: proxy_connected_def Let_def Has_def)
    from flow_close_incoming [OF inv c(1) _ _ this] True False c(2) show ?thesis by (simp add: flow_connected_def Let_def)
  qed
next
  case False
  have p: "proxy_inv (fl_proxy S)" using inv by (simp add: flow_inv_def)
  obtain b where b: "flow_inv_at c b (fl_fwd S c) (fl_proxy S)" using inv c(1) by (auto simp: flow_inv_def)
  obtain V where V: "proxy_connected c out (fl_proxy S) = Inr V" "proxy_inv V" using inv_connected [OF p c] by blast
  have k: "keeps c (fl_proxy S) V" using keeps_connected [OF p c(1) _ V(1)] c(2) by simp
  have same: "live V = live (fl_proxy S)" "next_conn V = next_conn (fl_proxy S)" "pconns V c = (pconns (fl_proxy S) c)\<lparr>pc_stage := Settled\<rparr>"
    using V(1) False by (auto simp: proxy_connected_def Let_def Has_def split: if_splits)
  have at: "flow_inv_at c b (fl_fwd S c) V" using b same by (simp add: flow_inv_at_def agree_def)
  have "\<exists>T. flow_move up c (Inr (fl_fwd S c)) (\<lambda>w'. [PConnected c out]) S = Inr T \<and> flow_inv T \<and> fl_proxy T = V"
    by (rule flow_inv_moved [OF inv refl _ k _ V(2) at]) (use V(1) same in auto)
  with False show ?thesis by (auto simp: flow_connected_def Let_def)
qed

lemma flow_inv_accept:
  assumes inv: "flow_inv S" and al: "flow_allowed S (FAccept f answer)" "flow_orderly S (FAccept f answer)"
  shows "\<exists>T. flow_accept up f answer S = Inr T \<and> flow_inv T"
proof -
  let ?W = "fl_proxy S"
  let ?c = "next_conn ?W"
  have p: "proxy_inv ?W" using inv by (simp add: flow_inv_def)
  obtain V where V: "proxy_OnConnection up f None ?W = Inr V" "proxy_inv V" using inv_accept [OF p, of f up None] al by auto
  have new: "next_conn V = ?c + 1" "live V = (live ?W)(f \<mapsto> \<lparr>lf_owner = ?c, has_incoming = True, lf_outgoing = None\<rparr>)"
    "pconns V = (pconns ?W)(?c := \<lparr>fwd_at = f, pc_stage = (if up_app up = None then Dialing else Checking), in_closing = False, in_deleted = False\<rparr>)"
    using V(1) by (auto simp: proxy_OnConnection_def CheckUpstreamProcess_def proxy_checked_def Let_def split: if_splits)
  have k: "keeps ?c ?W V" by (rule keepsI [of _ _ _ f]) (use new al in auto)
  have at: "flow_inv_at ?c None (fwd_Create (cin ?c)) V"
    using finv_Create new by (auto simp: flow_inv_at_def agree_def fwd_abs_def new_client_def)
  have "\<exists>T. flow_move up ?c (Inr (fwd_Create (cin ?c))) (\<lambda>w'. [PAccept f None]) S = Inr T \<and> flow_inv T \<and> fl_proxy T = V"
    by (rule flow_inv_moved [OF inv refl _ k _ V(2) at]) (use V(1) new in auto)
  then obtain T where T: "flow_move up ?c (Inr (fwd_Create (cin ?c))) (\<lambda>w'. [PAccept f None]) S = Inr T" "flow_inv T" "fl_proxy T = V" by blast
  have "\<exists>U. flow_checked up ?c err T = Inr U \<and> flow_inv U" if "up_app up \<noteq> None" for err
    by (rule flow_inv_checked [OF T(2)]) (use that T(3) new in auto)
  with T show ?thesis by (auto simp: flow_accept_def Let_def split: option.split)
qed

lemma flow_inv_handle:
  assumes "flow_inv S" "flow_allowed S e" "flow_orderly S e"
  shows "\<exists>T. flow_handle up e S = Inr T \<and> flow_inv T"
proof (cases e)
  case (FForward c e')
  with flow_forward [OF assms(1)] assms(2) show ?thesis by blast
qed (use assms flow_inv_accept flow_inv_checked flow_inv_connected in \<open>auto simp del: proxy_allowed.simps(1)\<close>)

interpretation flow_sys: invariant_system "\<lambda>S. S = new_flows" "flow_step up" flow_inv for up
proof unfold_locales
  show "flow_inv S" if "S = new_flows" for S
    using that proxy_inv_init by (simp add: flow_inv_def new_flows_def proxy_init_def) (simp add: new_proxy_object_def)
  show "flow_inv T" if "flow_inv S" "flow_step up S e T" for S e T
    using flow_inv_handle [OF that(1), of e up] that(2) by (auto simp: flow_step_def)
qed

section \<open>Properties\<close>

text \<open>A forwarder exists exactly as long as its address is in the proxy's set.\<close>

lemma flow_alive:
  assumes "flow_inv S"
  shows "forwarders (fl_proxy S) = {fwd_at (pconns (fl_proxy S) c) | c. c < next_conn (fl_proxy S) \<and> \<not> deleted (fl_fwd S c)}"
proof -
  let ?W = "fl_proxy S"
  have p: "proxy_inv ?W" using assms by (simp add: flow_inv_def)
  have ag: "agree c (fl_fwd S c) ?W" if "c < next_conn ?W" for c using assms that by (auto simp: flow_inv_def flow_inv_at_def)
  have "\<exists>c. f = fwd_at (pconns ?W c) \<and> c < next_conn ?W \<and> \<not> deleted (fl_fwd S c)" if f: "f \<in> forwarders ?W" for f
  proof -
    obtain l where l: "live ?W f = Some l" using f proxy_invD(1) [OF p] by auto
    with proxy_invD(3) [OF p, of f] have o: "lf_owner l < next_conn ?W" "fwd_at (pconns ?W (lf_owner l)) = f" by (auto simp: lfwd_ok_def)
    with ag [OF o(1)] l have "fwd_abs (lf_owner l) (fl_fwd S (lf_owner l)) = Some l" by (auto simp: agree_def)
    with o show ?thesis by (intro exI [of _ "lf_owner l"]) (auto simp: fwd_abs_def split: if_splits)
  qed
  moreover have "fwd_at (pconns ?W c) \<in> forwarders ?W" if "c < next_conn ?W" "\<not> deleted (fl_fwd S c)" for c
    using rel_agree [OF p that(1) ag [OF that(1)] that(2)] that(2) by (auto simp: fwd_rel_def fwd_abs_def)
  ultimately show ?thesis by blast
qed

text \<open>Both directions of a forwarder whose outgoing connection, if it has one, is \<open>b\<close>.\<close>

lemma flow_dirs:
  assumes "flow_inv_at c b w W"
  shows "dir_ok (cl w Incoming) (store w) (b \<noteq> None) (rcvd (conns w (cin c))) (conns w (cout c))"
    "dir_ok (cl w Outgoing) (store w) True (rcvd (conns w (cout c))) (conns w (cin c))"
    "t \<noteq> cin c \<Longrightarrow> t \<noteq> cout c \<Longrightarrow> conns w t = new_conn"
proof -
  have f: "finv (cin c) b w" "b = None \<or> b = Some (cout c)" using assms by (auto simp: flow_inv_at_def)
  have none: "b = None \<Longrightarrow> conns w (cout c) = new_conn" using finv_socks [OF f(1)] by (auto simp: socks_ok_def)
  show "dir_ok (cl w Incoming) (store w) (b \<noteq> None) (rcvd (conns w (cin c))) (conns w (cout c))"
    "dir_ok (cl w Outgoing) (store w) True (rcvd (conns w (cout c))) (conns w (cin c))"
    using finv_flow [OF f(1), of Incoming] finv_flow [OF f(1), of Outgoing] f(2) none by (auto simp: flow_ok_def)
  show "t \<noteq> cin c \<Longrightarrow> t \<noteq> cout c \<Longrightarrow> conns w t = new_conn" using finv_socks [OF f(1)] f(2) by (auto simp: socks_ok_def)
qed

text \<open>
  C1: the proxy end to end. While no forwarder is put at the address of one whose closures wait,
  any interleaving of the events of any number of clients is handled without a fault, and for
  each client: what its upstream was given is a prefix of what the client sent, what the client
  was given is a prefix of what its upstream sent, the rest waits in the forwarder's buffers
  while the receiver is open and is empty when no write is under way, and no other connection
  has a part in it. The proxy's set has
  exactly the addresses of the forwarders that exist.
\<close>

theorem proxy_end_to_end:
  assumes "reach (\<lambda>S. S = new_flows) (flow_step up) S"
  shows "(\<forall>e. flow_allowed S e \<longrightarrow> flow_orderly S e \<longrightarrow> (\<exists>T. flow_handle up e S = Inr T))
    \<and> (\<forall>c < next_conn (fl_proxy S). let w = fl_fwd S c; i = conns w (cin c); u = conns w (cout c) in
         prefix (wire u) (rcvd i) \<and> (\<not> closing u \<longrightarrow> rcvd i = wire u @ in_buf w Incoming)
       \<and> prefix (wire i) (rcvd u) \<and> (\<not> closing i \<longrightarrow> rcvd u = wire i @ in_buf w Outgoing)
       \<and> (on_data u \<noteq> [] \<longrightarrow> \<not> closing u \<longrightarrow> inflight u = [] \<longrightarrow> wire u = rcvd i)
       \<and> (\<not> closing i \<longrightarrow> inflight i = [] \<longrightarrow> wire i = rcvd u)
       \<and> (\<forall>t. t \<noteq> cin c \<longrightarrow> t \<noteq> cout c \<longrightarrow> conns w t = new_conn))
    \<and> forwarders (fl_proxy S) = {fwd_at (pconns (fl_proxy S) c) | c. c < next_conn (fl_proxy S) \<and> \<not> deleted (fl_fwd S c)}"
proof -
  have inv: "flow_inv S" using assms by (rule flow_sys.reach_inv)
  have "let w = fl_fwd S c; i = conns w (cin c); u = conns w (cout c) in
         prefix (wire u) (rcvd i) \<and> (\<not> closing u \<longrightarrow> rcvd i = wire u @ in_buf w Incoming)
       \<and> prefix (wire i) (rcvd u) \<and> (\<not> closing i \<longrightarrow> rcvd u = wire i @ in_buf w Outgoing)
       \<and> (on_data u \<noteq> [] \<longrightarrow> \<not> closing u \<longrightarrow> inflight u = [] \<longrightarrow> wire u = rcvd i)
       \<and> (\<not> closing i \<longrightarrow> inflight i = [] \<longrightarrow> wire i = rcvd u)
       \<and> (\<forall>t. t \<noteq> cin c \<longrightarrow> t \<noteq> cout c \<longrightarrow> conns w t = new_conn)" if c: "c < next_conn (fl_proxy S)" for c
  proof -
    obtain b where b: "flow_inv_at c b (fl_fwd S c) (fl_proxy S)" using inv c by (auto simp: flow_inv_def)
    note dirs = flow_dirs [OF b]
    have att: "on_data (conns (fl_fwd S c) (cout c)) \<noteq> [] \<Longrightarrow> b \<noteq> None"
      using finv_socks [of "cin c" b "fl_fwd S c"] b by (auto simp: flow_inv_at_def socks_ok_def)
    have "wire (conns (fl_fwd S c) (cout c)) = rcvd (conns (fl_fwd S c) (cin c))"
      if "on_data (conns (fl_fwd S c) (cout c)) \<noteq> []" "\<not> closing (conns (fl_fwd S c) (cout c))" "inflight (conns (fl_fwd S c) (cout c)) = []"
      using dir_progress [OF _ that(2,3)] dirs(1) att [OF that(1)] by simp
    moreover note dir_progress [OF dirs(2)] dir_fifo [OF dirs(1)] dir_fifo [OF dirs(2)] dirs(3)
    ultimately show ?thesis by (simp add: in_buf_def Let_def)
  qed
  with flow_inv_handle [OF inv] flow_alive [OF inv] show ?thesis by blast
qed

text \<open>Two clients; the first sends two bytes before its upstream connection is there.\<close>

definition flow_demo :: "flow_event list" where
  "flow_demo = [FAccept 100 None, FAccept 200 None, FForward 0 (EvRead 0 2 ''ab'' True 0), FChecked 0 0, FConnected 0 True 0]"

lemma flow_demo_run:
  "\<exists>S. reach (\<lambda>S. S = new_flows) (flow_step sample_upstream) S \<and> next_conn (fl_proxy S) = 2
     \<and> wire (conns (fl_fwd S 0) (cout 0)) = ''ab''"
proof -
  have "\<exists>S. exec_run (\<lambda>S e. flow_allowed S e \<and> flow_orderly S e) (flow_handle sample_upstream) flow_demo new_flows = Some S
     \<and> next_conn (fl_proxy S) = 2 \<and> wire (conns (fl_fwd S 0) (cout 0)) = ''ab''"
    by (simp add: flow_demo_def new_flows_def flow_accept_def flow_move_def flow_checked_def flow_connected_def proxy_events_def
      proxy_sample_simps run_defs cin_def cout_def allowed.simps writable_if_open_def swap_ptrs_def numeral_2_eq_2) blast
  then obtain S where S: "exec_run (\<lambda>S e. flow_allowed S e \<and> flow_orderly S e) (flow_handle sample_upstream) flow_demo new_flows = Some S"
    "next_conn (fl_proxy S) = 2" "wire (conns (fl_fwd S 0) (cout 0)) = ''ab''" by blast
  have "run (flow_step sample_upstream) new_flows flow_demo S"
    by (rule exec_run_run [OF S(1)]) (simp add: flow_step_def)
  then have "reach (\<lambda>S. S = new_flows) (flow_step sample_upstream) S"
    by (rule run_reach) (rule reach_init, rule refl)
  with S(2,3) show ?thesis by (intro exI [of _ S]) simp
qed

theorem proxy_end_to_end_witness:
  "\<exists>S. reach (\<lambda>S. S = new_flows) (flow_step sample_upstream) S \<and> wire (conns (fl_fwd S 0) (cout 0)) = ''ab''
     \<and> prefix ''ab'' (rcvd (conns (fl_fwd S 0) (cin 0))) \<and> conns (fl_fwd S 0) (cin 1) = new_conn"
proof -
  obtain S where S: "reach (\<lambda>S. S = new_flows) (flow_step sample_upstream) S" "next_conn (fl_proxy S) = 2"
    "wire (conns (fl_fwd S 0) (cout 0)) = ''ab''" using flow_demo_run by blast
  have "prefix (wire (conns (fl_fwd S 0) (cout 0))) (rcvd (conns (fl_fwd S 0) (cin 0))) \<and> conns (fl_fwd S 0) (cin 1) = new_conn"
    using proxy_end_to_end [OF S(1)] S(2) by (auto simp: Let_def)
  with S show ?thesis by metis
qed

end
