(* ===== verification/Timers.thy ===== *)
theory Timers
  imports Prelude "HOL-Library.Word" "HOL-Library.Signed_Division"
begin

text \<open>
  \<open>src/timer.cc\<close>, \<open>include/timer.h\<close>: a repeating timer whose ticks are filtered by the time
  of day. The clock is read as seconds and microseconds (\<open>uv_timeval64_t\<close>) and turned into
  an unsigned 64-bit number of milliseconds, whose difference wraps around.
\<close>

section \<open>Model\<close>

record timeval =
  tv_sec :: int
  tv_usec :: int

definition millis :: "timeval \<Rightarrow> 64 word" where
  "millis t = word_of_int (tv_sec t * 1000 + tv_usec t sdiv 1000)"

record timer =
  interval :: "64 word"
  start_time :: timeval
  has_on_tick :: bool
  repeating :: bool

definition new_timer_object :: "64 word \<Rightarrow> timeval \<Rightarrow> timer" where
  "new_timer_object i junk = \<lparr>interval = i, start_time = junk, has_on_tick = False, repeating = False\<rparr>"

text \<open>\<open>Start\<close> with the results of \<open>uv_timer_start\<close> and \<open>uv_gettimeofday\<close>.\<close>

definition timer_Start :: "int \<Rightarrow> int \<Rightarrow> timeval \<Rightarrow> timer \<Rightarrow> bool \<times> timer" where
  "timer_Start start_status clock_status t tm =
     (if start_status \<noteq> 0 then (False, tm)
      else let tm1 = tm\<lparr>repeating := True\<rparr>
           in if clock_status \<noteq> 0 then (False, tm1) else (True, tm1\<lparr>start_time := t\<rparr>))"

definition timer_Stop :: "int \<Rightarrow> timer \<Rightarrow> bool \<times> timer" where
  "timer_Stop stop_status tm = (if stop_status \<noteq> 0 then (False, tm) else (True, tm\<lparr>repeating := False\<rparr>))"

definition GetElapsedTime :: "timeval \<Rightarrow> timer \<Rightarrow> 64 word" where
  "GetElapsedTime e tm = millis e - millis (start_time tm)"

definition Timer_Now :: "timeval \<Rightarrow> 64 word" where
  "Timer_Now t = millis t"

text \<open>Whether a tick of libuv reaches the listener.\<close>

definition OnTick_fires :: "timeval \<Rightarrow> timer \<Rightarrow> bool" where
  "OnTick_fires e tm \<longleftrightarrow> has_on_tick tm \<and> GetElapsedTime e tm \<ge> interval tm"

section \<open>Elapsed time\<close>

text \<open>A time of day before the year 280,000 or so, and its microseconds.\<close>

definition clock_ok :: "timeval \<Rightarrow> bool" where
  "clock_ok t \<longleftrightarrow> 0 \<le> tv_sec t \<and> tv_sec t < 2 ^ 43 \<and> 0 \<le> tv_usec t \<and> tv_usec t < 1000000"

definition micros :: "timeval \<Rightarrow> int" where
  "micros t = tv_sec t * 1000000 + tv_usec t"

lemma millis_micros: "clock_ok t \<Longrightarrow> tv_sec t * 1000 + tv_usec t sdiv 1000 = micros t div 1000"
  by (auto simp: clock_ok_def micros_def signed_divide_int_def sgn_if)

lemma uint_millis:
  assumes "clock_ok t"
  shows "uint (millis t) = micros t div 1000"
proof -
  have "0 \<le> micros t div 1000" "micros t div 1000 < 2 ^ 64"
    using assms by (auto simp: clock_ok_def micros_def)
  then show ?thesis using millis_micros [OF assms] by (simp add: millis_def uint_word_of_int take_bit_int_eq_self)
qed

lemma uint_elapsed:
  assumes "clock_ok e" "clock_ok (start_time tm)"
  shows "uint (GetElapsedTime e tm) = (micros e div 1000 - micros (start_time tm) div 1000) mod 2 ^ 64"
  using assms by (simp add: GetElapsedTime_def uint_millis uint_word_ariths)

lemma fires_iff: "OnTick_fires e tm \<longleftrightarrow> has_on_tick tm \<and> uint (interval tm) \<le> uint (GetElapsedTime e tm)"
  by (simp add: OnTick_fires_def word_le_def)

lemma clock_range: "clock_ok t \<Longrightarrow> 0 \<le> micros t \<and> micros t < 2 ^ 43 * 1000000 + 1000000"
  by (auto simp: clock_ok_def micros_def)

lemma millis_range: "clock_ok t \<Longrightarrow> 0 \<le> micros t div 1000 \<and> micros t div 1000 < 2 ^ 62"
  using clock_range [of t] by simp linarith

lemma elapsed_forward:
  assumes "clock_ok e" "clock_ok (start_time tm)" "micros (start_time tm) \<le> micros e"
  shows "uint (GetElapsedTime e tm) = micros e div 1000 - micros (start_time tm) div 1000"
proof -
  have "0 \<le> micros e div 1000 - micros (start_time tm) div 1000" using assms(3) by (simp add: zdiv_mono1)
  moreover have "micros e div 1000 - micros (start_time tm) div 1000 < 2 ^ 64"
    using millis_range [OF assms(1)] millis_range [OF assms(2)] by simp
  ultimately show ?thesis using uint_elapsed [OF assms(1,2)] by simp
qed

lemma elapsed_backward:
  assumes "clock_ok e" "clock_ok (start_time tm)" "micros e + 1000 \<le> micros (start_time tm)"
  shows "2 ^ 63 \<le> uint (GetElapsedTime e tm)"
proof -
  let ?d = "micros e div 1000 - micros (start_time tm) div 1000"
  have "?d < 0" "- (2 ^ 63) \<le> ?d"
    using assms(3) millis_range [OF assms(1)] millis_range [OF assms(2)] by simp_all
  then have "(?d + 2 ^ 64) mod 2 ^ 64 = ?d + 2 ^ 64" by (intro mod_pos_pos_trivial) simp_all
  then have "?d mod 2 ^ 64 = ?d + 2 ^ 64" by simp
  with \<open>- (2 ^ 63) \<le> ?d\<close> show ?thesis using uint_elapsed [OF assms(1,2)] by simp
qed

text \<open>
  The elapsed time is the time between the two readings of the clock in milliseconds, off
  by less than one, while the clock does not run backwards; when it was set back by a
  millisecond or more the elapsed time is enormous and every tick reaches the listener,
  whatever the interval (up to 2^63 milliseconds).
\<close>

theorem timer_elapsed:
  assumes "clock_ok e" "clock_ok (start_time tm)"
  shows "(micros (start_time tm) \<le> micros e \<longrightarrow>
       \<bar>uint (GetElapsedTime e tm) * 1000 - (micros e - micros (start_time tm))\<bar> < 1000
       \<and> (has_on_tick tm \<longrightarrow> micros (start_time tm) + (uint (interval tm) + 1) * 1000 \<le> micros e \<longrightarrow> OnTick_fires e tm)
       \<and> (OnTick_fires e tm \<longrightarrow> micros e > micros (start_time tm) + (uint (interval tm) - 1) * 1000))
    \<and> (micros e + 1000 \<le> micros (start_time tm) \<longrightarrow> has_on_tick tm \<longrightarrow> uint (interval tm) \<le> 2 ^ 63 \<longrightarrow> OnTick_fires e tm)"
  (is "(?fwd \<longrightarrow> ?A) \<and> ?B")
proof
  show "?fwd \<longrightarrow> ?A"
  proof
    assume ?fwd
    let ?a = "micros (start_time tm)" and ?b = "micros e" and ?i = "uint (interval tm)" and ?x = "uint (GetElapsedTime e tm)"
    have x: "?x = ?b div 1000 - ?a div 1000" using elapsed_forward [OF assms \<open>?fwd\<close>] .
    have "\<bar>?x * 1000 - (?b - ?a)\<bar> < 1000" using x by linarith
    then have lo: "?b - ?a - 1000 < ?x * 1000" and hi: "?x * 1000 < ?b - ?a + 1000" by linarith+
    have "?i \<le> ?x" if "?a + (?i + 1) * 1000 \<le> ?b" using that lo by (simp add: algebra_simps)
    moreover have "?b > ?a + (?i - 1) * 1000" if "?i \<le> ?x" using that hi by (simp add: algebra_simps)
    moreover note \<open>\<bar>?x * 1000 - (?b - ?a)\<bar> < 1000\<close>
    ultimately show ?A unfolding fires_iff by blast
  qed
  show ?B using elapsed_backward [OF assms] unfolding fires_iff by linarith
qed

theorem timer_elapsed_witness:
  "\<exists>tm e. uint (GetElapsedTime e tm) = 250 \<and> OnTick_fires e tm \<and> \<bar>uint (GetElapsedTime e tm) * 1000 - (micros e - micros (start_time tm))\<bar> < 1000"
proof -
  let ?tm = "\<lparr>interval = 100, start_time = \<lparr>tv_sec = 1700000000, tv_usec = 999900\<rparr>, has_on_tick = True, repeating = True\<rparr>"
  let ?e = "\<lparr>tv_sec = 1700000001, tv_usec = 249000\<rparr>"
  have c: "clock_ok ?e" "clock_ok (start_time ?tm)" by (simp_all add: clock_ok_def)
  have m: "micros (start_time ?tm) \<le> micros ?e" by (simp add: micros_def)
  have "uint (GetElapsedTime ?e ?tm) = 250" using elapsed_forward [OF c m] by (simp add: micros_def)
  with timer_elapsed [OF c] m show ?thesis by (auto simp: fires_iff intro!: exI [of _ ?tm] exI [of _ ?e])
qed

end
