(* ===== verification/TcpConnects.thy ===== *)
theory TcpConnects
  imports Timers
begin

text \<open>
  Connecting: the \<open>TcpClient\<close> methods that resolve a name, connect and start reading, the
  libuv callbacks that continue them, and the static \<open>TcpClient::Connect\<close>, which tries again
  every 500 ms until a timeout (\<open>src/tcp_client.cc\<close>), on top of \<open>Handle\<close>
  (\<open>src/handle.cc\<close>). Data transfer is the forwarder's theory.
\<close>

section \<open>State\<close>

text \<open>
  A client with what libuv holds for it: a name resolution and a connect request, both
  pointing at the object. \<open>try_subs\<close> says whether the three listeners of \<open>Connect\<close> are in
  its lists; they are added and removed together.
\<close>

record tclient =
  connecting :: bool
  name_resolving :: bool
  dns_pending :: bool
  connect_pending :: bool
  reading :: bool
  try_subs :: bool
  t_closing :: bool
  t_deleted :: bool

definition new_tclient :: tclient where
  "new_tclient = \<lparr>connecting = False, name_resolving = False, dns_pending = False, connect_pending = False,
     reading = False, try_subs = False, t_closing = False, t_deleted = False\<rparr>"

definition IsConnecting :: "tclient \<Rightarrow> bool" where
  "IsConnecting k \<longleftrightarrow> connecting k \<or> name_resolving k"

text \<open>
  One call of the static \<open>Connect\<close>: the clients it has created, the timer with its
  \<open>TryConnectData\<close>, and the calls of \<open>then\<close> it has made.
\<close>

record connector =
  clients :: "nat \<Rightarrow> tclient"
  next_client :: nat
  data_client :: "nat option"
  timer_closing :: bool
  timer_deleted :: bool
  thens :: "nat option list"

definition set_client :: "nat \<Rightarrow> (tclient \<Rightarrow> tclient) \<Rightarrow> connector \<Rightarrow> connector" where
  "set_client c f w = w\<lparr>clients := (clients w)(c := f (clients w c))\<rparr>"

section \<open>Closing and errors\<close>

definition tclient_Close :: "nat \<Rightarrow> connector \<Rightarrow> fault + connector" where
  "tclient_Close c w =
     (if t_deleted (clients w c) then Inl UseAfterFree else Inr (set_client c (\<lambda>k. k\<lparr>t_closing := True\<rparr>) w))"

text \<open>The error listener of an attempt, and \<open>Handle::OnError\<close>.\<close>

definition try_error :: "connector \<Rightarrow> fault + connector" where
  "try_error w =
     (if timer_deleted w then Inl UseAfterFree
      else case data_client w of None \<Rightarrow> Inl NullDeref | Some c \<Rightarrow> tclient_Close c w)"

definition tclient_OnError :: "nat \<Rightarrow> connector \<Rightarrow> fault + connector" where
  "tclient_OnError c w =
     (if t_deleted (clients w c) then Inl UseAfterFree
      else if try_subs (clients w c) then try_error w else Inr w)"

section \<open>Resolving and connecting\<close>

text \<open>\<open>dns\<close> is the result of \<open>uv_getaddrinfo\<close>, \<open>cs\<close> that of \<open>uv_tcp_connect\<close>, \<open>rs\<close> that of \<open>uv_read_start\<close>.\<close>

definition service_of :: "int \<Rightarrow> bytes" where
  "service_of port = take 31 (show_int port)"

definition GetAddrInfo :: "int \<Rightarrow> nat \<Rightarrow> connector \<Rightarrow> fault + connector" where
  "GetAddrInfo dns c w =
     (let w1 = set_client c (\<lambda>k. k\<lparr>name_resolving := True\<rparr>) w
      in if dns \<noteq> 0
         then bindE (tclient_OnError c w1) (\<lambda>w. Inr (set_client c (\<lambda>k. k\<lparr>name_resolving := False\<rparr>) w))
         else Inr (set_client c (\<lambda>k. k\<lparr>dns_pending := True\<rparr>) w1))"

definition ConnectAddr :: "int \<Rightarrow> nat \<Rightarrow> connector \<Rightarrow> fault + connector" where
  "ConnectAddr cs c w =
     (let w1 = set_client c (\<lambda>k. k\<lparr>connecting := True\<rparr>) w
      in if cs \<noteq> 0
         then bindE (tclient_OnError c w1) (\<lambda>w. Inr (set_client c (\<lambda>k. k\<lparr>connecting := False\<rparr>) w))
         else Inr (set_client c (\<lambda>k. k\<lparr>connect_pending := True\<rparr>) w1))"

definition OnAddrInfo :: "int \<Rightarrow> int \<Rightarrow> nat \<Rightarrow> connector \<Rightarrow> fault + connector" where
  "OnAddrInfo status cs c w =
     (if t_deleted (clients w c) then Inl UseAfterFree
      else let w1 = set_client c (\<lambda>k. k\<lparr>dns_pending := False, name_resolving := False\<rparr>) w
           in if status < 0 then tclient_OnError c w1 else ConnectAddr cs c w1)"

definition ReadStart :: "int \<Rightarrow> nat \<Rightarrow> connector \<Rightarrow> fault + connector" where
  "ReadStart rs c w = (if rs \<noteq> 0 then tclient_OnError c w else Inr (set_client c (\<lambda>k. k\<lparr>reading := True\<rparr>) w))"

text \<open>
  The connect listener of an attempt; \<open>quit\<close> says whether the caller's \<open>then\<close> closes the
  client it is given.
\<close>

definition try_connect :: "bool \<Rightarrow> connector \<Rightarrow> fault + connector" where
  "try_connect quit w =
     (if timer_deleted w then Inl UseAfterFree
      else let w1 = w\<lparr>timer_closing := True, thens := thens w @ [data_client w]\<rparr>
           in case data_client w of
                None \<Rightarrow> Inr w1
              | Some c \<Rightarrow> if quit then tclient_Close c w1 else Inr w1)"

definition OnConnect :: "int \<Rightarrow> int \<Rightarrow> bool \<Rightarrow> nat \<Rightarrow> connector \<Rightarrow> fault + connector" where
  "OnConnect status rs quit c w =
     (if t_deleted (clients w c) then Inl UseAfterFree
      else let w1 = set_client c (\<lambda>k. k\<lparr>connect_pending := False, connecting := False\<rparr>) w
           in if status \<noteq> 0 then tclient_OnError c w1
              else bindE (if try_subs (clients w1 c) then try_connect quit w1 else Inr w1) (ReadStart rs c))"

text \<open>\<open>Handle::OnClose\<close> of a client, with the close listener of an attempt.\<close>

definition tclient_OnClose :: "nat \<Rightarrow> connector \<Rightarrow> fault + connector" where
  "tclient_OnClose c w =
     bindE (if try_subs (clients w c)
            then if timer_deleted w then Inl UseAfterFree else Inr (w\<lparr>data_client := None\<rparr>)
            else Inr w)
       (\<lambda>w. Inr (set_client c (\<lambda>k. k\<lparr>t_deleted := True\<rparr>) w))"

text \<open>
  Writing several buffers at once, which a response does, and its callback, whose result says
  whether the send listeners are called. The other \<open>Write\<close> is the forwarder's.
\<close>

definition tclient_Write2 :: "int \<Rightarrow> nat \<Rightarrow> connector \<Rightarrow> fault + connector" where
  "tclient_Write2 ws c w =
     (if t_deleted (clients w c) then Inl UseAfterFree else if ws \<noteq> 0 then tclient_OnError c w else Inr w)"

definition OnWrite2 :: "int \<Rightarrow> nat \<Rightarrow> connector \<Rightarrow> fault + bool \<times> connector" where
  "OnWrite2 status c w =
     (if t_deleted (clients w c) then Inl UseAfterFree
      else if status \<noteq> 0 then bindE (tclient_OnError c w) (\<lambda>w. Inr (False, w))
      else Inr (True, w))"

section \<open>The attempts\<close>

text \<open>One attempt: the lambda \<open>connect\<close>, which stores the client after connecting it.\<close>

definition attempt :: "int \<Rightarrow> connector \<Rightarrow> fault + connector" where
  "attempt dns w =
     (let c = next_client w;
          w1 = set_client c (\<lambda>k. new_tclient\<lparr>try_subs := True\<rparr>) (w\<lparr>next_client := c + 1\<rparr>)
      in bindE (GetAddrInfo dns c w1) (\<lambda>w. Inr (w\<lparr>data_client := Some c\<rparr>)))"

definition try_tick :: "64 word \<Rightarrow> 64 word \<Rightarrow> int \<Rightarrow> connector \<Rightarrow> fault + connector" where
  "try_tick timeout elapsed dns w =
     (if elapsed \<ge> timeout
      then bindE (case data_client w of None \<Rightarrow> Inr w | Some c \<Rightarrow> tclient_Close c w)
             (\<lambda>w. Inr (w\<lparr>timer_closing := True, thens := thens w @ [None]\<rparr>))
      else if data_client w = None then attempt dns w
      else Inr w)"

text \<open>
  The timer's close: the freer deletes the \<open>TryConnectData\<close>, whose destructor takes the
  listeners off a client that is still there.
\<close>

definition try_timer_closed :: "connector \<Rightarrow> fault + connector" where
  "try_timer_closed w =
     bindE (case data_client w of
              None \<Rightarrow> Inr w
            | Some c \<Rightarrow> if t_deleted (clients w c) then Inl UseAfterFree
                        else Inr (set_client c (\<lambda>k. k\<lparr>try_subs := False\<rparr>) w))
       (\<lambda>w. Inr (w\<lparr>timer_deleted := True\<rparr>))"

definition try_start :: connector where
  "try_start = \<lparr>clients = (\<lambda>_. new_tclient), next_client = 0, data_client = None,
     timer_closing = False, timer_deleted = False, thens = []\<rparr>"

section \<open>Events\<close>

datatype tevent =
    TTick "64 word" int
  | TAddrInfo nat int int
  | TConnect nat int int bool
  | TError nat
  | TClose nat
  | TClosed nat
  | TTimerClosed

fun thandle :: "64 word \<Rightarrow> tevent \<Rightarrow> connector \<Rightarrow> fault + connector" where
  "thandle timeout (TTick el dns) w = try_tick timeout el dns w"
| "thandle timeout (TAddrInfo c st cs) w = OnAddrInfo st cs c w"
| "thandle timeout (TConnect c st rs quit) w = OnConnect st rs quit c w"
| "thandle timeout (TError c) w = tclient_OnError c w"
| "thandle timeout (TClose c) w = tclient_Close c w"
| "thandle timeout (TClosed c) w = tclient_OnClose c w"
| "thandle timeout TTimerClosed w = try_timer_closed w"

text \<open>
  What libuv and the caller do: a closed client is told of its connect request with an error
  first; the caller uses the client it was given while it exists; end of file and errors of
  an established connection close it or are told to its listeners.
\<close>

fun tallowed :: "connector \<Rightarrow> tevent \<Rightarrow> bool" where
  "tallowed w (TTick el dns) = (\<not> timer_closing w \<and> \<not> timer_deleted w)"
| "tallowed w (TAddrInfo c st cs) = (c < next_client w \<and> dns_pending (clients w c))"
| "tallowed w (TConnect c st rs quit) = (c < next_client w \<and> connect_pending (clients w c) \<and> \<not> t_deleted (clients w c)
     \<and> (t_closing (clients w c) \<longrightarrow> st \<noteq> 0))"
| "tallowed w (TError c) = (c < next_client w \<and> reading (clients w c) \<and> \<not> t_deleted (clients w c))"
| "tallowed w (TClose c) = (c < next_client w \<and> reading (clients w c) \<and> \<not> t_deleted (clients w c))"
| "tallowed w (TClosed c) = (c < next_client w \<and> t_closing (clients w c) \<and> \<not> t_deleted (clients w c) \<and> \<not> connect_pending (clients w c))"
| "tallowed w TTimerClosed = (timer_closing w \<and> \<not> timer_deleted w)"

text \<open>
  Two things libuv does not promise: that a name is resolved before the client that asked is
  closed, and that \<open>uv_getaddrinfo\<close> accepts the request.
\<close>

fun torderly :: "connector \<Rightarrow> tevent \<Rightarrow> bool" where
  "torderly w (TClosed c) = (\<not> dns_pending (clients w c))"
| "torderly w (TTick el dns) = (dns = 0)"
| "torderly w e = True"

definition tinit :: "connector \<Rightarrow> bool" where
  "tinit w \<longleftrightarrow> w = try_start"

definition tstep_any :: "64 word \<Rightarrow> connector \<Rightarrow> tevent \<Rightarrow> connector \<Rightarrow> bool" where
  "tstep_any timeout w e v \<longleftrightarrow> tallowed w e \<and> thandle timeout e w = Inr v"

definition tstep :: "64 word \<Rightarrow> connector \<Rightarrow> tevent \<Rightarrow> connector \<Rightarrow> bool" where
  "tstep timeout w e v \<longleftrightarrow> torderly w e \<and> tstep_any timeout w e v"

section \<open>The invariant\<close>

text \<open>
  Only the last client created may still exist. While the timer lives, \<open>data\<close> points at it
  and it holds the three listeners. \<open>thens\<close> tells the phase: still trying, connected, given
  up.
\<close>

definition dead :: "tclient \<Rightarrow> bool" where
  "dead k \<longleftrightarrow> t_deleted k \<and> \<not> dns_pending k \<and> \<not> connect_pending k \<and> \<not> reading k"

definition trying :: "nat \<Rightarrow> tclient \<Rightarrow> nat option \<Rightarrow> bool \<Rightarrow> bool \<Rightarrow> bool" where
  "trying n k d tc td \<longleftrightarrow> \<not> tc \<and> \<not> td
     \<and> (d = None \<and> (n = 0 \<or> dead k) \<or> n > 0 \<and> d = Some (n - 1) \<and> \<not> t_deleted k \<and> try_subs k \<and> \<not> reading k
        \<and> \<not> (dns_pending k \<and> connect_pending k))"

text \<open>How \<open>data\<close> and the listeners of the last client agree once the timer is closing.\<close>

definition agree :: "nat \<Rightarrow> tclient \<Rightarrow> nat option \<Rightarrow> bool \<Rightarrow> bool" where
  "agree n k d td \<longleftrightarrow> (if td then t_deleted k \<or> \<not> try_subs k
     else try_subs k \<and> d = (if t_deleted k then None else Some (n - 1)))"

definition connected :: "nat \<Rightarrow> tclient \<Rightarrow> nat option \<Rightarrow> bool \<Rightarrow> bool \<Rightarrow> bool" where
  "connected n k d tc td \<longleftrightarrow> tc \<and> n > 0 \<and> \<not> dns_pending k \<and> \<not> connect_pending k \<and> agree n k d td"

definition given_up :: "nat \<Rightarrow> tclient \<Rightarrow> nat option \<Rightarrow> bool \<Rightarrow> bool \<Rightarrow> bool" where
  "given_up n k d tc td \<longleftrightarrow> tc \<and> (n = 0 \<and> d = None \<or> n > 0 \<and> \<not> reading k
     \<and> (if t_deleted k then \<not> dns_pending k \<and> \<not> connect_pending k \<and> (td \<or> d = None)
        else t_closing k \<and> agree n k d td))"

definition tinv :: "connector \<Rightarrow> bool" where
  "tinv w \<longleftrightarrow> (\<forall>c. c + 1 < next_client w \<longrightarrow> dead (clients w c))
   \<and> (let n = next_client w; k = clients w (n - 1); d = data_client w; tc = timer_closing w; td = timer_deleted w
      in thens w = [] \<and> trying n k d tc td \<or> thens w = [Some (n - 1)] \<and> connected n k d tc td
         \<or> thens w = [None] \<and> given_up n k d tc td)"

lemma tinv_init: "tinit w \<Longrightarrow> tinv w"
  by (simp add: tinit_def tinv_def try_start_def trying_def)

lemma set_client_sel [simp]:
  "clients (set_client c f w) = (clients w)(c := f (clients w c))" "next_client (set_client c f w) = next_client w"
  "data_client (set_client c f w) = data_client w" "timer_closing (set_client c f w) = timer_closing w"
  "timer_deleted (set_client c f w) = timer_deleted w" "thens (set_client c f w) = thens w"
  by (simp_all add: set_client_def)

lemma dead_simps: "dead k \<Longrightarrow> t_deleted k" "dead k \<Longrightarrow> \<not> dns_pending k" "dead k \<Longrightarrow> \<not> connect_pending k" "dead k \<Longrightarrow> \<not> reading k"
  by (simp_all add: dead_def)

text \<open>Whatever happens, happens to the last client.\<close>

lemma tinv_last:
  assumes "tinv w" "c < next_client w"
    "dns_pending (clients w c) \<or> connect_pending (clients w c) \<or> reading (clients w c) \<or> \<not> t_deleted (clients w c)"
  shows "next_client w = c + 1"
proof (rule ccontr)
  assume "next_client w \<noteq> c + 1"
  with assms(2) have "c + 1 < next_client w" by simp
  with assms(1) have "dead (clients w c)" by (simp add: tinv_def)
  with assms(3) show False by (simp add: dead_def)
qed

lemma tinv_cases:
  assumes "tinv w" "next_client w = c + 1"
  obtains "thens w = []" "trying (c + 1) (clients w c) (data_client w) (timer_closing w) (timer_deleted w)" "\<And>b. b < c \<Longrightarrow> dead (clients w b)"
    | "thens w = [Some c]" "connected (c + 1) (clients w c) (data_client w) (timer_closing w) (timer_deleted w)" "\<And>b. b < c \<Longrightarrow> dead (clients w b)"
    | "thens w = [None]" "given_up (c + 1) (clients w c) (data_client w) (timer_closing w) (timer_deleted w)" "\<And>b. b < c \<Longrightarrow> dead (clients w b)"
  using assms by (auto simp: tinv_def Let_def)

lemma tinv_intro:
  assumes "next_client w = c + 1" "\<And>b. b < c \<Longrightarrow> dead (clients w b)"
    "thens w = [] \<and> trying (c + 1) (clients w c) (data_client w) (timer_closing w) (timer_deleted w)
     \<or> thens w = [Some c] \<and> connected (c + 1) (clients w c) (data_client w) (timer_closing w) (timer_deleted w)
     \<or> thens w = [None] \<and> given_up (c + 1) (clients w c) (data_client w) (timer_closing w) (timer_deleted w)"
  shows "tinv w"
  using assms by (simp add: tinv_def Let_def)

lemmas phase_defs = trying_def connected_def given_up_def agree_def dead_def

lemmas connect_defs = tclient_Close_def try_error_def tclient_OnError_def GetAddrInfo_def ConnectAddr_def OnAddrInfo_def
  ReadStart_def try_connect_def OnConnect_def tclient_OnClose_def attempt_def try_tick_def try_timer_closed_def Let_def

lemma tinv_AddrInfo:
  assumes "tinv w" "tallowed w (TAddrInfo c st cs)"
  shows "\<exists>v. OnAddrInfo st cs c w = Inr v \<and> tinv v"
proof -
  from assms have n: "next_client w = c + 1" using tinv_last [of w c] by simp
  have p: "dns_pending (clients w c)" using assms(2) by simp
  from assms(1) n show ?thesis
  proof (cases rule: tinv_cases)
    case 1
    then show ?thesis using p n
      by (cases "st < 0"; cases "cs = 0") (simp_all add: connect_defs trying_def dead_def, (intro tinv_intro [of _ c]; simp add: phase_defs)+)
  next
    case 2
    with p show ?thesis by (simp add: connected_def)
  next
    case 3
    have "\<not> t_deleted (clients w c)" "t_closing (clients w c)" using 3(2) p by (auto simp: given_up_def split: if_splits)
    then show ?thesis using p n 3
      by (cases "st < 0"; cases "cs = 0"; cases "timer_deleted w")
        (simp_all add: connect_defs given_up_def agree_def, (intro tinv_intro [of _ c]; simp add: phase_defs)+)
  qed
qed

lemma tinv_Connect:
  assumes "tinv w" "tallowed w (TConnect c st rs quit)"
  shows "\<exists>v. OnConnect st rs quit c w = Inr v \<and> tinv v"
proof -
  from assms have n: "next_client w = c + 1" using tinv_last [of w c] by simp
  have p: "connect_pending (clients w c)" "\<not> t_deleted (clients w c)" "t_closing (clients w c) \<Longrightarrow> st \<noteq> 0" using assms(2) by simp_all
  from assms(1) n show ?thesis
  proof (cases rule: tinv_cases)
    case 1
    then show ?thesis using p n
      by (cases "st = 0"; cases "rs = 0"; cases quit) (simp_all add: connect_defs trying_def dead_def, (intro tinv_intro [of _ c]; simp add: phase_defs)+)
  next
    case 2
    with p show ?thesis by (simp add: connected_def)
  next
    case 3
    have "t_closing (clients w c)" using 3(2) p by (auto simp: given_up_def split: if_splits)
    then show ?thesis using p n 3
      by (cases "timer_deleted w")
        (simp_all add: connect_defs given_up_def agree_def, (intro tinv_intro [of _ c]; simp add: phase_defs)+)
  qed
qed

lemma tinv_Error:
  assumes "tinv w" "tallowed w (TError c)"
  shows "\<exists>v. tclient_OnError c w = Inr v \<and> tinv v"
proof -
  from assms have n: "next_client w = c + 1" using tinv_last [of w c] by simp
  show ?thesis using assms unfolding tinv_def Let_def n by (auto simp: phase_defs connect_defs n)
qed

lemma tinv_Close:
  assumes "tinv w" "tallowed w (TClose c)"
  shows "\<exists>v. tclient_Close c w = Inr v \<and> tinv v"
proof -
  from assms have n: "next_client w = c + 1" using tinv_last [of w c] by simp
  show ?thesis using assms unfolding tinv_def Let_def n by (auto simp: phase_defs connect_defs n)
qed

lemma tinv_Closed:
  assumes "tinv w" "tallowed w (TClosed c)" "torderly w (TClosed c)"
  shows "\<exists>v. tclient_OnClose c w = Inr v \<and> tinv v"
proof -
  from assms have n: "next_client w = c + 1" using tinv_last [of w c] by simp
  show ?thesis using assms unfolding tinv_def Let_def n by (auto simp: phase_defs connect_defs n)
qed

lemma tinv_Tick:
  assumes "tinv w" "tallowed w (TTick el dns)" "torderly w (TTick el dns)"
  shows "\<exists>v. try_tick timeout el dns w = Inr v \<and> tinv v"
proof (cases "data_client w")
  case None
  with assms(1,2) have old: "dead (clients w b)" if "b < next_client w" for b
    using that unfolding tinv_def Let_def by (cases "b + 1 < next_client w"; cases "b = next_client w - 1")
      (auto simp: trying_def connected_def given_up_def)
  have phase: "thens w = []" "\<not> timer_closing w" "\<not> timer_deleted w"
    using assms(1,2) by (auto simp: tinv_def Let_def connected_def given_up_def)
  show ?thesis
  proof (cases "el \<ge> timeout")
    case True
    with None phase old show ?thesis
      by (cases "next_client w") (simp_all add: connect_defs tinv_def given_up_def agree_def dead_def)
  next
    case False
    let ?c = "next_client w"
    have "\<exists>v. try_tick timeout el dns w = Inr v
      \<and> clients v = (clients w)(?c := new_tclient\<lparr>try_subs := True, name_resolving := True, dns_pending := True\<rparr>)
      \<and> next_client v = ?c + 1 \<and> data_client v = Some ?c \<and> thens v = [] \<and> \<not> timer_closing v \<and> \<not> timer_deleted v"
      using False None phase assms(3) by (simp add: connect_defs)
    then obtain v where v: "try_tick timeout el dns w = Inr v"
      "clients v = (clients w)(?c := new_tclient\<lparr>try_subs := True, name_resolving := True, dns_pending := True\<rparr>)"
      "next_client v = ?c + 1" "data_client v = Some ?c" "thens v = []" "\<not> timer_closing v" "\<not> timer_deleted v"
      by blast
    have "tinv v"
      by (rule tinv_intro [OF v(3)]) (use v old in \<open>simp_all add: trying_def new_tclient_def\<close>)
    with v(1) show ?thesis by blast
  qed
next
  case (Some d)
  with assms(1,2) have n: "next_client w = d + 1" by (auto simp: tinv_def Let_def trying_def connected_def given_up_def)
  from assms(1) n show ?thesis
  proof (cases rule: tinv_cases)
    case 1
    then show ?thesis using n Some
      by (cases "el \<ge> timeout") (simp_all add: connect_defs trying_def, (intro tinv_intro [of _ d]; simp add: phase_defs)+)
  qed (use assms(2) in \<open>simp_all add: connected_def given_up_def\<close>)
qed

lemma tinv_TimerClosed:
  assumes "tinv w" "tallowed w TTimerClosed"
  shows "\<exists>v. try_timer_closed w = Inr v \<and> tinv v"
proof (cases "next_client w")
  case 0
  with assms show ?thesis by (auto simp: tinv_def Let_def connect_defs trying_def connected_def given_up_def)
next
  case (Suc c)
  then have n: "next_client w = c + 1" by simp
  from assms(1) n show ?thesis
  proof (cases rule: tinv_cases)
    case 1
    with assms(2) show ?thesis by (simp add: trying_def)
  next
    case 2
    then show ?thesis using n assms(2)
      by (cases "t_deleted (clients w c)") (simp_all add: connect_defs connected_def agree_def, (intro tinv_intro [of _ c]; simp add: phase_defs)+)
  next
    case 3
    then show ?thesis using n assms(2)
      by (cases "t_deleted (clients w c)") (simp_all add: connect_defs given_up_def agree_def, (intro tinv_intro [of _ c]; simp add: phase_defs)+)
  qed
qed

lemma tinv_handle:
  assumes "tinv w" "tallowed w e" "torderly w e"
  shows "\<exists>v. thandle timeout e w = Inr v \<and> tinv v"
  using assms tinv_Tick tinv_AddrInfo tinv_Connect tinv_Error tinv_Close tinv_Closed tinv_TimerClosed
  by (cases e) simp_all

interpretation connectors: invariant_system tinit "tstep timeout" tinv for timeout
proof unfold_locales
  show "tinv w" if "tinit w" for w using that by (rule tinv_init)
  show "tinv v" if "tinv w" "tstep timeout w e v" for w e v
    using tinv_handle [OF that(1), of e timeout] that(2) by (auto simp: tstep_def tstep_any_def)
qed

text \<open>
  C7: as long as \<open>uv_getaddrinfo\<close> accepts every request and no client is closed while its name is
  being resolved, every event of a connection attempt is handled without a fault; the caller's
  \<open>then\<close> is called at most once, exactly when the retries end; at most one client exists at a
  time; after \<open>then\<close> was told of failure no client is left open, and a client handed over is the
  last one created, with nothing pending. \<open>connect_faults\<close> has what happens otherwise.
\<close>

theorem connect_once:
  assumes "reach tinit (tstep timeout) w"
  shows "(\<forall>e. tallowed w e \<longrightarrow> torderly w e \<longrightarrow> (\<exists>v. thandle timeout e w = Inr v))
    \<and> length (thens w) \<le> 1 \<and> (timer_closing w \<longleftrightarrow> thens w \<noteq> [])
    \<and> (\<forall>c < next_client w. \<not> t_deleted (clients w c) \<longrightarrow> c + 1 = next_client w)
    \<and> (thens w = [None] \<longrightarrow> (\<forall>c < next_client w. t_closing (clients w c) \<or> t_deleted (clients w c)))
    \<and> (\<forall>c. thens w = [Some c] \<longrightarrow> c + 1 = next_client w \<and> \<not> dns_pending (clients w c) \<and> \<not> connect_pending (clients w c))"
proof -
  from connectors.reach_inv [OF assms] have inv: "tinv w" .
  then have old: "\<And>b. b + 1 < next_client w \<Longrightarrow> t_deleted (clients w b)" by (simp add: tinv_def dead_def)
  show ?thesis
  proof (intro conjI allI impI)
    show "\<exists>v. thandle timeout e w = Inr v" if "tallowed w e" "torderly w e" for e
      using tinv_handle [OF inv that] by blast
    show "length (thens w) \<le> 1" using inv by (auto simp: tinv_def Let_def)
    show "timer_closing w \<longleftrightarrow> thens w \<noteq> []" using inv by (auto simp: tinv_def Let_def phase_defs)
    show "c + 1 = next_client w" if "c < next_client w" "\<not> t_deleted (clients w c)" for c
      using that old [of c] by fastforce
    show "t_closing (clients w c) \<or> t_deleted (clients w c)" if "thens w = [None]" "c < next_client w" for c
      using inv that old [of c] by (cases "c + 1 < next_client w"; cases "c = next_client w - 1") (auto simp: tinv_def Let_def given_up_def)
    show "c + 1 = next_client w" "\<not> dns_pending (clients w c)" "\<not> connect_pending (clients w c)" if "thens w = [Some c]" for c
      using inv that by (auto simp: tinv_def Let_def connected_def)
  qed
qed

text \<open>Executing runs.\<close>

definition t_exec :: "64 word \<Rightarrow> tevent list \<Rightarrow> connector option" where
  "t_exec timeout es = exec_run tallowed (thandle timeout) es try_start"

lemma t_exec_run: "t_exec timeout es = Some w \<Longrightarrow> run (tstep_any timeout) try_start es w"
  using exec_run_run [of tallowed "thandle timeout" es try_start w "tstep_any timeout"] by (simp add: t_exec_def tstep_any_def)

lemma t_exec_orderly:
  "exec_run (\<lambda>w e. tallowed w e \<and> torderly w e) (thandle timeout) es try_start = Some w \<Longrightarrow> reach tinit (tstep timeout) w"
  using exec_run_run [of "\<lambda>w e. tallowed w e \<and> torderly w e" "thandle timeout" es try_start w "tstep timeout"]
    run_reach [of "tstep timeout" try_start es w tinit]
  by (simp add: tstep_def tstep_any_def tinit_def reach_init)

theorem connect_once_witness:
  "\<exists>w. reach tinit (tstep 2000) w \<and> thens w = [Some 1] \<and> next_client w = 2 \<and> (timer_closing w \<longleftrightarrow> thens w \<noteq> [])"
proof -
  have "\<exists>w. exec_run (\<lambda>w e. tallowed w e \<and> torderly w e) (thandle 2000)
     [TTick 500 0, TAddrInfo 0 0 0, TConnect 0 (- 111) 0 False, TClosed 0, TTick 1000 0, TAddrInfo 1 0 0, TConnect 1 0 0 False] try_start = Some w
     \<and> thens w = [Some 1] \<and> next_client w = 2"
    by (simp add: try_start_def connect_defs set_client_def new_tclient_def)
  then obtain w where w: "reach tinit (tstep 2000) w" "thens w = [Some 1]" "next_client w = 2"
    using t_exec_orderly by blast
  with connect_once [OF w(1)] show ?thesis by blast
qed

text \<open>
  The two assumptions of the previous property are needed: when an attempt times out while
  its name is being resolved, the client is closed and deleted and the resolver's callback then
  uses it; and when \<open>uv_getaddrinfo\<close> refuses a request, the error listener dereferences the
  client pointer before \<open>Connect\<close> has stored it, in whatever state a new attempt is made.
\<close>

theorem connect_faults:
  "(\<exists>w. run (tstep_any 2000) try_start [TTick 500 0, TTick 2000 0, TClosed 0] w \<and> thens w = [None]
       \<and> tallowed w (TAddrInfo 0 0 0) \<and> thandle 2000 (TAddrInfo 0 0 0) w = Inl UseAfterFree)
   \<and> (\<forall>timeout el dns w. tallowed w (TTick el dns) \<longrightarrow> data_client w = None \<longrightarrow> el < timeout \<longrightarrow> dns \<noteq> 0
       \<longrightarrow> thandle timeout (TTick el dns) w = Inl NullDeref)"
proof
  have "\<exists>w. t_exec 2000 [TTick 500 0, TTick 2000 0, TClosed 0] = Some w \<and> thens w = [None]
       \<and> tallowed w (TAddrInfo 0 0 0) \<and> thandle 2000 (TAddrInfo 0 0 0) w = Inl UseAfterFree"
    by (simp add: t_exec_def try_start_def connect_defs set_client_def new_tclient_def)
  then show "\<exists>w. run (tstep_any 2000) try_start [TTick 500 0, TTick 2000 0, TClosed 0] w \<and> thens w = [None]
       \<and> tallowed w (TAddrInfo 0 0 0) \<and> thandle 2000 (TAddrInfo 0 0 0) w = Inl UseAfterFree"
    using t_exec_run by blast
  show "\<forall>timeout el dns w. tallowed w (TTick el dns) \<longrightarrow> data_client w = None \<longrightarrow> el < timeout \<longrightarrow> dns \<noteq> 0
       \<longrightarrow> thandle timeout (TTick el dns) w = Inl NullDeref"
    by (auto simp: connect_defs new_tclient_def not_le)
qed

theorem connect_faults_witness:
  "tallowed try_start (TTick 500 (- 22)) \<and> thandle 2000 (TTick 500 (- 22)) try_start = Inl NullDeref"
  using connect_faults by (simp add: try_start_def)

end
