(* ===== verification/Systems.thy ===== *)
theory Systems
  imports TcpProxies ProcessManagerClaims TcpConnects "HOL-Library.Countable"
begin

text \<open>
  The proxies, the process manager they share and the connectors they start, put together as
  the sources do: a connection that is accepted asks the manager for its upstream's app
  (\<open>CheckUpstreamProcess\<close> in \<open>src/tcp_proxy.cc\<close>, \<open>Require\<close> in \<open>src/process_manager.cc\<close>); the
  manager's answer, whenever it comes, runs the proxy's continuation, which dials the upstream
  (\<open>TcpClient::Connect\<close> in \<open>src/tcp_client.cc\<close>), whose result runs the second continuation.
  What the theories of the single components assume of each other (a closure is called once,
  and not before its time) is proved here of the composition.
\<close>

section \<open>State\<close>

text \<open>
  Proxies by their place in the configuration; \<open>sy_dials p c\<close> is the call of \<open>Connect\<close> made for
  connection \<open>c\<close> of proxy \<open>p\<close>. The manager knows the callback of a connection by a number.
\<close>

record system =
  sy_proxies :: "nat \<Rightarrow> proxy"
  sy_pm :: pm
  sy_dials :: "nat \<Rightarrow> nat \<Rightarrow> connector option"

definition new_system :: system where
  "new_system = \<lparr>sy_proxies = (\<lambda>_. new_proxy_object), sy_pm = new_pm, sy_dials = (\<lambda>_ _. None)\<rparr>"

definition conn_id :: "nat \<Rightarrow> nat \<Rightarrow> nat" where
  "conn_id p c = prod_encode (p, c)"

definition set_proxy :: "nat \<Rightarrow> proxy \<Rightarrow> system \<Rightarrow> system" where
  "set_proxy p W S = S\<lparr>sy_proxies := (sy_proxies S)(p := W)\<rparr>"

definition set_dial :: "nat \<Rightarrow> nat \<Rightarrow> connector \<Rightarrow> system \<Rightarrow> system" where
  "set_dial p c k S = S\<lparr>sy_dials := (sy_dials S)(p := (sy_dials S p)(c := Some k))\<rparr>"

text \<open>The timeout as \<open>Connect\<close> takes it, an \<open>int\<close> made a \<open>uint64_t\<close>.\<close>

definition dial_timeout :: "Upstream \<Rightarrow> 64 word" where
  "dial_timeout up = word_of_int (up_connect_timeout up)"

section \<open>Steps\<close>

text \<open>
  The continuations. A callback of the manager looks at nothing of the manager, so those a
  method calls can be run after it, in their order.
\<close>

fun answer :: "pm_log \<Rightarrow> system \<Rightarrow> fault + system" where
  "answer (Called i a pid err) S =
     (case prod_decode i of (p, c) \<Rightarrow> bindE (proxy_checked c err (sy_proxies S p)) (\<lambda>W.
        Inr (if err = 0 then set_dial p c try_start (set_proxy p W S) else set_proxy p W S)))"
| "answer l S = Inr S"

fun answers :: "pm_log list \<Rightarrow> system \<Rightarrow> fault + system" where
  "answers [] S = Inr S"
| "answers (l # ls) S = bindE (answer l S) (answers ls)"

fun hand_over :: "nat \<Rightarrow> nat \<Rightarrow> nat option list \<Rightarrow> system \<Rightarrow> fault + system" where
  "hand_over p c [] S = Inr S"
| "hand_over p c (x # xs) S = bindE (proxy_connected c (x \<noteq> None) (sy_proxies S p)) (\<lambda>W. hand_over p c xs (set_proxy p W S))"

text \<open>
  Events: a connection arrives, its forwarder being put at \<open>f\<close>; something happens to the
  manager's processes and timers; something happens to a dialled connection; a connection of
  a proxy closes. When the dialled connection is up, the continuation closes it at once if
  the forwarder is no longer there.
\<close>

datatype sys_event =
    SAccept nat nat
  | SManager pm_event
  | SDial nat nat tevent
  | SClosing nat proxy_event

fun closing_event :: "proxy_event \<Rightarrow> bool" where
  "closing_event (PIncomingClose c) = True"
| "closing_event (PIncomingClosed c) = True"
| "closing_event (POutgoingClosed f) = True"
| "closing_event e = False"

fun quits :: "proxy \<Rightarrow> nat \<Rightarrow> tevent \<Rightarrow> bool" where
  "quits W c (TConnect d st rs quit) = (quit \<longleftrightarrow> \<not> Has (fwd_at (pconns W c)) W)"
| "quits W c e = True"

fun requires :: "pm_event \<Rightarrow> bool" where
  "requires (EvRequire a i) = True"
| "requires e = False"

inductive sys_step :: "(nat \<Rightarrow> Upstream) \<Rightarrow> pm_env \<Rightarrow> system \<Rightarrow> sys_event \<Rightarrow> system \<Rightarrow> bool" for ups E where
  accept_free: "proxy_step (ups p) (sy_proxies S p) (PAccept f None) W \<Longrightarrow> up_app (ups p) = None \<Longrightarrow>
     sys_step ups E S (SAccept p f) (set_dial p (next_conn (sy_proxies S p)) try_start (set_proxy p W S))"
| accept_app: "proxy_step (ups p) (sy_proxies S p) (PAccept f None) W \<Longrightarrow> up_app (ups p) = Some b \<Longrightarrow>
     pm_step E (sy_pm S) (EvRequire b (conn_id p (next_conn (sy_proxies S p)))) m \<Longrightarrow> out m = out (sy_pm S) @ ls \<Longrightarrow>
     answers ls ((set_proxy p W S)\<lparr>sy_pm := m\<rparr>) = Inr S' \<Longrightarrow> sys_step ups E S (SAccept p f) S'"
| manager: "\<not> requires e \<Longrightarrow> pm_step E (sy_pm S) e m \<Longrightarrow> out m = out (sy_pm S) @ ls \<Longrightarrow>
     answers ls (S\<lparr>sy_pm := m\<rparr>) = Inr S' \<Longrightarrow> sys_step ups E S (SManager e) S'"
| dialling: "sy_dials S p c = Some k \<Longrightarrow> quits (sy_proxies S p) c e \<Longrightarrow> tstep (dial_timeout (ups p)) k e k' \<Longrightarrow>
     thens k' = thens k @ xs \<Longrightarrow> hand_over p c xs (set_dial p c k' S) = Inr S' \<Longrightarrow> sys_step ups E S (SDial p c e) S'"
| closing: "closing_event e \<Longrightarrow> proxy_step (ups p) (sy_proxies S p) e W \<Longrightarrow>
     sys_step ups E S (SClosing p e) (set_proxy p W S)"

inductive_cases sys_acceptE: "sys_step ups E S (SAccept p f) S'"
inductive_cases sys_managerE: "sys_step ups E S (SManager e) S'"
inductive_cases sys_dialE: "sys_step ups E S (SDial p c e) S'"
inductive_cases sys_closingE: "sys_step ups E S (SClosing p e) S'"

definition sys_init :: "system \<Rightarrow> bool" where
  "sys_init S \<longleftrightarrow> S = new_system"

section \<open>What a proxy's operations do to its connections\<close>

definition conn_stage :: "proxy \<Rightarrow> nat \<Rightarrow> stage option" where
  "conn_stage W c = (if c < next_conn W then Some (pc_stage (pconns W c)) else None)"

definition ended :: "proxy \<Rightarrow> nat set" where
  "ended W = snd ` set (handed W) \<union> set (dropped W)"

lemma conn_stage_less: "conn_stage W c = Some st \<Longrightarrow> c < next_conn W"
  by (simp add: conn_stage_def split: if_splits)

lemma checked_effect:
  assumes "proxy_checked c err W = Inr V" "conn_stage W c \<noteq> None"
  shows "conn_stage V = (conn_stage W)(c \<mapsto> (if err = 0 then Dialing else Settled)) \<and> ended V = ended W \<and> next_conn V = next_conn W"
  using assms
  by (auto simp: proxy_checked_def incoming_Close_def Let_def conn_stage_def ended_def fun_eq_iff split: if_splits)

lemma connected_effect:
  assumes "proxy_connected c up W = Inr V" "conn_stage W c \<noteq> None"
  shows "conn_stage V = (conn_stage W)(c \<mapsto> Settled) \<and> ended V \<subseteq> insert c (ended W) \<and> next_conn V = next_conn W"
  using assms
  by (auto simp: proxy_connected_def incoming_Close_def Let_def conn_stage_def ended_def fun_eq_iff split: if_splits option.splits)

lemma accept_effect:
  assumes "proxy_OnConnection up f None W = Inr V"
  shows "conn_stage V = (conn_stage W)(next_conn W \<mapsto> (if up_app up = None then Dialing else Checking)) \<and> ended V = ended W
    \<and> next_conn V = next_conn W + 1"
  using assms
  by (auto simp: proxy_OnConnection_def CheckUpstreamProcess_def proxy_checked_def Let_def conn_stage_def ended_def fun_eq_iff
      less_Suc_eq split: if_splits)

lemma gone_effect: "forwarder_gone f W = Inr V \<Longrightarrow> pconns V = pconns W \<and> next_conn V = next_conn W \<and> handed V = handed W \<and> dropped V = dropped W"
  by (auto simp: forwarder_gone_def proxy_Remove_def bindE_Inr_iff split: if_splits)

lemma closing_effect:
  assumes "closing_event e" "proxy_handle up e W = Inr V"
  shows "conn_stage V = conn_stage W \<and> ended V = ended W \<and> next_conn V = next_conn W"
proof (cases e)
  case (PIncomingClosed c)
  with assms(2) show ?thesis
    by (auto simp: incoming_closed_def Let_def conn_stage_def ended_def fun_eq_iff bindE_Inr_iff
        dest!: gone_effect split: if_splits option.splits)
next
  case (POutgoingClosed f)
  with assms(2) show ?thesis
    by (auto simp: outgoing_closed_def incoming_Close_def conn_stage_def ended_def fun_eq_iff
        dest!: gone_effect split: if_splits option.splits)
qed (use assms in \<open>auto simp: incoming_Close_def conn_stage_def ended_def fun_eq_iff split: if_splits\<close>)

section \<open>The invariant\<close>

text \<open>
  A connection of a proxy: its state and its call of \<open>Connect\<close> are reachable in the component's
  own system; it is dialled only when its upstream has no app or the manager has told success
  for it; it waits for the dialling exactly while the connector has not answered.
\<close>

definition cleared :: "(nat \<Rightarrow> Upstream) \<Rightarrow> pm \<Rightarrow> nat \<Rightarrow> nat \<Rightarrow> bool" where
  "cleared ups m p c \<longleftrightarrow> (\<forall>a. up_app (ups p) = Some a \<longrightarrow> (\<exists>pid. Called (conn_id p c) a pid 0 \<in> set (out m)))"

definition dial_ok :: "(nat \<Rightarrow> Upstream) \<Rightarrow> system \<Rightarrow> nat \<Rightarrow> nat \<Rightarrow> bool" where
  "dial_ok ups S p c \<longleftrightarrow>
     (conn_stage (sy_proxies S p) c = Some Checking \<longrightarrow> up_app (ups p) \<noteq> None)
   \<and> (\<forall>k. sy_dials S p c = Some k \<longrightarrow> reach tinit (tstep (dial_timeout (ups p))) k
        \<and> conn_stage (sy_proxies S p) c \<noteq> None \<and> cleared ups (sy_pm S) p c)
   \<and> (conn_stage (sy_proxies S p) c = Some Dialing \<longleftrightarrow> (\<exists>k. sy_dials S p c = Some k \<and> thens k = []))
   \<and> (c \<in> ended (sy_proxies S p) \<longrightarrow> sy_dials S p c \<noteq> None)"

text \<open>The connections that wait for an app, and the manager's list of them, less the answers under way.\<close>

definition waits :: "(nat \<Rightarrow> Upstream) \<Rightarrow> system \<Rightarrow> nat \<Rightarrow> nat set" where
  "waits ups S b = {conn_id p c |p c. up_app (ups p) = Some b \<and> conn_stage (sy_proxies S p) c = Some Checking}"

definition queue_ok :: "(nat \<Rightarrow> Upstream) \<Rightarrow> pm_log list \<Rightarrow> system \<Rightarrow> nat \<Rightarrow> bool" where
  "queue_ok ups ls S b \<longleftrightarrow> distinct (answered b ls @ waiting b (sy_pm S)) \<and> set (answered b ls @ waiting b (sy_pm S)) = waits ups S b"

abbreviation pm_reach :: "pm_env \<Rightarrow> pm \<Rightarrow> bool" where
  "pm_reach E \<equiv> reach pm_init (\<lambda>s e t. spawn_errors E \<and> pm_step E s e t)"

definition sys_inv :: "(nat \<Rightarrow> Upstream) \<Rightarrow> pm_env \<Rightarrow> pm_log list \<Rightarrow> system \<Rightarrow> bool" where
  "sys_inv ups E ls S \<longleftrightarrow> (\<forall>p. reach proxy_init (proxy_step (ups p)) (sy_proxies S p))
   \<and> pm_reach E (sy_pm S) \<and> set ls \<subseteq> set (out (sy_pm S)) \<and> (\<forall>p c. dial_ok ups S p c) \<and> (\<forall>b. queue_ok ups ls S b)"

lemma sys_invD:
  assumes "sys_inv ups E ls S"
  shows "reach proxy_init (proxy_step (ups p)) (sy_proxies S p)" "pm_reach E (sy_pm S)"
    "set ls \<subseteq> set (out (sy_pm S))" "dial_ok ups S p c" "queue_ok ups ls S b"
  using assms by (simp_all add: sys_inv_def)

lemma sys_invI:
  assumes "\<And>p. reach proxy_init (proxy_step (ups p)) (sy_proxies S p)" "pm_reach E (sy_pm S)"
    "set ls \<subseteq> set (out (sy_pm S))" "\<And>p c. dial_ok ups S p c" "\<And>b. queue_ok ups ls S b"
  shows "sys_inv ups E ls S"
  using assms unfolding sys_inv_def by blast

lemma conn_id_eq [simp]: "conn_id p c = conn_id q d \<longleftrightarrow> p = q \<and> c = d"
  by (simp add: conn_id_def)

lemma prod_decode_conn_id [simp]: "prod_decode (conn_id p c) = (p, c)"
  by (simp add: conn_id_def)

lemma system_sel [simp]:
  "sy_proxies (set_proxy p W S) = (sy_proxies S)(p := W)" "sy_pm (set_proxy p W S) = sy_pm S" "sy_dials (set_proxy p W S) = sy_dials S"
  "sy_proxies (set_dial p c k S) = sy_proxies S" "sy_pm (set_dial p c k S) = sy_pm S"
  "sy_dials (set_dial p c k S) = (sy_dials S)(p := (sy_dials S p)(c \<mapsto> k))"
  by (simp_all add: set_proxy_def set_dial_def)

lemma cleared_mono: "cleared ups m p c \<Longrightarrow> set (out m) \<subseteq> set (out m') \<Longrightarrow> cleared ups m' p c"
  unfolding cleared_def by blast

lemma dial_frame:
  assumes "dial_ok ups S q d" "conn_stage (sy_proxies T q) d = conn_stage (sy_proxies S q) d"
    "d \<in> ended (sy_proxies T q) \<Longrightarrow> d \<in> ended (sy_proxies S q)" "sy_dials T q d = sy_dials S q d"
    "set (out (sy_pm S)) \<subseteq> set (out (sy_pm T))"
  shows "dial_ok ups T q d"
proof -
  have "cleared ups (sy_pm S) q d \<Longrightarrow> cleared ups (sy_pm T) q d" using cleared_mono assms(5) by blast
  with assms(1,3) show ?thesis unfolding dial_ok_def assms(2,4) by blast
qed

lemma proxy_reach: "reach proxy_init (proxy_step up) W \<Longrightarrow> proxy_allowed W e \<Longrightarrow> proxy_orderly W e \<Longrightarrow>
    \<exists>V. proxy_handle up e W = Inr V \<and> reach proxy_init (proxy_step up) V"
  using proxy_inv_handle [OF proxies.reach_inv, of up W e up] reach_step [of proxy_init "proxy_step up" W e]
  by (auto simp: proxy_step_def proxy_step_any_def)

text \<open>How a change of one connection's stage changes the set of those that wait.\<close>

lemma waits_stage:
  assumes "\<And>q. q \<noteq> p \<Longrightarrow> sy_proxies T q = sy_proxies S q"
    and "conn_stage (sy_proxies T p) = (conn_stage (sy_proxies S p))(c := st)"
  shows "waits ups T b = (waits ups S b - {conn_id p c}) \<union> (if st = Some Checking \<and> up_app (ups p) = Some b then {conn_id p c} else {})"
proof -
  have "conn_id q d \<in> waits ups T b \<longleftrightarrow> conn_id q d \<in> (waits ups S b - {conn_id p c})
      \<union> (if st = Some Checking \<and> up_app (ups p) = Some b then {conn_id p c} else {})" for q d
    using assms by (cases "q = p") (auto simp: waits_def)
  moreover have "\<exists>q d. i = conn_id q d" for i using prod_decode_inverse [of i] by (metis conn_id_def surj_pair)
  ultimately show ?thesis by (metis (no_types, lifting) subsetI subset_antisym)
qed

lemma waits_iff: "conn_id p c \<in> waits ups S b \<longleftrightarrow> up_app (ups p) = Some b \<and> conn_stage (sy_proxies S p) c = Some Checking"
  by (auto simp: waits_def)

lemma waits_unchanged: "sy_proxies T = sy_proxies S \<Longrightarrow> waits ups T b = waits ups S b"
  by (simp add: waits_def)

section \<open>Every step keeps it\<close>

lemma answer_target:
  assumes "queue_ok ups (Called i a pid err # ls) S a"
  obtains p c where "i = conn_id p c" "up_app (ups p) = Some a" "conn_stage (sy_proxies S p) c = Some Checking"
proof -
  have "i \<in> waits ups S a" using assms unfolding queue_ok_def by auto
  with that show thesis unfolding waits_def by blast
qed

lemma queue_answered:
  assumes "queue_ok ups (Called (conn_id p c) a pid err # ls) S b" "up_app (ups p) = Some a"
    and "sy_proxies T = (sy_proxies S)(p := V)" "sy_pm T = sy_pm S" "conn_stage V = (conn_stage (sy_proxies S p))(c \<mapsto> st)" "st \<noteq> Checking"
  shows "queue_ok ups ls T b"
proof -
  have w: "waits ups T b = waits ups S b - {conn_id p c}"
    by (subst waits_stage [of p T S c "Some st"]) (simp_all add: assms(3,5,6))
  show ?thesis
  proof (cases "b = a")
    case True
    with w assms(1,4) show ?thesis by (auto simp: queue_ok_def)
  next
    case False
    with w assms(2) have "waits ups T b = waits ups S b" by (simp add: waits_iff)
    with False assms(1,4) show ?thesis by (simp add: queue_ok_def)
  qed
qed

lemma start_connector: "reach tinit (tstep timeout) try_start" "thens try_start = []"
  by (simp_all add: reach_init tinit_def try_start_def)

lemma answer_inv:
  assumes inv: "sys_inv ups E (l # ls) S"
  shows "\<exists>T. answer l S = Inr T \<and> sys_inv ups E ls T \<and> sy_pm T = sy_pm S"
proof (cases l)
  case (Called i a pid err)
  from answer_target [OF sys_invD(5) [OF inv [unfolded Called]]] obtain p c where
    i: "i = conn_id p c" and app: "up_app (ups p) = Some a" and st: "conn_stage (sy_proxies S p) c = Some Checking" .
  have "proxy_allowed (sy_proxies S p) (PChecked c err)" using st by (auto simp: conn_stage_def split: if_splits)
  from proxy_reach [OF sys_invD(1) [OF inv] this] obtain V where
    V: "proxy_checked c err (sy_proxies S p) = Inr V" "reach proxy_init (proxy_step (ups p)) V" by auto
  have eff: "conn_stage V = (conn_stage (sy_proxies S p))(c \<mapsto> (if err = 0 then Dialing else Settled))" "ended V = ended (sy_proxies S p)"
    using checked_effect [OF V(1)] st by auto
  define T where "T = (if err = 0 then set_dial p c try_start (set_proxy p V S) else set_proxy p V S)"
  have T: "sy_proxies T = (sy_proxies S)(p := V)" "sy_pm T = sy_pm S"
    "\<And>q d. (q, d) \<noteq> (p, c) \<Longrightarrow> sy_dials T q d = sy_dials S q d"
    "sy_dials T p c = (if err = 0 then Some try_start else sy_dials S p c)"
    by (auto simp: T_def)
  have old: "dial_ok ups S p c" "Called i a pid err \<in> set (out (sy_pm S))"
    using sys_invD(3,4) [OF inv] Called by auto
  have "dial_ok ups T q d" for q d
  proof (cases "(q, d) = (p, c)")
    case True
    have "cleared ups (sy_pm S) p c" if "err = 0"
      using old(2) that i app by (auto simp: cleared_def)
    with old(1) start_connector st True show ?thesis
      by (cases "err = 0") (simp_all add: dial_ok_def T eff app)
  next
    case False
    show ?thesis by (rule dial_frame [OF sys_invD(4) [OF inv]]) (use False eff T in \<open>auto split: if_splits\<close>)
  qed
  moreover have "queue_ok ups ls T b" for b
    by (rule queue_answered [OF sys_invD(5) [OF inv [unfolded Called i]] app T(1,2) eff(1)]) simp
  moreover have "answer l S = Inr T" using Called i V(1) by (simp add: T_def)
  ultimately show ?thesis using V(2) T sys_invD(1-3) [OF inv] by (auto simp: sys_inv_def)
qed (use assms in \<open>simp_all add: sys_inv_def queue_ok_def, blast+\<close>)

lemma answers_inv: "sys_inv ups E ls S \<Longrightarrow> \<exists>T. answers ls S = Inr T \<and> sys_inv ups E [] T"
proof (induction ls arbitrary: S)
  case (Cons l ls)
  from answer_inv [OF Cons.prems] Cons.IH show ?case by fastforce
qed simp

lemma pm_inv:
  assumes inv: "sys_inv ups E [] S" and E: "spawn_errors E" and step: "pm_step E (sy_pm S) e m"
    and U: "sy_pm U = m" "\<And>p. reach proxy_init (proxy_step (ups p)) (sy_proxies U p)"
      "\<And>p c. set (out (sy_pm S)) \<subseteq> set (out (sy_pm U)) \<Longrightarrow> dial_ok ups U p c"
    and new: "\<And>b. waits ups U b = waits ups S b \<union> set (asked b [e])" "\<And>b. distinct (asked b [e])"
      "\<And>b. set (asked b [e]) \<inter> waits ups S b = {}"
  shows "\<exists>ls T. out m = out (sy_pm S) @ ls \<and> answers ls U = Inr T \<and> sys_inv ups E [] T"
proof -
  have "checks_ok (sy_pm S)" using pms.reach_inv [OF sys_invD(2) [OF inv]] by (simp add: pm_good_def)
  from step_effect [OF E step this] obtain ls where ls: "out m = out (sy_pm S) @ ls"
    "\<And>b. waiting b (sy_pm S) @ asked b [e] = answered b ls @ waiting b m"
    unfolding effect_def append_Nil by blast
  have "queue_ok ups ls U b" for b
    using sys_invD(5) [OF inv, of b] new [of b] by (auto simp: queue_ok_def U(1) simp flip: ls(2))
  moreover have "pm_reach E m" using reach_step [OF sys_invD(2) [OF inv]] E step by blast
  ultimately have "sys_inv ups E ls U" using U ls(1) by (simp add: sys_inv_def)
  with answers_inv ls(1) show ?thesis by blast
qed

lemma manager_inv:
  assumes "sys_inv ups E [] S" "spawn_errors E" "\<not> requires e" "pm_step E (sy_pm S) e m"
  shows "\<exists>ls T. out m = out (sy_pm S) @ ls \<and> answers ls (S\<lparr>sy_pm := m\<rparr>) = Inr T \<and> sys_inv ups E [] T"
proof (rule pm_inv [OF assms(1,2,4)])
  have none: "asked b [e] = []" for b using assms(3) by (cases e) simp_all
  show "dial_ok ups (S\<lparr>sy_pm := m\<rparr>) p c" if "set (out (sy_pm S)) \<subseteq> set (out (sy_pm (S\<lparr>sy_pm := m\<rparr>)))" for p c
    using that by (intro dial_frame [OF sys_invD(4) [OF assms(1)]]) simp_all
  show "waits ups (S\<lparr>sy_pm := m\<rparr>) b = waits ups S b \<union> set (asked b [e])" for b
    using none waits_unchanged [of "S\<lparr>sy_pm := m\<rparr>" S ups b] by simp
qed (use sys_invD(1) [OF assms(1)] assms(3) in \<open>cases e; simp\<close>)+

lemma fresh_conn:
  assumes "sys_inv ups E ls S"
  shows "conn_stage (sy_proxies S p) (next_conn (sy_proxies S p)) = None" "sy_dials S p (next_conn (sy_proxies S p)) = None"
    "next_conn (sy_proxies S p) \<notin> ended (sy_proxies S p)"
  using sys_invD(4) [OF assms, of p "next_conn (sy_proxies S p)"]
  by (auto simp: dial_ok_def conn_stage_def)

lemma accept_inv:
  assumes inv: "sys_inv ups E [] S" and step: "proxy_step (ups p) (sy_proxies S p) (PAccept f None) W"
    and T: "sy_proxies T = (sy_proxies S)(p := W)" "set (out (sy_pm S)) \<subseteq> set (out (sy_pm T))"
      "\<And>q d. (q, d) \<noteq> (p, next_conn (sy_proxies S p)) \<Longrightarrow> sy_dials T q d = sy_dials S q d"
      "sy_dials T p (next_conn (sy_proxies S p)) = (if up_app (ups p) = None then Some try_start else None)"
  shows "dial_ok ups T q d \<and> reach proxy_init (proxy_step (ups q)) (sy_proxies T q)
    \<and> waits ups T b = waits ups S b \<union> (if up_app (ups p) = Some b then {conn_id p (next_conn (sy_proxies S p))} else {})
    \<and> conn_id p (next_conn (sy_proxies S p)) \<notin> waits ups S b"
proof (intro conjI)
  let ?c = "next_conn (sy_proxies S p)"
  note fresh = fresh_conn [OF inv, of p]
  have "proxy_OnConnection (ups p) f None (sy_proxies S p) = Inr W" using step by (simp add: proxy_step_def proxy_step_any_def)
  note eff = accept_effect [OF this]
  show "conn_id p ?c \<notin> waits ups S b" by (simp add: waits_iff fresh)
  then show "waits ups T b = waits ups S b \<union> (if up_app (ups p) = Some b then {conn_id p ?c} else {})"
    by (subst waits_stage [of p T S ?c "Some (if up_app (ups p) = None then Dialing else Checking)"]) (simp_all add: T eff)
  show "reach proxy_init (proxy_step (ups q)) (sy_proxies T q)"
    using reach_step [OF sys_invD(1) [OF inv] step] sys_invD(1) [OF inv] by (simp add: T)
  show "dial_ok ups T q d"
  proof (cases "(q, d) = (p, ?c)")
    case True
    from start_connector True eff fresh show ?thesis by (auto simp: dial_ok_def T cleared_def)
  next
    case False
    show ?thesis by (rule dial_frame [OF sys_invD(4) [OF inv]]) (use False eff T in \<open>auto split: if_splits\<close>)
  qed
qed

text \<open>The connector's side: answers are only added, and at most one is ever given.\<close>

lemma thandle_thens: "thandle timeout e k = Inr k' \<Longrightarrow> \<exists>xs. thens k' = thens k @ xs"
  by (cases e) (auto simp: connect_defs bindE_Inr_iff split: if_splits option.splits)

lemma thens_le_1: "reach tinit (tstep timeout) k \<Longrightarrow> length (thens k) \<le> 1"
  using connectors.reach_inv [of timeout k] by (auto simp: tinv_def Let_def)

lemma silent_inv:
  assumes inv: "sys_inv ups E [] S" and k: "sy_dials S p c = Some k"
    and k': "reach tinit (tstep (dial_timeout (ups p))) k'" "thens k' = thens k"
  shows "sys_inv ups E [] (set_dial p c k' S)" (is "sys_inv ups E [] ?T")
proof (rule sys_invI)
  have old: "dial_ok ups S p c" using sys_invD(4) [OF inv] .
  show "dial_ok ups ?T q d" for q d
  proof (cases "(q, d) = (p, c)")
    case True
    with old k k' show ?thesis by (simp add: dial_ok_def)
  next
    case False
    show ?thesis by (rule dial_frame [OF sys_invD(4) [OF inv]]) (use False in auto)
  qed
  show "queue_ok ups [] ?T b" for b
    using sys_invD(5) [OF inv, of b] waits_unchanged [of ?T S ups b] by (simp add: queue_ok_def)
qed (use sys_invD(1,2) [OF inv] in simp_all)

lemma result_inv:
  assumes inv: "sys_inv ups E [] S" and k: "sy_dials S p c = Some k" "thens k = []"
    and k': "reach tinit (tstep (dial_timeout (ups p))) k'" "thens k' = [x]"
  shows "\<exists>V. proxy_connected c (x \<noteq> None) (sy_proxies S p) = Inr V \<and> sys_inv ups E [] (set_proxy p V (set_dial p c k' S))"
proof -
  have old: "dial_ok ups S p c" using sys_invD(4) [OF inv] .
  with k have st: "conn_stage (sy_proxies S p) c = Some Dialing" and cl: "cleared ups (sy_pm S) p c" by (auto simp: dial_ok_def)
  have "proxy_allowed (sy_proxies S p) (PConnected c (x \<noteq> None))" using st by (auto simp: conn_stage_def split: if_splits)
  from proxy_reach [OF sys_invD(1) [OF inv] this] obtain V where
    V: "proxy_connected c (x \<noteq> None) (sy_proxies S p) = Inr V" "reach proxy_init (proxy_step (ups p)) V" by auto
  have eff: "conn_stage V = (conn_stage (sy_proxies S p))(c \<mapsto> Settled)" "ended V \<subseteq> insert c (ended (sy_proxies S p))"
    using connected_effect [OF V(1)] st by simp_all
  let ?T = "set_proxy p V (set_dial p c k' S)"
  have "dial_ok ups ?T q d" for q d
  proof (cases "(q, d) = (p, c)")
    case True
    with eff cl k' show ?thesis by (simp add: dial_ok_def)
  next
    case False
    show ?thesis by (rule dial_frame [OF sys_invD(4) [OF inv]]) (use False eff in \<open>auto split: if_splits\<close>)
  qed
  moreover have "waits ups ?T b = waits ups S b" for b
    by (subst waits_stage [of p ?T S c "Some Settled"]) (simp_all add: eff waits_iff st)
  ultimately have "sys_inv ups E [] ?T" using sys_invD(1,2,5) [OF inv] V(2) by (simp add: sys_inv_def queue_ok_def)
  with V(1) show ?thesis by blast
qed

lemma dialling_inv:
  assumes inv: "sys_inv ups E [] S" and k: "sy_dials S p c = Some k"
    and step: "tstep (dial_timeout (ups p)) k e k'" and xs: "thens k' = thens k @ xs"
  shows "\<exists>T. hand_over p c xs (set_dial p c k' S) = Inr T \<and> sys_inv ups E [] T"
proof -
  have "reach tinit (tstep (dial_timeout (ups p))) k" using sys_invD(4) [OF inv, of p c] k by (simp add: dial_ok_def)
  note k' = reach_step [OF this step]
  show ?thesis
  proof (cases xs)
    case Nil
    with silent_inv [OF inv k k'] xs show ?thesis by simp
  next
    case (Cons x ys)
    with xs thens_le_1 [OF k'] have one: "thens k = []" "xs = [x]" "thens k' = [x]" by auto
    from result_inv [OF inv k one(1) k' one(3)] one(2) show ?thesis by auto
  qed
qed

lemma closing_inv:
  assumes inv: "sys_inv ups E [] S" and e: "closing_event e" "proxy_step (ups p) (sy_proxies S p) e W"
  shows "sys_inv ups E [] (set_proxy p W S)"
proof -
  have "proxy_handle (ups p) e (sy_proxies S p) = Inr W" using e(2) by (simp add: proxy_step_def proxy_step_any_def)
  note eff = closing_effect [OF e(1) this]
  have "dial_ok ups (set_proxy p W S) q d" for q d
    by (rule dial_frame [OF sys_invD(4) [OF inv]]) (use eff in \<open>auto split: if_splits\<close>)
  moreover have "waits ups (set_proxy p W S) b = waits ups S b" for b
    using eff by (auto simp: waits_def)
  ultimately show ?thesis
    using sys_invD(1-3,5) [OF inv] reach_step [OF sys_invD(1) [OF inv] e(2)] by (simp add: sys_inv_def queue_ok_def)
qed

lemma sys_inv_new: "sys_inv ups E [] new_system"
  by (auto simp: sys_inv_def new_system_def reach_init proxy_init_def pm_init_def dial_ok_def queue_ok_def waits_def conn_stage_def
      ended_def new_proxy_object_def new_pm_def new_mapp_def waiting_def)

lemma accept_free_inv:
  assumes "sys_inv ups E [] S" "proxy_step (ups p) (sy_proxies S p) (PAccept f None) W" "up_app (ups p) = None"
  shows "sys_inv ups E [] (set_dial p (next_conn (sy_proxies S p)) try_start (set_proxy p W S))" (is "sys_inv ups E [] ?T")
proof -
  have "dial_ok ups ?T q d \<and> reach proxy_init (proxy_step (ups q)) (sy_proxies ?T q) \<and> waits ups ?T b = waits ups S b" for q d b
    using accept_inv [OF assms(1,2), of ?T q d b] assms(3) by simp
  then show ?thesis using sys_invD(2,5) [OF assms(1)] by (simp add: sys_inv_def queue_ok_def)
qed

lemma accept_app_inv:
  assumes "sys_inv ups E [] S" "proxy_step (ups p) (sy_proxies S p) (PAccept f None) W" "up_app (ups p) = Some a" "spawn_errors E"
    and "pm_step E (sy_pm S) (EvRequire a (conn_id p (next_conn (sy_proxies S p)))) m"
  shows "\<exists>ls T. out m = out (sy_pm S) @ ls \<and> answers ls ((set_proxy p W S)\<lparr>sy_pm := m\<rparr>) = Inr T \<and> sys_inv ups E [] T"
proof -
  let ?U = "(set_proxy p W S)\<lparr>sy_pm := m\<rparr>" and ?i = "conn_id p (next_conn (sy_proxies S p))"
  have new: "dial_ok ups ?U q d \<and> reach proxy_init (proxy_step (ups q)) (sy_proxies ?U q)
      \<and> waits ups ?U b = waits ups S b \<union> (if a = b then {?i} else {}) \<and> ?i \<notin> waits ups S b"
    if "set (out (sy_pm S)) \<subseteq> set (out m)" for q d b
    using accept_inv [OF assms(1,2), of ?U q d b] that assms(3) fresh_conn [OF assms(1), of p] by simp
  have "checks_ok (sy_pm S)" using pms.reach_inv [OF sys_invD(2) [OF assms(1)]] by (simp add: pm_good_def)
  from step_effect [OF assms(4,5) this] have "set (out (sy_pm S)) \<subseteq> set (out m)" by (auto simp: effect_def)
  note new = new [OF this]
  show ?thesis by (rule pm_inv [OF assms(1,4,5)]) (use new in \<open>auto split: if_splits\<close>)
qed

interpretation systems: invariant_system sys_init "\<lambda>S e T. spawn_errors E \<and> sys_step ups E S e T" "sys_inv ups E []" for ups E
proof unfold_locales
  show "sys_inv ups E [] S" if "sys_init S" for S using that sys_inv_new by (simp add: sys_init_def)
  show "sys_inv ups E [] T" if inv: "sys_inv ups E [] S" and step: "spawn_errors E \<and> sys_step ups E S e T" for S e T
    using step [THEN conjunct2]
  proof cases
    case (accept_free p f W)
    with accept_free_inv [OF inv] show ?thesis by blast
  next
    case (accept_app p f W b m ls)
    from accept_app_inv [OF inv accept_app(2,3) step [THEN conjunct1] accept_app(4)] accept_app(5,6) show ?thesis by force
  next
    case (manager e m ls)
    from manager_inv [OF inv step [THEN conjunct1] manager(2,3)] manager(4,5) show ?thesis by force
  next
    case (dialling p c k e k' xs)
    from dialling_inv [OF inv dialling(2,4,5)] dialling(6) show ?thesis by auto
  next
    case (closing e p W)
    with closing_inv [OF inv] show ?thesis by blast
  qed
qed

end
