(* ===== verification/SystemProps.thy ===== *)
theory SystemProps
  imports Systems
begin

text \<open>
  The properties of the composed system (theory \<open>Systems\<close>) over whole runs, and its execution on a
  sample configuration.
\<close>

section \<open>Properties\<close>

text \<open>Each component's next step is one of the system's.\<close>

lemma accept_possible:
  assumes inv: "sys_inv ups E [] S" and E: "spawn_errors E"
    and ok: "proxy_allowed (sy_proxies S p) (PAccept f None)" "proxy_orderly (sy_proxies S p) (PAccept f None)"
    and req: "\<And>a. up_app (ups p) = Some a \<Longrightarrow> \<exists>m. pm_step E (sy_pm S) (EvRequire a (conn_id p (next_conn (sy_proxies S p)))) m"
  shows "\<exists>T. sys_step ups E S (SAccept p f) T"
proof -
  from proxy_inv_handle [OF proxies.reach_inv [OF sys_invD(1) [OF inv]] ok, of "ups p"] ok
  obtain W where W: "proxy_step (ups p) (sy_proxies S p) (PAccept f None) W"
    by (auto simp: proxy_step_def proxy_step_any_def)
  show ?thesis
  proof (cases "up_app (ups p)")
    case None
    from accept_free [where ups = ups and E = E, OF W this] show ?thesis by blast
  next
    case (Some a)
    with req obtain m where m: "pm_step E (sy_pm S) (EvRequire a (conn_id p (next_conn (sy_proxies S p)))) m" by blast
    from accept_app_inv [OF inv W Some E m] accept_app [where ups = ups, OF W Some m] show ?thesis by blast
  qed
qed

lemma dial_possible:
  assumes inv: "sys_inv ups E [] S" and k: "sy_dials S p c = Some k" "quits (sy_proxies S p) c e" "tallowed k e" "torderly k e"
  shows "\<exists>T. sys_step ups E S (SDial p c e) T"
proof -
  have "reach tinit (tstep (dial_timeout (ups p))) k" using sys_invD(4) [OF inv, of p c] k(1) by (simp add: dial_ok_def)
  from tinv_handle [OF connectors.reach_inv [OF this] k(3,4)] k(3,4)
  obtain k' where k': "tstep (dial_timeout (ups p)) k e k'" "thandle (dial_timeout (ups p)) e k = Inr k'"
    by (auto simp: tstep_def tstep_any_def)
  from thandle_thens [OF this(2)] obtain xs where xs: "thens k' = thens k @ xs" by blast
  from dialling_inv [OF inv k(1) k'(1) xs] dialling [where ups = ups and E = E, OF k(1,2) k'(1) xs] show ?thesis by blast
qed

lemma closing_possible:
  assumes inv: "sys_inv ups E [] S" and e: "closing_event e" "proxy_allowed (sy_proxies S p) e"
  shows "\<exists>T. sys_step ups E S (SClosing p e) T"
  using proxy_inv_handle [OF proxies.reach_inv [OF sys_invD(1) [OF inv]] e(2), of "ups p"] e sys_step.closing [OF e(1), of ups p S]
  by (cases e) (auto simp: proxy_step_def proxy_step_any_def)

text \<open>
  C9: the components work together as each assumes of the others. The runs are those in which no new
  forwarder is put at an address whose closures still wait, in which \<open>uv_getaddrinfo\<close> accepts every
  request and no client is closed while its name is being resolved, in which the manager handles
  its events, and in which the errors of process starts are other than 0. In every state of such a
  run every proxy, the process manager and every connector are in a state reachable in their own
  system, and whatever one of them may do next within the same conditions, the others take
  without a fault: a new connection, provided its address is not reused and the manager can
  handle the request for its app; an event of the manager that it can handle, with all the
  answers it gives; an event of a connector with the result it reports; and the closing of
  connections.
\<close>

theorem system_composes:
  assumes "reach sys_init (\<lambda>S e T. spawn_errors E \<and> sys_step ups E S e T) S" "spawn_errors E"
  shows "(\<forall>p. reach proxy_init (proxy_step (ups p)) (sy_proxies S p)) \<and> pm_reach E (sy_pm S)
    \<and> (\<forall>p c k. sy_dials S p c = Some k \<longrightarrow> reach tinit (tstep (dial_timeout (ups p))) k)
    \<and> (\<forall>p f. proxy_allowed (sy_proxies S p) (PAccept f None) \<longrightarrow> proxy_orderly (sy_proxies S p) (PAccept f None)
        \<longrightarrow> (\<forall>a. up_app (ups p) = Some a \<longrightarrow> (\<exists>m. pm_step E (sy_pm S) (EvRequire a (conn_id p (next_conn (sy_proxies S p)))) m))
        \<longrightarrow> (\<exists>T. sys_step ups E S (SAccept p f) T))
    \<and> (\<forall>e m. \<not> requires e \<longrightarrow> pm_step E (sy_pm S) e m \<longrightarrow> (\<exists>T. sys_step ups E S (SManager e) T))
    \<and> (\<forall>p c k e. sy_dials S p c = Some k \<longrightarrow> quits (sy_proxies S p) c e \<longrightarrow> tallowed k e \<longrightarrow> torderly k e \<longrightarrow> (\<exists>T. sys_step ups E S (SDial p c e) T))
    \<and> (\<forall>p e. closing_event e \<longrightarrow> proxy_allowed (sy_proxies S p) e \<longrightarrow> (\<exists>T. sys_step ups E S (SClosing p e) T))"
proof -
  from systems.reach_inv [OF assms(1)] have inv: "sys_inv ups E [] S" .
  show ?thesis
  proof (intro conjI allI impI)
    show "\<exists>T. sys_step ups E S (SManager e) T" if "\<not> requires e" "pm_step E (sy_pm S) e m" for e m
      using manager_inv [OF inv assms(2) that] sys_step.manager [of e E S, OF that] by blast
  qed (use sys_invD(1,2,4) [OF inv] accept_possible [OF inv assms(2)] dial_possible [OF inv] closing_possible [OF inv]
      in \<open>auto simp: dial_ok_def\<close>)
qed

text \<open>Executing a run of the system.\<close>

definition sys_manage :: "nat \<Rightarrow> pm_env \<Rightarrow> pm_event \<Rightarrow> system \<Rightarrow> system option" where
  "sys_manage n E e S =
     (if pm_allowed (sy_pm S) e
      then case pm_handle (pm_run n E) e (sy_pm S) of
          Some (Inr m) \<Rightarrow> if take (length (out (sy_pm S))) (out m) = out (sy_pm S)
            then case answers (drop (length (out (sy_pm S))) (out m)) (S\<lparr>sy_pm := m\<rparr>) of Inr T \<Rightarrow> Some T | Inl x \<Rightarrow> None
            else None
        | r \<Rightarrow> None
      else None)"

fun sys_do :: "nat \<Rightarrow> (nat \<Rightarrow> Upstream) \<Rightarrow> pm_env \<Rightarrow> system \<Rightarrow> sys_event \<Rightarrow> system option" where
  "sys_do n ups E S (SAccept p f) =
     (if proxy_allowed (sy_proxies S p) (PAccept f None) \<and> proxy_orderly (sy_proxies S p) (PAccept f None)
      then case proxy_handle (ups p) (PAccept f None) (sy_proxies S p) of
          Inl x \<Rightarrow> None
        | Inr W \<Rightarrow> (case up_app (ups p) of
              None \<Rightarrow> Some (set_dial p (next_conn (sy_proxies S p)) try_start (set_proxy p W S))
            | Some b \<Rightarrow> sys_manage n E (EvRequire b (conn_id p (next_conn (sy_proxies S p)))) (set_proxy p W S))
      else None)"
| "sys_do n ups E S (SManager e) = (if requires e then None else sys_manage n E e S)"
| "sys_do n ups E S (SDial p c e) =
     (case sy_dials S p c of
        None \<Rightarrow> None
      | Some k \<Rightarrow> if quits (sy_proxies S p) c e \<and> tallowed k e \<and> torderly k e
          then case thandle (dial_timeout (ups p)) e k of
              Inl x \<Rightarrow> None
            | Inr k' \<Rightarrow> (case hand_over p c (drop (length (thens k)) (thens k')) (set_dial p c k' S) of Inr T \<Rightarrow> Some T | Inl x \<Rightarrow> None)
          else None)"
| "sys_do n ups E S (SClosing p e) =
     (if closing_event e \<and> proxy_allowed (sy_proxies S p) e
      then case proxy_handle (ups p) e (sy_proxies S p) of Inr W \<Rightarrow> Some (set_proxy p W S) | Inl x \<Rightarrow> None else None)"

fun sys_exec :: "nat \<Rightarrow> (nat \<Rightarrow> Upstream) \<Rightarrow> pm_env \<Rightarrow> sys_event list \<Rightarrow> system \<Rightarrow> system option" where
  "sys_exec n ups E [] S = Some S"
| "sys_exec n ups E (e # es) S = (case sys_do n ups E S e of None \<Rightarrow> None | Some T \<Rightarrow> sys_exec n ups E es T)"

lemma sys_manageD:
  assumes "sys_manage n E e S = Some T"
  shows "\<exists>m ls. pm_step E (sy_pm S) e m \<and> out m = out (sy_pm S) @ ls \<and> answers ls (S\<lparr>sy_pm := m\<rparr>) = Inr T"
proof -
  from assms obtain m where m: "pm_allowed (sy_pm S) e" "pm_handle (pm_run n E) e (sy_pm S) = Some (Inr m)"
    "take (length (out (sy_pm S))) (out m) = out (sy_pm S)" "answers (drop (length (out (sy_pm S))) (out m)) (S\<lparr>sy_pm := m\<rparr>) = Inr T"
    by (auto simp: sys_manage_def split: if_splits option.splits sum.splits)
  from m(3) have "out m = out (sy_pm S) @ drop (length (out (sy_pm S))) (out m)" by (metis append_take_drop_id)
  with m(1,2,4) show ?thesis unfolding pm_step_def by blast
qed

lemma sys_do_step:
  assumes "sys_do n ups E S e = Some T"
  shows "sys_step ups E S e T"
proof (cases e)
  case (SAccept p f)
  with assms obtain W where W: "proxy_step (ups p) (sy_proxies S p) (PAccept f None) W"
    "(case up_app (ups p) of None \<Rightarrow> Some (set_dial p (next_conn (sy_proxies S p)) try_start (set_proxy p W S))
      | Some b \<Rightarrow> sys_manage n E (EvRequire b (conn_id p (next_conn (sy_proxies S p)))) (set_proxy p W S)) = Some T"
    by (auto simp: proxy_step_def proxy_step_any_def split: if_splits sum.splits)
  show ?thesis
  proof (cases "up_app (ups p)")
    case None
    with W(2) SAccept accept_free [where ups = ups and E = E, OF W(1) None] show ?thesis by simp
  next
    case (Some b)
    with W(2) sys_manageD obtain m ls where "pm_step E (sy_pm S) (EvRequire b (conn_id p (next_conn (sy_proxies S p)))) m"
      "out m = out (sy_pm S) @ ls" "answers ls ((set_proxy p W S)\<lparr>sy_pm := m\<rparr>) = Inr T" by fastforce
    from accept_app [where ups = ups, OF W(1) Some this] SAccept show ?thesis by simp
  qed
next
  case (SManager ev)
  with assms have "\<not> requires ev" "sys_manage n E ev S = Some T" by (auto split: if_splits)
  with SManager manager sys_manageD show ?thesis by metis
next
  case (SDial p c ev)
  with assms obtain k k' where k: "sy_dials S p c = Some k" "quits (sy_proxies S p) c ev" "tstep (dial_timeout (ups p)) k ev k'"
    "thandle (dial_timeout (ups p)) ev k = Inr k'"
    "hand_over p c (drop (length (thens k)) (thens k')) (set_dial p c k' S) = Inr T"
    by (auto simp: tstep_def tstep_any_def split: if_splits option.splits sum.splits)
  from thandle_thens [OF k(4)] have "thens k' = thens k @ drop (length (thens k)) (thens k')" by auto
  from dialling [where ups = ups and E = E, OF k(1-3) this k(5)] SDial show ?thesis by simp
next
  case (SClosing p ev)
  with assms obtain W where "closing_event ev" "proxy_allowed (sy_proxies S p) ev" "proxy_handle (ups p) ev (sy_proxies S p) = Inr W"
    "T = set_proxy p W S" by (auto split: if_splits sum.splits)
  then show ?thesis using SClosing sys_step.closing [of ev ups p S W E]
    by (cases ev) (simp_all add: proxy_step_def proxy_step_any_def)
qed

lemma sys_exec_reach:
  "sys_exec n ups E es S = Some T \<Longrightarrow> spawn_errors E \<Longrightarrow> reach sys_init (\<lambda>S e T. spawn_errors E \<and> sys_step ups E S e T) S \<Longrightarrow>
     reach sys_init (\<lambda>S e T. spawn_errors E \<and> sys_step ups E S e T) T"
proof (induction es arbitrary: S)
  case (Cons e es)
  then obtain U where U: "sys_do n ups E S e = Some U" "sys_exec n ups E es U = Some T" by (auto split: option.splits)
  from reach_step [OF Cons.prems(3)] sys_do_step [OF U(1)] Cons.prems(2)
  have "reach sys_init (\<lambda>S e T. spawn_errors E \<and> sys_step ups E S e T) U" by blast
  with Cons.IH U(2) Cons.prems(2) show ?case by blast
qed simp

text \<open>
  Proxy 0 has app 4, which is checked, proxy 1 has none. A connection each: the first waits for
  the manager, the second is dialled at once and handed over.
\<close>

definition sample_ups :: "nat \<Rightarrow> Upstream" where
  "sample_ups p = new_upstream\<lparr>up_app := (if p = 0 then Some 4 else None), up_connect_timeout := 2000\<rparr>"

definition sample_run :: "sys_event list" where
  "sample_run = [SAccept 0 100, SAccept 1 200, SDial 1 0 (TTick 500 0), SManager (EvExit 0 1 0), SDial 1 0 (TAddrInfo 0 0 0),
     SDial 1 0 (TConnect 0 0 0 False), SManager (EvTick 0)]"

definition sample_fuel :: nat where
  "sample_fuel = Suc (Suc (Suc (Suc (Suc (Suc (Suc (Suc (Suc 0))))))))"

lemmas system_sample_simps = sample_fuel_def sample_run_def sample_ups_def sys_manage_def sample_env_def sample_conf_def new_pm_def new_mapp_def
  method_defs state_defs start_timeout_def ENOENT_def timer_tick_def process_exit_def process_error_def timer_Close_def process_Kill_def Let_def
  proxy_sample_simps connect_defs set_client_def new_tclient_def try_start_def new_system_def set_dial_def set_proxy_def dial_timeout_def
  conn_stage_def waiting_def ProcessManagerAnswers.clients_def

lemma sample_system:
  "\<exists>S. sys_exec sample_fuel sample_ups sample_env sample_run new_system = Some S \<and> handed (sy_proxies S 1) = [(0, 0)]
     \<and> conn_stage (sy_proxies S 0) 0 = Some Checking \<and> waiting 4 (sy_pm S) = [conn_id 0 0]
     \<and> (\<exists>T. sys_exec sample_fuel sample_ups sample_env [SManager (EvExit 2 0 0)] S = Some T \<and> conn_stage (sy_proxies T 0) 0 = Some Dialing)"
  by (simp add: system_sample_simps)

lemma sample_system_states:
  obtains S where "reach sys_init (\<lambda>S e T. spawn_errors sample_env \<and> sys_step sample_ups sample_env S e T) S"
    "handed (sy_proxies S 1) = [(0, 0)]" "conn_stage (sy_proxies S 0) 0 = Some Checking" "waiting 4 (sy_pm S) = [conn_id 0 0]"
    "\<exists>m. pm_step sample_env (sy_pm S) (EvExit 2 0 0) m"
proof -
  from sample_system obtain S T where S: "sys_exec sample_fuel sample_ups sample_env sample_run new_system = Some S"
    "handed (sy_proxies S 1) = [(0, 0)]" "conn_stage (sy_proxies S 0) 0 = Some Checking" "waiting 4 (sy_pm S) = [conn_id 0 0]"
    "sys_exec sample_fuel sample_ups sample_env [SManager (EvExit 2 0 0)] S = Some T" by blast
  from S(5) sys_manageD obtain m where "pm_step sample_env (sy_pm S) (EvExit 2 0 0) m"
    by (fastforce split: if_splits option.splits)
  moreover have "reach sys_init (\<lambda>S e T. spawn_errors sample_env \<and> sys_step sample_ups sample_env S e T) S"
    by (rule sys_exec_reach [OF S(1) sample_env_errors reach_init]) (simp add: sys_init_def)
  ultimately show thesis using that S(2-4) by blast
qed

theorem system_composes_witness:
  "\<exists>S. handed (sy_proxies S 1) = [(0, 0)] \<and> pm_reach sample_env (sy_pm S)
     \<and> (\<exists>T. sys_step sample_ups sample_env S (SManager (EvExit 2 0 0)) T)"
proof -
  obtain S where S: "reach sys_init (\<lambda>S e T. spawn_errors sample_env \<and> sys_step sample_ups sample_env S e T) S"
    "handed (sy_proxies S 1) = [(0, 0)]" "\<exists>m. pm_step sample_env (sy_pm S) (EvExit 2 0 0) m"
    using sample_system_states by metis
  from system_composes [OF S(1) sample_env_errors] have "pm_reach sample_env (sy_pm S)"
    and steps: "\<And>e m. \<not> requires e \<Longrightarrow> pm_step sample_env (sy_pm S) e m \<Longrightarrow> \<exists>T. sys_step sample_ups sample_env S (SManager e) T"
    by blast+
  with S(2,3) steps [of "EvExit 2 0 0"] show ?thesis by auto
qed

lemma dialling_timer:
  assumes "sys_inv ups E [] S" "conn_stage (sy_proxies S p) c = Some Dialing"
  shows "\<exists>k. sy_dials S p c = Some k \<and> thens k = [] \<and> \<not> timer_closing k \<and> \<not> timer_deleted k"
proof -
  from sys_invD(4) [OF assms(1), of p c] assms(2) obtain k where k: "sy_dials S p c = Some k" "thens k = []"
    "reach tinit (tstep (dial_timeout (ups p))) k" by (auto simp: dial_ok_def)
  with connectors.reach_inv [OF k(3)] have "\<not> timer_closing k \<and> \<not> timer_deleted k" by (auto simp: tinv_def Let_def trying_def)
  with k show ?thesis by blast
qed

text \<open>
  C10: what becomes of connections in the composed system, in the runs of C9: no new forwarder at an
  address whose closures still wait, orderly name resolution, no fault of the manager, errors of
  process starts other than 0. An upstream connection is handed only to the forwarder of the
  connection it was dialled for; if the upstream has an app, only after the manager told that very
  connection success for it; if it has none, nothing is asked. None is forgotten: the connections
  waiting for an app are, each once, those of whom the manager keeps a callback, and a connection
  whose upstream is being dialled has a connector that has not answered and whose timer still runs.
\<close>

theorem system_connections:
  assumes "reach sys_init (\<lambda>S e T. spawn_errors E \<and> sys_step ups E S e T) S"
  shows "(\<forall>p ow c. (ow, c) \<in> set (handed (sy_proxies S p)) \<longrightarrow> ow = c
        \<and> (\<forall>a. up_app (ups p) = Some a \<longrightarrow> (\<exists>pid. Called (conn_id p c) a pid 0 \<in> set (out (sy_pm S)))))
    \<and> (\<forall>a. distinct (waiting a (sy_pm S)) \<and> set (waiting a (sy_pm S)) =
        {conn_id p c |p c. up_app (ups p) = Some a \<and> conn_stage (sy_proxies S p) c = Some Checking})
    \<and> (\<forall>p c. conn_stage (sy_proxies S p) c = Some Checking \<longrightarrow> up_app (ups p) \<noteq> None)
    \<and> (\<forall>p c. conn_stage (sy_proxies S p) c = Some Dialing \<longrightarrow> (\<exists>k. sy_dials S p c = Some k \<and> thens k = [] \<and> \<not> timer_closing k))"
proof -
  from systems.reach_inv [OF assms] have inv: "sys_inv ups E [] S" .
  show ?thesis
  proof (intro conjI allI impI)
    fix p ow c assume h: "(ow, c) \<in> set (handed (sy_proxies S p))"
    show "ow = c" using proxy_invD(4) [OF proxies.reach_inv [OF sys_invD(1) [OF inv]] h] by simp
    have "c \<in> ended (sy_proxies S p)" using h by (force simp: ended_def)
    then have "cleared ups (sy_pm S) p c" using sys_invD(4) [OF inv, of p c] by (auto simp: dial_ok_def)
    then show "\<exists>pid. Called (conn_id p c) a pid 0 \<in> set (out (sy_pm S))" if "up_app (ups p) = Some a" for a
      using that by (simp add: cleared_def)
  next
    show "distinct (waiting a (sy_pm S))" for a using sys_invD(5) [OF inv, of a] by (simp add: queue_ok_def)
    show "set (waiting a (sy_pm S)) = {conn_id p c |p c. up_app (ups p) = Some a \<and> conn_stage (sy_proxies S p) c = Some Checking}" for a
      using sys_invD(5) [OF inv, of a] by (simp add: queue_ok_def waits_def)
  next
    show "up_app (ups p) \<noteq> None" if "conn_stage (sy_proxies S p) c = Some Checking" for p c
      using sys_invD(4) [OF inv, of p c] that by (simp add: dial_ok_def)
  next
    show "\<exists>k. sy_dials S p c = Some k \<and> thens k = [] \<and> \<not> timer_closing k" if "conn_stage (sy_proxies S p) c = Some Dialing" for p c
      using dialling_timer [OF inv that] by blast
  qed
qed

theorem system_connections_witness:
  "\<exists>S :: system. (0, 0) \<in> set (handed (sy_proxies S 1)) \<and> conn_stage (sy_proxies S 0) 0 = Some Checking \<and> distinct (waiting 4 (sy_pm S))
     \<and> set (waiting 4 (sy_pm S)) = {conn_id p c |p c. up_app (sample_ups p) = Some 4 \<and> conn_stage (sy_proxies S p) c = Some Checking}"
proof -
  obtain S where S: "reach sys_init (\<lambda>S e T. spawn_errors sample_env \<and> sys_step sample_ups sample_env S e T) S"
    "handed (sy_proxies S 1) = [(0, 0)]" "conn_stage (sy_proxies S 0) 0 = Some Checking"
    using sample_system_states by metis
  note all = system_connections [OF S(1)]
  have "distinct (waiting 4 (sy_pm S))"
    "set (waiting 4 (sy_pm S)) = {conn_id p c |p c. up_app (sample_ups p) = Some 4 \<and> conn_stage (sy_proxies S p) c = Some Checking}"
    using all [THEN conjunct2, THEN conjunct1, THEN spec [of _ 4]] by blast+
  with S(2,3) show ?thesis by (intro exI [of _ S]) simp
qed

end
