(* ===== verification/ProcessManagerLiveness.thy ===== *)
theory ProcessManagerLiveness
  imports ProcessManagerClaims
begin

text \<open>
  Nobody who waits on an app is forgotten: in every state of a run, something is under way (a
  timer, a check, a process about to exit) that leads on to the answer. The invariant says so
  between the events; inside of them it is relative to what the calls still to come will do.
\<close>

section \<open>What a waiting app can count on\<close>

text \<open>
  \<open>V\<close> gives, for the apps whose callbacks are being called, those not called yet; the preambles
  of \<open>a\<close> whose answer is still to come:
\<close>

definition uncalled :: "(nat \<Rightarrow> callback list option) \<Rightarrow> pm \<Rightarrow> nat \<Rightarrow> callback list" where
  "uncalled V s b = (case V b of Some cbs \<Rightarrow> cbs | None \<Rightarrow> callbacks (app s b))"

definition outstanding :: "pm_env \<Rightarrow> (nat \<Rightarrow> callback list option) \<Rightarrow> pm \<Rightarrow> nat \<Rightarrow> nat" where
  "outstanding E V s a = (\<Sum>b\<in>set (app_preamble (conf E a)). count_list (uncalled V s b) (PreambleOf a))"

definition ticking :: "pm \<Rightarrow> nat \<Rightarrow> bool" where
  "ticking s a \<longleftrightarrow> (\<exists>t. timers s t = Some (a, False))"

text \<open>
  A timer that will check the app, or a check of it whose end lets the timer go on; its first
  check; a process of it that was killed to be restarted; preambles it waits for. \<open>P\<close> are
  processes that are about to be deleted, \<open>K\<close> how many preambles an app has yet to require.
\<close>

definition source :: "pm_env \<Rightarrow> (nat \<Rightarrow> callback list option) \<Rightarrow> (nat \<Rightarrow> nat) \<Rightarrow> nat set \<Rightarrow> pm \<Rightarrow> nat \<Rightarrow> bool" where
  "source E V K P s a \<longleftrightarrow>
     ticking s a \<and> (is_checking (app s a) \<longrightarrow> (\<exists>p t. p \<notin> P \<and> procs s p = Some (CheckProcess a (TickThen a t))))
     \<or> (\<exists>p. p \<notin> P \<and> procs s p = Some (CheckProcess a (ReqThen a)))
     \<or> restart (app s a) \<and> m_process (app s a) \<noteq> None
     \<or> 0 < pending_preamble (app s a) \<and> pending_preamble (app s a) \<le> int (outstanding E V s a + K a)"

fun check_ok :: "pm \<Rightarrow> nat \<Rightarrow> kont \<Rightarrow> bool" where
  "check_ok s c (ReqThen a) = (a = c)"
| "check_ok s c (TickThen a t) = (a = c \<and> t < next_tid s \<and> (\<forall>x. timers s t = Some x \<longrightarrow> fst x = c))"
| "check_ok s c (StartThen a) = False"

definition heap_ok :: "nat set \<Rightarrow> pm \<Rightarrow> bool" where
  "heap_ok P s \<longleftrightarrow> (\<forall>q. procs s q \<noteq> None \<or> q \<in> P \<longrightarrow> q < next_pid s) \<and> (\<forall>t. timers s t \<noteq> None \<longrightarrow> t < next_tid s)
     \<and> (\<forall>q c k. procs s q = Some (CheckProcess c k) \<longrightarrow> check_ok s c k)"

lemma check_ok_later:
  assumes "check_ok s c k" "next_tid s \<le> next_tid t"
    and "\<And>i x. i < next_tid s \<Longrightarrow> timers t i = Some x \<Longrightarrow> \<exists>y. timers s i = Some y \<and> fst y = fst x"
  shows "check_ok t c k"
proof (cases k)
  case (TickThen a i)
  with assms show ?thesis by fastforce
qed (use assms(1) in auto)

lemma heap_ok_same:
  assumes "heap_ok P s" "procs t = procs s" "next_pid t = next_pid s" "timers t = timers s" "next_tid t = next_tid s"
  shows "heap_ok P t"
proof -
  have "check_ok t c k" if "check_ok s c k" for c k by (rule check_ok_later [OF that]) (simp_all add: assms)
  with assms show ?thesis by (auto simp: heap_ok_def)
qed

text \<open>Every app somebody waits on has a source, but for those of \<open>X\<close>, which a call still to come sees to.\<close>

definition lively :: "pm_env \<Rightarrow> nat set \<Rightarrow> (nat \<Rightarrow> callback list option) \<Rightarrow> (nat \<Rightarrow> nat) \<Rightarrow> nat set \<Rightarrow> pm \<Rightarrow> bool" where
  "lively E X V K P s \<longleftrightarrow> waits_ok E s \<and> heap_ok P s \<and> (\<forall>a. callbacks (app s a) \<noteq> [] \<and> a \<notin> X \<longrightarrow> source E V K P s a)"

lemma livelyI:
  "waits_ok E s \<Longrightarrow> heap_ok P s \<Longrightarrow> (\<And>a. callbacks (app s a) \<noteq> [] \<Longrightarrow> a \<notin> X \<Longrightarrow> source E V K P s a) \<Longrightarrow> lively E X V K P s"
  by (simp add: lively_def)

lemma livelyD:
  assumes "lively E X V K P s"
  shows "waits_ok E s" "heap_ok P s" "callbacks (app s a) \<noteq> [] \<Longrightarrow> a \<notin> X \<Longrightarrow> source E V K P s a"
  using assms by (simp_all add: lively_def)

lemma lively_less: "lively E X V K P s \<Longrightarrow> X \<subseteq> Y \<Longrightarrow> lively E Y V K P s"
  by (auto simp: lively_def)

lemma lively_handled: "lively E (X - {a}) V K P s \<Longrightarrow> lively E X V K P s"
  by (erule lively_less) blast

section \<open>Changes of the state\<close>

lemma outstanding_cong: "(\<And>b. uncalled V s b = uncalled W t b) \<Longrightarrow> outstanding E V s a = outstanding E W t a"
  by (simp add: outstanding_def)

lemma uncalled_upd: "(\<And>m. callbacks (f m) = callbacks m) \<Longrightarrow> uncalled V (upd a f s) b = uncalled V s b"
  by (simp add: uncalled_def upd_def split: option.split)

lemma outstanding_app: "app t = app s \<Longrightarrow> outstanding E V t a = outstanding E V s a"
  by (rule outstanding_cong) (simp add: uncalled_def split: option.split)

text \<open>The counts after a callback was called and after one was added.\<close>

lemma sum_bump:
  fixes g h :: "nat \<Rightarrow> nat"
  assumes "finite A" "\<And>b. g b = h b + (if b = a then d else 0)"
  shows "sum g A = sum h A + (if a \<in> A then d else 0)"
  using assms(1) by (simp add: assms(2) sum.distrib)

lemma outstanding_call:
  assumes "V a = Some (cb # rest)"
  shows "outstanding E V s b = outstanding E (V(a \<mapsto> rest)) s b
     + (if a \<in> set (app_preamble (conf E b)) then (if cb = PreambleOf b then 1 else 0) else 0)"
  unfolding outstanding_def by (rule sum_bump) (simp_all add: uncalled_def assms)

lemma outstanding_push:
  "outstanding E Map.empty (upd c (\<lambda>m. m\<lparr>callbacks := callbacks m @ [cb]\<rparr>) s) b = outstanding E Map.empty s b
     + (if c \<in> set (app_preamble (conf E b)) then (if cb = PreambleOf b then 1 else 0) else 0)"
  unfolding outstanding_def by (rule sum_bump) (simp_all add: uncalled_def upd_def)

text \<open>A change of one app's entry matters to the others through the preambles they wait for only.\<close>

lemma source_mono:
  assumes "source E V K P s a" "procs t = procs s" "timers t = timers s"
    and "restart (app t a) = restart (app s a)" "m_process (app t a) = m_process (app s a)"
    and "is_checking (app t a) = is_checking (app s a)" "pending_preamble (app t a) = pending_preamble (app s a)"
    and "outstanding E V s a + K a \<le> outstanding E W t a + L a"
  shows "source E W L P t a"
proof -
  have "int (outstanding E V s a + K a) \<le> int (outstanding E W t a + L a)" using assms(8) by (simp only: of_nat_le_iff)
  with assms(1) show ?thesis unfolding source_def ticking_def assms(2-7) by (meson order_trans)
qed

lemma lively_entry:
  assumes "lively E X V K P s" "t = upd a f s" "waits_ok E t" "X \<subseteq> insert a Y"
    and "\<And>b. b \<noteq> a \<Longrightarrow> outstanding E V s b + K b \<le> outstanding E W t b + L b"
    and "callbacks (app t a) \<noteq> [] \<Longrightarrow> a \<notin> Y \<Longrightarrow> source E W L P t a"
  shows "lively E Y W L P t"
proof (rule livelyI [OF assms(3)])
  show "heap_ok P t" using livelyD(2) [OF assms(1)] by (rule heap_ok_same) (simp_all add: assms(2) upd_def)
  fix b
  assume b: "callbacks (app t b) \<noteq> []" "b \<notin> Y"
  show "source E W L P t b"
  proof (cases "b = a")
    case True
    with assms(6) b show ?thesis by simp
  next
    case False
    then have e: "app t b = app s b" by (simp add: assms(2) upd_def)
    with b assms(4) False have "source E V K P s b" using livelyD(3) [OF assms(1)] by auto
    then show ?thesis by (rule source_mono [where V = V and K = K and W = W and L = L, OF _ _ _ _ _ _ _ assms(5) [OF False]]) (simp_all add: e, simp_all add: assms(2) upd_def)
  qed
qed

lemma lively_upd:
  assumes "lively E X V K P s" "\<And>m. callbacks (f m) = callbacks m"
    and "callbacks (app s a) \<noteq> [] \<Longrightarrow> a \<notin> Y \<Longrightarrow> source E V K P (upd a f s) a" "X \<subseteq> insert a Y"
  shows "lively E Y V K P (upd a f s)"
proof (rule lively_entry [OF assms(1) refl _ assms(4)])
  show "waits_ok E (upd a f s)" using waits_upd [OF livelyD(1) [OF assms(1)], of f a] assms(2) by simp
  show "outstanding E V s b + K b \<le> outstanding E V (upd a f s) b + K b" for b
    using outstanding_cong [of V "upd a f s" V s, OF uncalled_upd [OF assms(2)]] by simp
  show "callbacks (app (upd a f s) a) \<noteq> [] \<Longrightarrow> a \<notin> Y \<Longrightarrow> source E V K P (upd a f s) a"
    using assms(2,3) by (simp add: upd_def)
qed

lemma lively_excused:
  "lively E X V K P s \<Longrightarrow> (\<And>m. callbacks (f m) = callbacks m) \<Longrightarrow> lively E (insert a X) V K P (upd a f s)"
  by (rule lively_upd) auto

text \<open>The log and the clock do not matter.\<close>

lemma lively_same:
  assumes "lively E X V K P s" "app t = app s" "procs t = procs s" "next_pid t = next_pid s" "timers t = timers s"
    "next_tid t = next_tid s"
  shows "lively E X V K P t"
  by (rule livelyI [OF waits_same [OF livelyD(1) [OF assms(1)] assms(2)] heap_ok_same [OF livelyD(2) [OF assms(1)] assms(3-6)]])
    (use livelyD(3) [OF assms(1)] assms outstanding_app [OF assms(2)] in \<open>auto simp: source_def ticking_def\<close>)

lemma lively_emit: "lively E X V K P s \<Longrightarrow> lively E X V K P (emit l s)"
  by (erule lively_same) (simp_all add: emit_def)

lemma lively_clock: "lively E X V K P s \<Longrightarrow> lively E X V K P (s\<lparr>now := t\<rparr>)"
  by (erule lively_same) simp_all

text \<open>What only adds to the heap, or takes from it what nobody counts on, harms no source.\<close>

lemma lively_heap:
  assumes "lively E X V K P s" "heap_ok Q t" "app t = app s"
    and "\<And>a. a \<notin> X \<Longrightarrow> ticking s a \<Longrightarrow> ticking t a"
    and "\<And>p c k. p \<notin> P \<Longrightarrow> procs s p = Some (CheckProcess c k) \<Longrightarrow> c \<notin> X \<Longrightarrow> p \<notin> Q \<and> procs t p = Some (CheckProcess c k)"
  shows "lively E X V K Q t"
proof (rule livelyI)
  show "waits_ok E t" using livelyD(1) [OF assms(1)] assms(3) by (rule waits_same)
  fix a
  assume a: "callbacks (app t a) \<noteq> []" "a \<notin> X"
  have "outstanding E V t a = outstanding E V s a" by (rule outstanding_app [OF assms(3)])
  moreover have "source E V K P s a" using livelyD(3) [OF assms(1)] a assms(3) by simp
  ultimately show "source E V K Q t a" using assms(4,5) a(2) unfolding source_def assms(3) by metis
qed (rule assms(2))

lemma lively_new_check:
  assumes "lively E X V K P s" "new_process (CheckProcess c k) s = (p, t)"
    and "check_ok s c k"
  shows "lively E X V K P t" "p \<notin> P" "procs t p = Some (CheckProcess c k)" "app t = app s" "timers t = timers s"
proof -
  have h: "heap_ok P s" by (rule livelyD(2) [OF assms(1)])
  have p: "p = next_pid s" "t = s\<lparr>procs := (procs s)(next_pid s \<mapsto> CheckProcess c k), next_pid := next_pid s + 1\<rparr>"
    using assms(2) by (auto simp: new_process_def)
  have "check_ok t c' k'" if "check_ok s c' k'" for c' k' by (rule check_ok_later [OF that]) (auto simp: p(2))
  with h assms(3) have "heap_ok P t" unfolding heap_ok_def p(2) by (auto simp: less_Suc_eq)
  then show "lively E X V K P t"
    by (rule lively_heap [OF assms(1)]) (use h p in \<open>auto simp: ticking_def heap_ok_def\<close>)
  show "p \<notin> P" "procs t p = Some (CheckProcess c k)" "app t = app s" "timers t = timers s"
    using h p by (auto simp: heap_ok_def)
qed

lemma lively_delete:
  assumes "lively E X V K P s" "p \<in> P"
  shows "lively E X V K P (delete_process p s)"
proof (rule lively_heap [OF assms(1)])
  have "check_ok (delete_process p s) c k = check_ok s c k" for c k by (cases k) (simp_all add: delete_process_def)
  then show "heap_ok P (delete_process p s)"
    using livelyD(2) [OF assms(1)] by (simp add: heap_ok_def) (simp add: delete_process_def)
qed (use assms(2) in \<open>auto simp: delete_process_def ticking_def\<close>)

lemma lively_launched:
  assumes "lively E X V K P s"
  shows "lively E (X - {a}) V K P (launched a s)"
proof -
  let ?t = "snd (new_timer a (snd (new_process (AppProcess a) s)))"
  have h: "heap_ok P s" by (rule livelyD(2) [OF assms])
  have "check_ok ?t c k" if "check_ok s c k" for c k
    by (rule check_ok_later [OF that]) (auto simp: new_timer_def new_process_def)
  with h have "heap_ok P ?t" unfolding heap_ok_def by (auto simp: new_timer_def new_process_def less_Suc_eq)
  moreover have tick: "ticking ?t b" if "ticking s b" for b
  proof -
    obtain i where i: "timers s i = Some (b, False)" using \<open>ticking s b\<close> by (auto simp: ticking_def)
    then have "i < next_tid s" using h unfolding heap_ok_def by (metis option.distinct(1))
    with i have "timers ?t i = Some (b, False)" by (simp add: new_timer_def new_process_def)
    then show ?thesis unfolding ticking_def by blast
  qed
  ultimately have "lively E X V K P ?t"
    by (intro lively_heap [OF assms]) (use h in \<open>auto simp: heap_ok_def new_timer_def new_process_def\<close>)
  then have t: "lively E (insert a X) V K P (launched a s)" unfolding launched_def by (rule lively_excused) simp
  have "ticking (launched a s) a" "\<not> is_checking (app (launched a s) a)"
    by (auto simp: launched_def ticking_def state_defs)
  then have "source E V K P (launched a s) a" by (simp add: source_def)
  with t show ?thesis unfolding lively_def by (metis Diff_iff insert_iff singletonD)
qed

section \<open>Calls\<close>

text \<open>
  What a call relies on. Answers travel from preambles to the apps they belong to: \<open>above\<close>
  says that the apps whose callbacks are being called rank below the app of the call.
\<close>

definition above :: "(nat \<Rightarrow> nat) \<Rightarrow> (nat \<Rightarrow> callback list option) \<Rightarrow> nat \<Rightarrow> bool" where
  "above rk V n \<longleftrightarrow> (\<forall>b. V b \<noteq> None \<longrightarrow> rk b < n)"

fun bump :: "callback \<Rightarrow> (nat \<Rightarrow> nat) \<Rightarrow> nat \<Rightarrow> nat" where
  "bump (Client i) K = K"
| "bump (PreambleOf a) K = K(a := Suc (K a))"

fun slack :: "call \<Rightarrow> (nat \<Rightarrow> nat) \<Rightarrow> nat \<Rightarrow> nat" where
  "slack (CallRequire c cb) K = bump cb K"
| "slack (CallRequireEach a cs) K = K(a := K a + length cs)"
| "slack c K = K"

fun lively_pre :: "pm_env \<Rightarrow> (nat \<Rightarrow> nat) \<Rightarrow> (nat \<Rightarrow> callback list option) \<Rightarrow> nat set \<Rightarrow> call \<Rightarrow> pm \<Rightarrow> bool" where
  "lively_pre E rk V P (CallClear a e) s = above rk V (rk a)"
| "lively_pre E rk V P (CallLoop a orig cbs e) s = (V a = Some cbs \<and> above rk V (Suc (rk a)) \<and> list_all (callback_ok E a) cbs)"
| "lively_pre E rk V P (CallCallback cb a p e) s = ((\<exists>rest. V a = Some (cb # rest)) \<and> above rk V (Suc (rk a)) \<and> callback_ok E a cb)"
| "lively_pre E rk V P (CallThen k e) s =
     (case k of StartThen a \<Rightarrow> above rk V (rk a) | ReqThen a \<Rightarrow> V = Map.empty | TickThen a t \<Rightarrow> False)"
| "lively_pre E rk V P (CallError a pid e) s = above rk V (rk a)"
| "lively_pre E rk V P (CallExit a pid st sg) s = (V = Map.empty \<and> pid \<in> P \<and> (st = 0 \<and> sg = 0 \<longrightarrow> \<not> restart (app s a)))"
| "lively_pre E rk V P (CallStart a) s = (V = Map.empty)"
| "lively_pre E rk V P (CallCheckPreamble a) s = (V = Map.empty)"
| "lively_pre E rk V P (CallRequireEach a cs) s = (V = Map.empty \<and> waits_pre E (CallRequireEach a cs))"
| "lively_pre E rk V P (CallRequire c cb) s = (V = Map.empty \<and> callback_ok E c cb)"
| "lively_pre E rk V P (CallCheck c k) s = (V = Map.empty \<and> k = ReqThen c)"

text \<open>The apps a call sees to, and which callbacks it leaves uncalled.\<close>

fun sees_to :: "call \<Rightarrow> nat set" where
  "sees_to (CallClear a e) = {a}"
| "sees_to (CallThen k e) = (case k of StartThen a \<Rightarrow> {a} | ReqThen a \<Rightarrow> {a} | TickThen a t \<Rightarrow> {})"
| "sees_to (CallError a pid e) = {a}"
| "sees_to (CallStart a) = {a}"
| "sees_to (CallCheckPreamble a) = {a}"
| "sees_to (CallCheck c k) = {c}"
| "sees_to c = {}"

fun called :: "call \<Rightarrow> (nat \<Rightarrow> callback list option) \<Rightarrow> nat \<Rightarrow> callback list option" where
  "called (CallLoop a orig cbs e) V = V(a := Some [])"
| "called (CallCallback cb a p e) V = V(a := Some (tl (the (V a))))"
| "called c V = V"

definition lively_rel :: "pm_env \<Rightarrow> (nat \<Rightarrow> nat) \<Rightarrow> call \<Rightarrow> pm \<Rightarrow> pm \<Rightarrow> bool" where
  "lively_rel E rk c s s' \<longleftrightarrow> (\<forall>X V K P. lively E X V (slack c K) P s \<longrightarrow> lively_pre E rk V P c s
     \<longrightarrow> lively E (X - sees_to c) (called c V) K P s')"

definition lively_go :: "pm_env \<Rightarrow> (nat \<Rightarrow> nat) \<Rightarrow> caller \<Rightarrow> bool" where
  "lively_go E rk go \<longleftrightarrow> (\<forall>c s s'. go c s = ret s' \<longrightarrow> lively_rel E rk c s s')"

lemma lively_goD:
  assumes "lively_go E rk go" "go c s = ret s'" "lively E X V (slack c K) P s" "lively_pre E rk V P c s"
  shows "lively E (X - sees_to c) (called c V) K P s'"
  using assms unfolding lively_go_def lively_rel_def by blast

text \<open>A call that sees to the app it is about, which was excused.\<close>

lemma lively_sees:
  assumes "lively_go E rk go" "go c s = ret s'" "lively E (insert a X) V K P s" "lively_pre E rk V P c s"
    and "sees_to c = {a}" "called c V = V" "slack c K = K"
  shows "lively E (X - {a}) V K P s'"
  using lively_goD [OF assms(1,2), of "insert a X" V K P] assms(3-7) by simp

lemma above_None: "above rk V (rk a) \<Longrightarrow> V a = None"
  by (auto simp: above_def)

lemma ClearCallbacks_lively:
  assumes "lively_go E rk go" "lively E X V K P s" "above rk V (rk a)" "ClearCallbacks go a err s = ret s'"
  shows "lively E (X - {a}) V K P s'"
proof -
  let ?cbs = "callbacks (app s a)" and ?f = "\<lambda>m :: mapp. m\<lparr>callbacks := []\<rparr>"
  obtain t where t: "go (CallLoop a ?cbs ?cbs err) s = ret t" "s' = upd a ?f t"
    using assms(4) by (auto simp: ClearCallbacks_def bindP_ret_iff)
  note V = above_None [OF assms(3)]
  have "outstanding E V s b = outstanding E (V(a \<mapsto> ?cbs)) s b" for b
    by (rule outstanding_cong) (simp add: uncalled_def V)
  then have "lively E X (V(a \<mapsto> ?cbs)) K P s" using assms(2) by (simp add: lively_def source_def)
  moreover have "list_all (callback_ok E a) ?cbs" using livelyD(1) [OF assms(2)] by (simp add: waits_ok_def list_all_iff)
  moreover have "above rk (V(a \<mapsto> ?cbs)) (Suc (rk a))" using assms(3) by (auto simp: above_def less_Suc_eq)
  ultimately have 1: "lively E X (V(a \<mapsto> [])) K P t"
    using lively_goD [OF assms(1) t(1), of X "V(a \<mapsto> ?cbs)" K P] by simp
  have "outstanding E (V(a \<mapsto> [])) t b = outstanding E V s' b" for b
    by (rule outstanding_cong) (simp add: uncalled_def V t(2) upd_def split: option.split)
  moreover have "waits_ok E s'" unfolding t(2) by (rule waits_upd [OF livelyD(1) [OF 1]]) simp
  ultimately show ?thesis by (intro lively_entry [OF 1 t(2)]) (auto simp: t(2) upd_def)
qed

lemma callback_loop_lively:
  assumes "lively_go E rk go" "lively E X V K P s" "lively_pre E rk V P (CallLoop a orig cbs err) s"
    and "callback_loop go a orig cbs err s = ret s'"
  shows "lively E X (V(a := Some [])) K P s'"
proof (cases cbs)
  case Nil
  with assms(2-4) have "s' = s" "V(a := Some []) = V" by (auto simp: callback_loop_def)
  with assms(2) show ?thesis by simp
next
  case (Cons cb rest)
  then obtain t where t: "go (CallCallback cb a (m_process (app s a)) err) s = ret t" "go (CallLoop a orig rest err) t = ret s'"
    using assms(4) by (auto simp: callback_loop_def bindP_ret_iff split: if_splits)
  have pre: "lively_pre E rk V P (CallCallback cb a (m_process (app s a)) err) s"
    "lively_pre E rk (V(a \<mapsto> rest)) P (CallLoop a orig rest err) t" "V a = Some (cb # rest)"
    using assms(3) Cons by (auto simp: above_def)
  have "lively E X (V(a \<mapsto> rest)) K P t" using lively_goD [OF assms(1) t(1) _ pre(1), of X K] assms(2) pre(3) by simp
  with lively_goD [OF assms(1) t(2) _ pre(2), of X K] show ?thesis by simp
qed

lemma call_callback_lively:
  assumes "lively_go E rk go" "acyclic_env E rk R" "lively E X V K P s" "V a = Some (cb # rest)"
    and "above rk V (Suc (rk a))" "callback_ok E a cb" "call_callback go cb a p err s = ret s'"
  shows "lively E X (V(a \<mapsto> rest)) K P s'"
proof (cases cb)
  case (Client i)
  with outstanding_call [where V = V and a = a, OF assms(4)]
  have "outstanding E V s b = outstanding E (V(a \<mapsto> rest)) s b" for b by simp
  with assms(3) have "lively E X (V(a \<mapsto> rest)) K P s" by (simp add: lively_def source_def)
  with Client assms(7) show ?thesis by (auto simp: call_callback_def intro: lively_emit)
next
  case (PreambleOf par)
  define f where "f = (\<lambda>m :: mapp. m\<lparr>pending_preamble := pending_preamble m - 1,
    error_preamble := error_preamble m + (if err \<noteq> 0 then 1 else 0)\<rparr>)"
  let ?s = "upd par f s" and ?V = "V(a \<mapsto> rest)"
  have f: "callbacks (f m) = callbacks m" "pending_preamble (f m) = pending_preamble m - 1" "restart (f m) = restart m"
    "m_process (f m) = m_process m" "is_checking (f m) = is_checking m" for m by (simp_all add: f_def)
  have par: "a \<in> set (app_preamble (conf E par))" using assms(6) PreambleOf by (simp add: callback_ok_def)
  have same: "outstanding E ?V ?s b = outstanding E ?V s b" for b
    by (rule outstanding_cong) (rule uncalled_upd, rule f)
  have n: "outstanding E V s b = outstanding E ?V ?s b + (if b = par then 1 else 0)" for b
    using outstanding_call [where V = V and a = a, OF assms(4), of E s b] par PreambleOf unfolding same by auto
  have w: "waits_ok E ?s" by (rule waits_upd [OF livelyD(1) [OF assms(3)]]) (simp add: f)
  have rk: "above rk ?V (rk par)" using assms(2,5) par by (force simp: above_def acyclic_env_def less_Suc_eq_le)
  have s2: "(if err \<noteq> 0 then upd par (\<lambda>m. m\<lparr>error_preamble := error_preamble m + 1\<rparr>) (upd par (\<lambda>m. m\<lparr>pending_preamble := pending_preamble m - 1\<rparr>) s)
    else upd par (\<lambda>m. m\<lparr>pending_preamble := pending_preamble m - 1\<rparr>) s) = ?s"
    by (simp add: upd_def f_def)
  have res: "(if pending_preamble (app ?s par) = 0 then go (CallThen (StartThen par) (error_preamble (app ?s par))) ?s
    else ret ?s) = ret s'"
    using assms(7) unfolding PreambleOf call_callback_def callback.case preamble_callback_def Let_def s2 .
  show ?thesis
  proof (cases "pending_preamble (app ?s par) = 0")
    case True
    have "lively E (insert par X) ?V K P ?s" by (rule lively_entry [OF assms(3) refl w]) (use n in auto)
    with lively_sees [OF assms(1) _ this] True res rk have "lively E (X - {par}) ?V K P s'" by simp
    then show ?thesis by (rule lively_handled)
  next
    case False
    have "source E ?V K P ?s par" if "callbacks (app ?s par) \<noteq> []" "par \<notin> X"
    proof -
      have "source E V K P s par" using livelyD(3) [OF assms(3), of par] that by (simp add: upd_def f)
      then show ?thesis using False n [of par] unfolding source_def by (auto simp: upd_def f ticking_def)
    qed
    then have "lively E X ?V K P ?s" by (intro lively_entry [OF assms(3) refl w]) (use n in auto)
    with False res show ?thesis by simp
  qed
qed

lemma start_then_lively:
  assumes "lively_go E rk go" "acyclic_env E rk R" "lively E X V K P s" "above rk V (rk a)" "start_then go E a err s = ret s'"
  shows "lively E (X - {a}) V K P s'"
proof (cases "err = 0")
  case False
  with assms(5) have 1: "go (CallClear a err) s = ret s'" by (simp add: start_then_alt)
  show ?thesis by (rule lively_sees [OF assms(1) 1 lively_less [OF assms(3)]]) (use assms(4) in auto)
next
  case True
  let ?p = "next_pid s"
  note L = lively_launched [OF assms(3), of a]
  show ?thesis
  proof (cases "spawn E ?p")
    case Started
    with True assms(5) L show ?thesis by (auto simp: start_then_alt intro: lively_emit)
  next
    case (FailsLate e)
    with True assms(5) obtain t where t: "go (CallError a ?p e) (launched a s) = ret t" "s' = emit (ObservedStart ?p) t"
      by (auto simp: start_then_alt bindP_ret_iff)
    have "lively E (X - {a} - {a}) V K P t"
      by (rule lively_sees [OF assms(1) t(1) lively_less [OF L]]) (use assms(4) in auto)
    then show ?thesis unfolding t(2) by (intro lively_emit) simp
  next
    case (FailsNow e)
    with assms(2) show ?thesis by (simp add: acyclic_env_def)
  qed
qed

lemma require_then_lively:
  assumes "lively_go E rk go" "lively E X Map.empty K P s" "require_then go E a err s = ret s'"
  shows "lively E (X - {a}) Map.empty K P s'"
proof -
  let ?s = "upd a (\<lambda>m. m\<lparr>require_start_time := now s\<rparr>) s" and ?r = "\<lambda>m :: mapp. m\<lparr>restart := True\<rparr>"
  have start: "lively E (X - {a}) Map.empty K P s'" if "go (CallStart a) ?s = ret s'"
    by (rule lively_sees [OF assms(1) that lively_excused [OF assms(2)]]) simp_all
  have clear: "lively E (X - {a}) Map.empty K P s'" if "go (CallClear a 0) s = ret s'"
    by (rule lively_sees [OF assms(1) that lively_less [OF assms(2)]]) (auto simp: above_def)
  have kill: "lively E (X - {a}) Map.empty K P s'" if "process_Kill p (upd a ?r s) = ret s'" "m_process (app s a) = Some p" for p
  proof -
    have "lively E (X - {a}) Map.empty K P (upd a ?r s)"
      by (rule lively_upd [OF assms(2)]) (use that(2) in \<open>auto simp: source_def upd_def\<close>)
    then show ?thesis using that(1) by (auto simp: process_Kill_def intro: lively_emit split: if_splits)
  qed
  show ?thesis using assms(3) start clear kill by (auto simp: require_then_def split: if_splits option.splits)
qed

lemma app_exit_lively:
  assumes "lively_go E rk go" "lively E X Map.empty K P s" "pid \<in> P" "st = 0 \<and> sg = 0 \<longrightarrow> \<not> restart (app s a)"
    and "app_exit go E a pid st sg s = ret s'"
  shows "lively E X Map.empty K P s'"
proof -
  define x where "x = (if st \<noteq> 0 then st else sg)"
  let ?s1 = "upd a (\<lambda>m. m\<lparr>m_process := None\<rparr>) (emit (ObservedExit pid x sg) s)"
  let ?s2 = "upd a (\<lambda>m. m\<lparr>restart := False\<rparr>) ?s1"
  obtain t where t: "s' = delete_process pid t"
    "(if x \<noteq> 0 then if restart (app ?s1 a) then go (CallStart a) ?s2
      else if app_checker (conf E a) = None then go (CallClear a (int_of_int64 x)) ?s1 else ret ?s1 else ret ?s1) = ret t"
    using assms(5) unfolding app_exit_def Let_def x_def [symmetric] bindP_ret_iff by blast
  have r: "restart (app ?s1 a) = restart (app s a)" by (simp add: upd_def emit_def)
  have x: "x = 0 \<Longrightarrow> \<not> restart (app s a)" using assms(4) by (auto simp: x_def split: if_splits)
  have s1: "lively E X Map.empty K P ?s1" if "\<not> restart (app s a)"
  proof (rule lively_upd [OF lively_emit [OF assms(2)]])
    let ?e = "emit (ObservedExit pid x sg) s"
    assume "callbacks (app ?e a) \<noteq> []" "a \<notin> X"
    then have 1: "source E Map.empty K P ?e a" using livelyD(3) [OF lively_emit [OF assms(2)]] by blast
    have "\<not> restart (app ?e a)" using that by (simp add: emit_def)
    moreover have "outstanding E Map.empty ?s1 a = outstanding E Map.empty ?e a" by (rule outstanding_cong) (rule uncalled_upd, simp)
    ultimately show "source E Map.empty K P ?s1 a" using 1 by (simp add: source_def ticking_def upd_def)
  qed auto
  have "lively E X Map.empty K P t"
  proof (cases "restart (app s a)")
    case True
    with t(2) r x have 1: "go (CallStart a) ?s2 = ret t" by (auto split: if_splits)
    have "lively E (insert a (insert a X)) Map.empty K P ?s2"
      by (intro lively_excused lively_emit assms(2)) simp_all
    then have "lively E (insert a X) Map.empty K P ?s2" by simp
    from lively_sees [OF assms(1) 1 this] show ?thesis by (auto intro: lively_handled)
  next
    case False
    then have "t = ?s1 \<or> go (CallClear a (int_of_int64 x)) ?s1 = ret t" using t(2) r by (auto split: if_splits)
    moreover have "lively E (X - {a}) Map.empty K P t" if "go (CallClear a (int_of_int64 x)) ?s1 = ret t"
      by (rule lively_sees [OF assms(1) that lively_less [OF s1 [OF False]]]) (auto simp: above_def)
    ultimately show ?thesis using s1 [OF False] lively_handled by blast
  qed
  then show ?thesis unfolding t(1) using assms(3) by (rule lively_delete)
qed

lemma CheckPreamble_lively:
  assumes "lively_go E rk go" "lively E X Map.empty K P s" "CheckPreamble go E a s = ret s'"
  shows "lively E (X - {a}) Map.empty K P s'"
proof -
  let ?cs = "app_preamble (conf E a)"
  let ?f = "\<lambda>m :: mapp. m\<lparr>error_preamble := 0, pending_preamble := int (length ?cs)\<rparr>"
  let ?s = "upd a ?f s" and ?K = "K(a := K a + length ?cs)"
  show ?thesis
  proof (cases "?cs = []")
    case True
    with assms(3) have 1: "go (CallThen (StartThen a) 0) ?s = ret s'" by (simp add: CheckPreamble_def)
    show ?thesis by (rule lively_sees [OF assms(1) 1 lively_excused [OF assms(2)]]) (simp_all add: above_def)
  next
    case False
    with assms(3) have 1: "go (CallRequireEach a ?cs) ?s = ret s'" by (simp add: CheckPreamble_def Let_def)
    have "outstanding E Map.empty ?s b = outstanding E Map.empty s b" for b by (rule outstanding_cong) (rule uncalled_upd, simp)
    moreover have "waits_ok E ?s" by (rule waits_upd [OF livelyD(1) [OF assms(2)]]) simp
    ultimately have "lively E (X - {a}) Map.empty ?K P ?s"
      by (intro lively_entry [OF assms(2) refl]) (use False in \<open>auto simp: source_def upd_def\<close>)
    with lively_goD [OF assms(1) 1, of "X - {a}" Map.empty K P] show ?thesis by simp
  qed
qed

lemma require_each_lively:
  assumes "lively_go E rk go" "lively E X Map.empty (K(a := K a + length cs)) P s" "set cs \<subseteq> set (app_preamble (conf E a))"
    and "require_each go a cs s = ret s'"
  shows "lively E X Map.empty K P s'"
proof (cases cs)
  case Nil
  with assms(2,4) show ?thesis by (simp add: require_each_def)
next
  case (Cons c rest)
  with assms(4) obtain t where t: "go (CallRequire c (PreambleOf a)) s = ret t" "go (CallRequireEach a rest) t = ret s'"
    by (auto simp: require_each_def bindP_ret_iff)
  let ?K = "K(a := K a + length rest)"
  have "lively E X Map.empty ?K P t"
    using lively_goD [OF assms(1) t(1), of X Map.empty ?K P] assms(2,3) Cons by (simp add: callback_ok_def)
  with lively_goD [OF assms(1) t(2), of X Map.empty K P] assms(3) Cons show ?thesis by simp
qed

lemma Require_lively:
  assumes "lively_go E rk go" "lively E X Map.empty (bump cb K) P s" "callback_ok E c cb" "Require go c cb s = ret s'"
  shows "lively E X Map.empty K P s'"
proof -
  let ?s = "upd c (\<lambda>m. m\<lparr>callbacks := callbacks m @ [cb]\<rparr>) s"
  have n: "outstanding E Map.empty s b + bump cb K b = outstanding E Map.empty ?s b + K b" for b
    using assms(3) by (cases cb) (auto simp: outstanding_push callback_ok_def)
  have w: "waits_ok E ?s" using livelyD(1) [OF assms(2)] assms(3) by (auto simp: waits_ok_def upd_def)
  show ?thesis
  proof (cases "callbacks (app s c) = []")
    case True
    with assms(4) have 1: "go (CallCheck c (ReqThen c)) ?s = ret s'" by (simp add: Require_def upd_def)
    have "lively E (insert c X) Map.empty K P ?s"
      by (rule lively_entry [OF assms(2) refl w]) (use n in \<open>auto intro: eq_imp_le\<close>)
    from lively_sees [OF assms(1) 1 this] show ?thesis by (auto intro: lively_handled)
  next
    case False
    then have "s' = ?s" using assms(4) by (simp add: Require_def upd_def)
    moreover have "source E Map.empty K P ?s c" if "c \<notin> X"
      by (rule source_mono [where V = Map.empty and K = "bump cb K" and W = Map.empty, OF livelyD(3) [OF assms(2) False that]])
        (use n in \<open>simp_all add: upd_def eq_imp_le\<close>)
    then have "lively E X Map.empty K P ?s"
      by (intro lively_entry [OF assms(2) refl w]) (use n in \<open>auto intro: eq_imp_le\<close>)
    ultimately show ?thesis by simp
  qed
qed

lemma Check_lively:
  assumes "lively_go E rk go" "acyclic_env E rk R" "lively E X Map.empty K P s" "Check go E c (ReqThen c) s = ret s'"
  shows "lively E (X - {c}) Map.empty K P s'"
proof (cases "app_checker (conf E c) = None")
  case True
  with assms(4) have 1: "go (CallThen (ReqThen c) 0) s = ret s'" by (simp add: Check_def)
  show ?thesis by (rule lively_sees [OF assms(1) 1 lively_less [OF assms(3)]]) auto
next
  case False
  then obtain cmd where cmd: "app_checker (conf E c) = Some cmd" by blast
  obtain p s1 where new: "new_process (CheckProcess c (ReqThen c)) s = (p, s1)" by fastforce
  note N = lively_new_check [OF assms(3) new]
  have s1: "lively E X Map.empty K P s1" using N(1) by simp
  have src: "source E Map.empty K P s1 c" using N(2,3) by (auto simp: source_def)
  have p: "p = next_pid s" using new by (simp add: new_process_def)
  show ?thesis
  proof (cases "spawn E p")
    case Started
    with cmd assms(4) new have "s' = emit (ObservedStart p) s1" by (simp add: Check_def)
    moreover have "lively E (X - {c}) Map.empty K P s1" using s1 src unfolding lively_def by (metis Diff_iff singletonD)
    ultimately show ?thesis by (simp add: lively_emit)
  next
    case (FailsLate e)
    with cmd assms(4) new obtain t where t: "go (CallThen (ReqThen c) e) (emit (ObservedError p e) s1) = ret t" "s' = emit (ObservedStart p) t"
      by (auto simp: Check_def bindP_ret_iff)
    have "lively E (X - {c}) Map.empty K P t"
      by (rule lively_sees [OF assms(1) t(1) lively_less [OF lively_emit [OF s1]]]) auto
    then show ?thesis unfolding t(2) by (rule lively_emit)
  next
    case (FailsNow e)
    with assms(2) show ?thesis by (simp add: acyclic_env_def)
  qed
qed

lemma method_lively:
  assumes go: "lively_go E rk go" and E: "acyclic_env E rk R" and run: "pm_call go E c s = ret s'"
  shows "lively_rel E rk c s s'"
  unfolding lively_rel_def
proof (intro allI impI)
  fix X V K P
  assume l: "lively E X V (slack c K) P s" and pre: "lively_pre E rk V P c s"
  show "lively E (X - sees_to c) (called c V) K P s'"
  proof (cases c)
    case (CallThen k e)
    with go E l pre run show ?thesis
      by (cases k) (auto simp: call_then_def intro: start_then_lively require_then_lively)
  next
    case (CallError a pid e)
    let ?s = "emit (ObservedError pid e) (upd a (\<lambda>m. m\<lparr>m_process := None\<rparr>) s)"
    have "lively E (insert a X) V K P ?s" using l CallError by (intro lively_emit lively_excused) simp_all
    from lively_sees [OF go _ this, of "CallClear a e"] CallError pre run show ?thesis by (simp add: app_error_def)
  next
    case (CallStart a)
    then have 1: "go (CallCheckPreamble a) s = ret s'" using run by (simp add: pm_Start_def)
    have "lively E (insert a X) V K P s" using l CallStart by (auto intro: lively_less)
    from lively_sees [OF go 1 this] CallStart pre show ?thesis by simp
  next
    case (CallClear a e)
    with ClearCallbacks_lively [OF go, of X V K P s a e s'] l pre run show ?thesis by simp
  next
    case (CallLoop a orig cbs e)
    with callback_loop_lively [OF go] l pre run show ?thesis by simp
  next
    case (CallCallback cb a p e)
    with pre obtain rest where "V a = Some (cb # rest)" by auto
    with call_callback_lively [OF go E, of X V K P s a cb rest p e s'] CallCallback l pre run show ?thesis by simp
  next
    case (CallExit a pid st sg)
    with l have "lively E X V K P s" by simp
    moreover from CallExit pre have "V = Map.empty" "pid \<in> P" "st = 0 \<and> sg = 0 \<longrightarrow> \<not> restart (app s a)" by simp_all
    ultimately show ?thesis using app_exit_lively [OF go] run CallExit by simp
  next
    case (CallCheckPreamble a)
    with CheckPreamble_lively [OF go, of X K P s a s'] l pre run show ?thesis by simp
  next
    case (CallRequireEach a cs)
    with require_each_lively [OF go, of X K a cs P s s'] l pre run show ?thesis by simp
  next
    case (CallRequire a cb)
    with Require_lively [OF go, of X cb K P s a s'] l pre run show ?thesis by simp
  next
    case (CallCheck a k)
    with Check_lively [OF go E, of X K P s a s'] l pre run show ?thesis by simp
  qed
qed

interpretation liveliness: call_relation E "\<lambda>c s s'. acyclic_env E rk R \<longrightarrow> lively_rel E rk c s s'" for E rk R
proof unfold_locales
  fix go c s s'
  assume "\<And>c s s'. go c s = ret s' \<Longrightarrow> acyclic_env E rk R \<longrightarrow> lively_rel E rk c s s'" "pm_call go E c s = ret s'"
  then show "acyclic_env E rk R \<longrightarrow> lively_rel E rk c s s'" using method_lively [of E rk go R c s s']
    by (auto simp: lively_go_def)
qed

section \<open>Events\<close>

lemma run_lively: "acyclic_env E rk R \<Longrightarrow> lively_go E rk (pm_run n E)"
  using liveliness.run_relation unfolding lively_go_def by blast

text \<open>Timers that close or are deleted.\<close>

lemma lively_timer:
  assumes "lively E X V K P s" "timers s t = Some (a, c)" "a \<in> X \<or> c" "v = Some (a, True) \<or> v = None"
  shows "lively E X V K P (s\<lparr>timers := (timers s)(t := v)\<rparr>)"
proof (rule lively_heap [OF assms(1)])
  let ?s = "s\<lparr>timers := (timers s)(t := v)\<rparr>"
  have "check_ok ?s d k" if "check_ok s d k" for d k
    by (rule check_ok_later [OF that]) (use assms(2,4) in \<open>auto split: if_splits\<close>)
  with livelyD(2) [OF assms(1)] assms(2) show "heap_ok P ?s" unfolding heap_ok_def by (auto split: if_splits)
  show "ticking ?s b" if b: "b \<notin> X" "ticking s b" for b
  proof -
    obtain i where i: "timers s i = Some (b, False)" using b(2) by (auto simp: ticking_def)
    then have "i \<noteq> t" using assms(2,3) b(1) by auto
    with i have "timers ?s i = Some (b, False)" by simp
    then show ?thesis unfolding ticking_def by blast
  qed
qed (use livelyD(2) [OF assms(1)] in \<open>auto simp: heap_ok_def\<close>)

lemma run_clear:
  assumes "acyclic_env E rk R" "lively E {a} Map.empty K P s" "pm_run n E (CallClear a e) s = ret t"
  shows "lively E {} Map.empty K P t" "callbacks (app t a) = []"
proof -
  show "lively E {} Map.empty K P t"
    using lively_sees [OF run_lively [OF assms(1)] assms(3), of a "{}"] assms(2) by (simp add: above_def)
  show "callbacks (app t a) = []"
    using assms(3) by (cases n) (auto simp: ClearCallbacks_def bindP_ret_iff upd_def)
qed

text \<open>The end of a check a timer started: its app is answered, or the timer may check again.\<close>

lemma tick_then_lively:
  assumes "acyclic_env E rk R" "lively E {a} Map.empty K P s" "check_ok s a (TickThen a t)"
    and "tick_then (pm_run n E) E a t err s = ret s'"
  shows "callbacks (app s' a) = [] \<and> lively E {} Map.empty K P s' \<or> err \<noteq> 0 \<and> s' = upd a (\<lambda>m. m\<lparr>is_checking := False\<rparr>) s"
proof (cases "err = 0 \<or> err = - ENOENT \<or> start_timeout (conf E a) (require_start_time (app s a)) (now s)")
  case False
  with assms(4) show ?thesis by (simp add: tick_then_def)
next
  case True
  with assms(4) obtain s1 u where s1: "timer_Close t s = ret s1"
    "pm_run n E (CallClear a err) (upd a (\<lambda>m. m\<lparr>checker_timer := None\<rparr>) s1) = ret u"
    "s' = upd a (\<lambda>m. m\<lparr>is_checking := False\<rparr>) u" by (auto simp: tick_then_def bindP_ret_iff)
  from s1(1) obtain d c where d: "timers s t = Some (d, c)" "s1 = s\<lparr>timers := (timers s)(t := Some (d, True))\<rparr>"
    by (auto simp: timer_Close_def split: option.splits)
  moreover have "d = a" using assms(3) d(1) by simp
  ultimately have c: "timers s t = Some (a, c)" "s1 = s\<lparr>timers := (timers s)(t := Some (a, True))\<rparr>" by simp_all
  have "lively E {a} Map.empty K P s1" unfolding c(2) by (rule lively_timer [OF assms(2) c(1)]) simp_all
  then have "lively E {a} Map.empty K P (upd a (\<lambda>m. m\<lparr>checker_timer := None\<rparr>) s1)"
    by (rule lively_upd) simp_all
  note u = run_clear [OF assms(1) this s1(2)]
  have "lively E {} Map.empty K P s'" unfolding s1(3) by (rule lively_upd [OF u(1)]) (simp_all add: u(2))
  with u(2) s1(3) show ?thesis by (simp add: upd_def)
qed

lemma check_flagged:
  assumes "lively E {a} Map.empty K P s" "callbacks (app s a) = [] \<or> source E Map.empty K P (upd a (\<lambda>m. m\<lparr>is_checking := b\<rparr>) s) a"
  shows "lively E {} Map.empty K P (upd a (\<lambda>m. m\<lparr>is_checking := b\<rparr>) s)"
  by (rule lively_upd [OF assms(1)]) (use assms(2) in auto)

text \<open>A tick that starts a check.\<close>

text \<open>The flag set after the check of a tick: nobody waits any more, or the check is under way.\<close>

lemma flagged_quiet:
  assumes "callbacks (app w a) = []" "lively E {} Map.empty K P w"
  shows "lively E {} Map.empty K P (upd a (\<lambda>m. m\<lparr>is_checking := True\<rparr>) w)"
  by (rule check_flagged [OF lively_less [OF assms(2)]]) (use assms(1) in simp_all)

lemma flagged_checking:
  assumes "lively E {} Map.empty K P s" "timers s t = Some (a, False)" "check_ok s a (TickThen a t)"
    and "new_process (CheckProcess a (TickThen a t)) s = (p, s1)"
    and "lively E {a} Map.empty K P w" "procs w = procs s1" "timers w = timers s"
  shows "lively E {} Map.empty K P (upd a (\<lambda>m. m\<lparr>is_checking := True\<rparr>) w)"
  by (rule check_flagged [OF assms(5)])
    (use lively_new_check [OF assms(1,4,3)] assms(2) in \<open>auto simp: source_def ticking_def upd_def assms(6,7)\<close>)

lemma tick_check_late:
  assumes "acyclic_env E rk R" "lively E {} Map.empty K P s" "timers s t = Some (a, False)" "check_ok s a (TickThen a t)"
    and "new_process (CheckProcess a (TickThen a t)) s = (p, s1)"
    and "pm_run m E (CallThen (TickThen a t) e) (emit (ObservedError p e) s1) = ret w"
  shows "lively E {} Map.empty K P (upd a (\<lambda>m. m\<lparr>is_checking := True\<rparr>) (emit (ObservedStart p) w))"
proof -
  let ?s1 = "emit (ObservedError p e) s1"
  note N = lively_new_check [OF assms(2,5,4)]
  have ex: "lively E {a} Map.empty K P ?s1" by (rule lively_less [OF lively_emit [OF N(1)]]) simp
  obtain k where k: "tick_then (pm_run k E) E a t e ?s1 = ret w" using assms(6) by (cases m) (auto simp: call_then_def)
  have "check_ok ?s1 a (TickThen a t)" using assms(4,5) N(5) by (auto simp: emit_def new_process_def)
  from tick_then_lively [OF assms(1) ex this k]
  consider "callbacks (app w a) = []" "lively E {} Map.empty K P w" | "w = upd a (\<lambda>m. m\<lparr>is_checking := False\<rparr>) ?s1" by blast
  then show ?thesis
  proof cases
    case 1
    with flagged_quiet [OF _ lively_emit] show ?thesis by (simp add: emit_def)
  next
    case 2
    have "lively E {a} Map.empty K P (emit (ObservedStart p) w)" unfolding 2 by (intro lively_emit lively_excused N(1)) simp
    from flagged_checking [OF assms(2-5) this] N(5) show ?thesis by (simp add: 2 emit_def upd_def)
  qed
qed

lemma tick_check_lively:
  assumes "acyclic_env E rk R" "lively E {} Map.empty K P s" "timers s t = Some (a, False)"
    and "pm_run n E (CallCheck a (TickThen a t)) s = ret u"
  shows "lively E {} Map.empty K P (upd a (\<lambda>m. m\<lparr>is_checking := True\<rparr>) u)"
proof -
  obtain m where m: "Check (pm_run m E) E a (TickThen a t) s = ret u" using assms(4) by (cases n) auto
  have ex: "lively E {a} Map.empty K P w" if "lively E {} Map.empty K P w" for w using that by (rule lively_less) simp
  have "t < next_tid s" using livelyD(2) [OF assms(2)] assms(3) unfolding heap_ok_def by (metis option.distinct(1))
  then have ok: "check_ok s a (TickThen a t)" using assms(3) by simp
  show ?thesis
  proof (cases "app_checker (conf E a)")
    case None
    with m have 1: "pm_run m E (CallThen (TickThen a t) 0) s = ret u" by (simp add: Check_def)
    then obtain k where "tick_then (pm_run k E) E a t 0 s = ret u" by (cases m) (auto simp: call_then_def)
    from tick_then_lively [OF assms(1) ex [OF assms(2)] ok this] flagged_quiet show ?thesis by blast
  next
    case (Some cmd)
    obtain p s1 where new: "new_process (CheckProcess a (TickThen a t)) s = (p, s1)" by fastforce
    note N = lively_new_check [OF assms(2) new ok]
    show ?thesis
    proof (cases "spawn E p")
      case Started
      with Some m new have "u = emit (ObservedStart p) s1" by (simp add: Check_def)
      with flagged_checking [OF assms(2,3) ok new ex [OF lively_emit [OF N(1)]]] N(5) show ?thesis by (simp add: emit_def)
    next
      case (FailsLate e)
      with Some m new obtain w where "pm_run m E (CallThen (TickThen a t) e) (emit (ObservedError p e) s1) = ret w" "u = emit (ObservedStart p) w"
        by (auto simp: Check_def bindP_ret_iff)
      with tick_check_late [OF assms(1-3) ok new] show ?thesis by simp
    next
      case (FailsNow e)
      with assms(1) show ?thesis by (simp add: acyclic_env_def)
    qed
  qed
qed

lemma tick_lively:
  assumes "acyclic_env E rk R" "lively E {} Map.empty K P s" "timers s t = Some (a, False)" "timer_tick (pm_run n E) a t s = ret s'"
  shows "lively E {} Map.empty K P s'"
proof (cases "callbacks (app s a) = []")
  case True
  then have s': "s' = s\<lparr>timers := (timers s)(t := Some (a, True))\<rparr>"
    using assms(3,4) by (simp add: timer_tick_def timer_Close_def)
  have "lively E {a} Map.empty K P s'"
    unfolding s' by (rule lively_timer [OF lively_less [OF assms(2)] assms(3)]) simp_all
  with True show ?thesis unfolding lively_def s' by auto
next
  case waits: False
  show ?thesis
  proof (cases "is_checking (app s a)")
    case True
    with waits assms(2,4) show ?thesis by (simp add: timer_tick_def)
  next
    case False
    with waits assms(4) obtain u where "pm_run n E (CallCheck a (TickThen a t)) s = ret u" "s' = upd a (\<lambda>m. m\<lparr>is_checking := True\<rparr>) u"
      by (auto simp: timer_tick_def bindP_ret_iff)
    with tick_check_lively [OF assms(1-3)] show ?thesis by simp
  qed
qed

text \<open>A process that was killed to be restarted does not end with status 0.\<close>

fun restarts_ok :: "pm \<Rightarrow> pm_event \<Rightarrow> bool" where
  "restarts_ok s (EvExit pid c sg) = (\<forall>a. procs s pid = Some (AppProcess a) \<and> restart (app s a) \<longrightarrow> c \<noteq> 0 \<or> sg \<noteq> 0)"
| "restarts_ok s e = True"

abbreviation settled :: "pm_env \<Rightarrow> pm \<Rightarrow> bool" where
  "settled E s \<equiv> lively E {} Map.empty (\<lambda>_. 0) {} s"

lemma lively_doomed:
  assumes "lively E X V K {} s" "procs s pid \<noteq> None" "\<And>a k. procs s pid = Some (CheckProcess a k) \<Longrightarrow> a \<in> X"
  shows "lively E X V K {pid} s"
  by (rule lively_heap [OF assms(1)]) (use livelyD(2) [OF assms(1)] assms(2,3) in \<open>auto simp: heap_ok_def\<close>)

lemma lively_spared:
  assumes "lively E X V K P s"
  shows "lively E X V K {} s"
  by (rule lively_heap [OF assms]) (use livelyD(2) [OF assms] in \<open>simp_all add: heap_ok_def\<close>)

lemma check_exit_lively:
  assumes E: "acyclic_env E rk R" and l: "settled E s" and pid: "procs s pid = Some (CheckProcess a k)"
    and run: "process_exit (pm_run n E) pid c sg s = ret s'"
  shows "settled E s'"
proof -
  define st where "st = (if c \<noteq> 0 then c else sg)"
  let ?s = "emit (ObservedExit pid st sg) s"
  obtain u where u: "pm_run n E (CallThen k (int_of_int64 st)) ?s = ret u" "s' = delete_process pid u"
    using run pid by (auto simp: process_exit_def Let_def bindP_ret_iff st_def)
  have d: "lively E {a} Map.empty (\<lambda>_. 0) {pid} ?s"
    by (intro lively_emit lively_doomed lively_less [OF l]) (simp_all add: pid)
  have k: "check_ok s a k" using livelyD(2) [OF l] pid by (simp add: heap_ok_def)
  have "lively E {} Map.empty (\<lambda>_. 0) {pid} u"
  proof (cases k)
    case (ReqThen b)
    with lively_sees [OF run_lively [OF E] u(1), of a "{}"] d k show ?thesis by simp
  next
    case (TickThen b t)
    then have b: "k = TickThen a t" using k by simp
    with u(1) obtain m where m: "tick_then (pm_run m E) E a t (int_of_int64 st) ?s = ret u" by (cases n) (auto simp: call_then_def)
    have "check_ok ?s a (TickThen a t)" using k b by (simp add: emit_def)
    from tick_then_lively [OF E d this m]
    consider "lively E {} Map.empty (\<lambda>_. 0) {pid} u" | "u = upd a (\<lambda>m. m\<lparr>is_checking := False\<rparr>) ?s" by blast
    then show ?thesis
    proof cases
      case 2
      let ?u = "upd a (\<lambda>m. m\<lparr>is_checking := False\<rparr>) ?s"
      have "source E Map.empty (\<lambda>_. 0) {pid} ?u a" if "callbacks (app ?s a) \<noteq> []"
      proof -
        have "source E Map.empty (\<lambda>_. 0) {} ?s a" using livelyD(3) [OF lively_emit [OF l]] that by blast
        moreover have "outstanding E Map.empty ?u a = outstanding E Map.empty ?s a"
          by (rule outstanding_cong) (rule uncalled_upd, simp)
        moreover have "procs ?s pid \<noteq> Some (CheckProcess a (ReqThen a))" using pid b by (simp add: emit_def)
        ultimately show ?thesis by (auto simp: source_def ticking_def upd_def)
      qed
      then show ?thesis unfolding 2 by (intro check_flagged [OF d]) blast
    qed
  qed (use k in simp)
  then have "lively E {} Map.empty (\<lambda>_. 0) {pid} s'" unfolding u(2) by (rule lively_delete) simp
  then show ?thesis by (rule lively_spared)
qed

lemma handle_lively:
  assumes E: "acyclic_env E rk R" and l: "settled E s" and al: "pm_allowed s e" and ok: "restarts_ok s e"
    and run: "pm_handle (pm_run n E) e s = ret s'"
  shows "settled E s'"
proof (cases e)
  case (EvRequire c i)
  with lively_goD [OF run_lively [OF E], of n "CallRequire c (Client i)" s s' "{}" Map.empty "\<lambda>_. 0" "{}"] l run
  show ?thesis by (simp add: callback_ok_def)
next
  case (EvTick t)
  then obtain a where t: "timers s t = Some (a, False)" using al by auto
  then have "timer_tick (pm_run n E) a t s = ret s'" using run EvTick by simp
  with tick_lively [OF E l t] show ?thesis .
next
  case (EvError pid x)
  with run obtain a where "pm_run n E (CallError a pid x) s = ret s'" by (auto simp: process_error_def split: option.splits pkind.splits)
  moreover have "lively E {a} Map.empty (\<lambda>_. 0) {} s" by (rule lively_less [OF l]) simp
  ultimately show ?thesis using lively_sees [OF run_lively [OF E], of n "CallError a pid x" s s' a "{}"] by (simp add: above_def)
next
  case (EvExit pid c sg)
  then obtain k where k: "procs s pid = Some k" using al by auto
  have x: "process_exit (pm_run n E) pid c sg s = ret s'" using run EvExit by simp
  show ?thesis
  proof (cases k)
    case (AppProcess a)
    have "lively E {} Map.empty (\<lambda>_. 0) {pid} s" by (rule lively_doomed [OF l]) (simp_all add: k AppProcess)
    moreover have "pm_run n E (CallExit a pid c sg) s = ret s'" using x k AppProcess by (simp add: process_exit_def)
    moreover have "lively_pre E rk Map.empty {pid} (CallExit a pid c sg) s" using ok EvExit k AppProcess by auto
    ultimately have "lively E {} Map.empty (\<lambda>_. 0) {pid} s'" using lively_goD [OF run_lively [OF E]] by fastforce
    then show ?thesis by (rule lively_spared)
  next
    case (CheckProcess a j)
    with check_exit_lively [OF E l _ x] k show ?thesis by simp
  qed
next
  case (EvTimerClosed t)
  then obtain a where "timers s t = Some (a, True)" using al by auto
  from lively_timer [OF l this, of None] run EvTimerClosed show ?thesis by simp
next
  case (EvClock t)
  then have "s' = s\<lparr>now := t\<rparr>" using run by simp
  with lively_clock [OF l, of t] show ?thesis by simp
qed

interpretation lives: invariant_system pm_init "\<lambda>s e t. restarts_ok s e \<and> pm_step E s e t"
  "\<lambda>s. spawn_errors E \<and> acyclic_env E rk R \<longrightarrow> pm_good s \<and> settled E s" for E rk R
proof unfold_locales
  show "spawn_errors E \<and> acyclic_env E rk R \<longrightarrow> pm_good s \<and> settled E s" if "pm_init s" for s
    using that new_pm_good by (simp add: pm_init_def lively_def waits_ok_def heap_ok_def new_pm_def new_mapp_def)
  show "spawn_errors E \<and> acyclic_env E rk R \<longrightarrow> pm_good t \<and> settled E t"
    if "spawn_errors E \<and> acyclic_env E rk R \<longrightarrow> pm_good s \<and> settled E s" "restarts_ok s e \<and> pm_step E s e t" for s e t
    using that handle_lively [of E rk R s e] pms.inv_step [of s E e t] by (auto simp: pm_step_def)
qed

lemma run_restarts:
  "run (pm_step E) s es t \<Longrightarrow> \<forall>e\<in>set es. \<forall>s. restarts_ok s e \<Longrightarrow> run (\<lambda>s e t. restarts_ok s e \<and> pm_step E s e t) s es t"
  by (induction rule: run.induct) (auto intro: run.intros)

text \<open>Following the preambles that are waited for ends at an app that waits for none.\<close>

definition preambles :: "pm_env \<Rightarrow> (nat \<times> nat) set" where
  "preambles E = {(a, b). b \<in> set (app_preamble (conf E a))}"

definition under_way :: "pm \<Rightarrow> nat \<Rightarrow> bool" where
  "under_way s b \<longleftrightarrow>
     (\<exists>t. timers s t = Some (b, False)) \<and> (is_checking (app s b) \<longrightarrow> (\<exists>p t. procs s p = Some (CheckProcess b (TickThen b t))))
     \<or> (\<exists>p. procs s p = Some (CheckProcess b (ReqThen b)))
     \<or> restart (app s b) \<and> (\<exists>p. m_process (app s b) = Some p \<and> procs s p = Some (AppProcess b))"

lemma settled_chain:
  assumes "acyclic_env E rk R" "settled E s" "pointers_ok s" "callbacks (app s a) \<noteq> []"
  shows "\<exists>b. (a, b) \<in> (preambles E)\<^sup>* \<and> callbacks (app s b) \<noteq> [] \<and> under_way s b"
  using assms(4)
proof (induction "rk a" arbitrary: a rule: less_induct)
  case less
  have "source E Map.empty (\<lambda>_. 0) {} s a" using livelyD(3) [OF assms(2)] less.prems by blast
  then consider "under_way s a" | "0 < outstanding E Map.empty s a"
    using assms(3) unfolding source_def under_way_def ticking_def pointers_ok_def by auto
  then show ?case
  proof cases
    case 1
    with less.prems show ?thesis by blast
  next
    case 2
    then obtain c where c: "c \<in> set (app_preamble (conf E a))" "0 < count_list (callbacks (app s c)) (PreambleOf a)"
      by (auto simp: outstanding_def uncalled_def sum_eq_0_iff simp flip: neq0_conv)
    then have "callbacks (app s c) \<noteq> []" by auto
    moreover have "rk c < rk a" using assms(1) c(1) by (simp add: acyclic_env_def)
    ultimately obtain b where "(c, b) \<in> (preambles E)\<^sup>*" "callbacks (app s b) \<noteq> []" "under_way s b" using less.hyps by blast
    moreover have "(a, c) \<in> preambles E" using c(1) by (simp add: preambles_def)
    ultimately show ?thesis by (meson converse_rtrancl_into_rtrancl)
  qed
qed

section \<open>Properties\<close>

lemma waiting_under_way:
  assumes "spawn_errors E" "acyclic_env E rk R" "reach pm_init (\<lambda>s e t. restarts_ok s e \<and> pm_step E s e t) s" "waiting a s \<noteq> []"
  shows "\<exists>b. (a, b) \<in> (preambles E)\<^sup>* \<and> callbacks (app s b) \<noteq> [] \<and> under_way s b"
proof -
  from lives.reach_inv [OF assms(3), of rk R] assms(1,2) have "pm_good s" "settled E s" by blast+
  moreover have "callbacks (app s a) \<noteq> []" using assms(4) by (auto simp: waiting_def ProcessManagerAnswers.clients_def)
  ultimately show ?thesis using settled_chain [OF assms(2)] by (simp add: pm_good_def)
qed

text \<open>
  C5: no client is forgotten. Let the preambles be acyclic (each ranked below its app, the ranks
  bounded), let no start fail so early that the exit of the process is reported before \<open>Start\<close>
  returns (\<open>FailsNow\<close>: a \<open>uv_pipe_init\<close> that fails), let the errors of a start be other than 0, and
  let no process that was killed to be restarted end with status 0. Then in every state of a run
  of fault-free events in which somebody waits on an app there is something under way that leads on: a timer of the app
  that will check it, or a check whose end lets the timer go on, or the first check, or a process
  killed to be restarted whose exit is still to come; of the app itself or of one in the chain of
  preambles it waits for. \<open>cyclic_preambles\<close>, \<open>check_flag_stuck\<close> and \<open>graceful_exit_strands\<close> show
  clients who wait for good without these conditions.
\<close>

theorem no_client_forgotten:
  assumes "spawn_errors E" "acyclic_env E rk R" "reach pm_init (\<lambda>s e t. restarts_ok s e \<and> pm_step E s e t) s" "waiting a s \<noteq> []"
  shows "\<exists>b. (a, b) \<in> (preambles E)\<^sup>* \<and> callbacks (app s b) \<noteq> [] \<and> under_way s b"
  using waiting_under_way [OF assms] .

text \<open>The client of app 1 waits for the timer of its preamble, app 0, which has no checker.\<close>

theorem no_client_forgotten_witness:
  "\<exists>s. run (pm_step (sample_env\<lparr>conf := acyclic_conf\<rparr>)) new_pm [EvRequire 1 7, EvExit 0 1 0] s \<and> waiting 1 s = [7] \<and> \<not> under_way s 1
     \<and> (\<exists>b. (1, b) \<in> (preambles (sample_env\<lparr>conf := acyclic_conf\<rparr>))\<^sup>* \<and> callbacks (app s b) \<noteq> [] \<and> under_way s b)"
proof -
  let ?E = "sample_env\<lparr>conf := acyclic_conf\<rparr>" and ?es = "[EvRequire 1 7, EvExit 0 1 0]"
  have "\<exists>s. pm_exec 12 ?E ?es new_pm = ret s \<and> waiting 1 s = [7] \<and> \<not> under_way s 1"
    by (simp add: sample_simps acyclic_conf_def waiting_def clients_def under_way_def)
  then obtain s where s: "run (pm_step ?E) new_pm ?es s" "waiting 1 s = [7]" "\<not> under_way s 1" using pm_exec_run by blast
  have E: "spawn_errors ?E" "acyclic_env ?E (\<lambda>a. if a = 1 then 1 else 0) 2"
    by (auto simp: acyclic_env_def spawn_errors_def sample_env_def acyclic_conf_def)
  have "run (\<lambda>s e t. restarts_ok s e \<and> pm_step ?E s e t) new_pm ?es s" by (rule run_restarts [OF s(1)]) simp
  then have "reach pm_init (\<lambda>s e t. restarts_ok s e \<and> pm_step ?E s e t) s" by (rule run_reach) (simp add: reach_init pm_init_def)
  from no_client_forgotten [OF E this, of 1] s show ?thesis by auto
qed

text \<open>
  The flag that says that a check is running is set after \<open>Check\<close> returns, so a check that could
  not be started at all, whose continuation has cleared the flag by then, leaves it set: the
  timer never checks again, and the timeout, which only the continuation looks at, is not seen.
\<close>

theorem check_flag_stuck:
  "\<exists>s. run (pm_step (sample_env\<lparr>spawn := \<lambda>p. if p = 2 then FailsNow (- 24) else Started\<rparr>)) new_pm [EvRequire 4 7, EvExit 0 1 0, EvTick 0] s
     \<and> waiting 4 s = [7] \<and> \<not> under_way s 4
     \<and> (\<forall>n w. pm_handle (pm_run n (sample_env\<lparr>spawn := \<lambda>p. if p = 2 then FailsNow (- 24) else Started\<rparr>)) (EvTick 0) (s\<lparr>now := w\<rparr>) = ret (s\<lparr>now := w\<rparr>))"
proof -
  let ?E = "sample_env\<lparr>spawn := \<lambda>p. if p = 2 then FailsNow (- 24) else Started\<rparr>"
  have "\<exists>s. pm_exec 9 ?E [EvRequire 4 7, EvExit 0 1 0, EvTick 0] new_pm = ret s \<and> waiting 4 s = [7] \<and> \<not> under_way s 4
    \<and> (\<forall>n w. pm_handle (pm_run n ?E) (EvTick 0) (s\<lparr>now := w\<rparr>) = ret (s\<lparr>now := w\<rparr>))"
    by (simp add: sample_simps waiting_def clients_def under_way_def)
  then show ?thesis using pm_exec_run by blast
qed

end
