(* ===== verification/SystemProgress.thy ===== *)
theory SystemProgress
  imports SystemProps ProcessManagerLiveness
begin

text \<open>
  Progress of the composed system (theory \<open>Systems\<close>): what the process manager guarantees to
  those who wait on an app, seen from the connections of the proxies.
\<close>

section \<open>The manager of the system\<close>

lemma answer_pm: "answer l S = Inr T \<Longrightarrow> sy_pm T = sy_pm S"
  by (cases l) (auto simp: bindE_Inr_iff split: prod.splits)

lemma answers_pm: "answers ls S = Inr T \<Longrightarrow> sy_pm T = sy_pm S"
  by (induction ls arbitrary: S) (auto simp: bindE_Inr_iff dest: answer_pm)

lemma hand_over_pm: "hand_over p c xs S = Inr T \<Longrightarrow> sy_pm T = sy_pm S"
  by (induction xs arbitrary: S) (auto simp: bindE_Inr_iff)

text \<open>An app killed to be restarted does not end with status 0, as in the theory of the manager.\<close>

fun sys_restarts_ok :: "system \<Rightarrow> sys_event \<Rightarrow> bool" where
  "sys_restarts_ok S (SManager e) = restarts_ok (sy_pm S) e"
| "sys_restarts_ok S e = True"

lemma sys_step_pm:
  assumes "sys_step ups E S e T" "sys_restarts_ok S e"
  shows "sy_pm T = sy_pm S \<or> (\<exists>d. restarts_ok (sy_pm S) d \<and> pm_step E (sy_pm S) d (sy_pm T))"
  using assms(1)
proof cases
  case (accept_app p f W b m ls)
  from answers_pm [OF accept_app(6)] accept_app(4) restarts_ok.simps(2) show ?thesis by fastforce
next
  case (manager d m ls)
  from answers_pm [OF manager(5)] manager(1,3) assms(2) show ?thesis by auto
next
  case (dialling p c k d k' xs)
  from hand_over_pm [OF dialling(6)] show ?thesis by simp
qed simp_all

lemma sys_reach_pm:
  "reach sys_init (\<lambda>S e T. spawn_errors E \<and> sys_restarts_ok S e \<and> sys_step ups E S e T) S \<Longrightarrow>
     reach pm_init (\<lambda>s e t. restarts_ok s e \<and> pm_step E s e t) (sy_pm S)"
proof (induction rule: reach.induct)
  case (reach_init S)
  then show ?case by (simp add: reach.reach_init sys_init_def new_system_def pm_init_def)
next
  case (reach_step S e T)
  with sys_step_pm [of ups E S e T] show ?case by (metis (no_types, lifting) reach.reach_step)
qed

lemma sys_reach_less:
  "reach sys_init (\<lambda>S e T. spawn_errors E \<and> sys_restarts_ok S e \<and> sys_step ups E S e T) S \<Longrightarrow>
     reach sys_init (\<lambda>S e T. spawn_errors E \<and> sys_step ups E S e T) S"
  by (induction rule: reach.induct) (auto intro: reach.intros)

section \<open>Progress\<close>

text \<open>
  C37: no connection is left hanging, in the fault-free runs of the composed system in which no new forwarder is
  put at an address whose closures still wait, names are resolved before their clients close, and
  no process that was killed to be restarted ends with status 0; for configurations with acyclic
  preambles, and when no start fails so early that the exit is reported before \<open>Start\<close> returns
  and the errors of a start are other than 0. In every state of such a run a
  connection is settled (handed over, refused or closed), or its upstream is being dialled by a
  connector that has not answered and whose timer still runs, or it waits for the upstream's
  app, and then something that leads on to the answer is under way in the manager, for that app
  or for one in the chain of preambles it waits for.
\<close>

theorem system_progress:
  assumes "spawn_errors E" "acyclic_env E rk R"
    and "reach sys_init (\<lambda>S e T. spawn_errors E \<and> sys_restarts_ok S e \<and> sys_step ups E S e T) S"
    and "conn_stage (sy_proxies S p) c = Some st"
  shows "case st of
      Settled \<Rightarrow> True
    | Dialing \<Rightarrow> \<exists>k. sy_dials S p c = Some k \<and> thens k = [] \<and> tallowed k (TTick el dns)
    | Checking \<Rightarrow> \<exists>a b. up_app (ups p) = Some a \<and> conn_id p c \<in> set (waiting a (sy_pm S)) \<and> (a, b) \<in> (preambles E)\<^sup>*
        \<and> callbacks (app (sy_pm S) b) \<noteq> [] \<and> under_way (sy_pm S) b"
proof -
  have inv: "sys_inv ups E [] S" using systems.reach_inv [OF sys_reach_less [OF assms(3)]] .
  show ?thesis
  proof (cases st)
    case Checking
    with sys_invD(4) [OF inv, of p c] assms(4) obtain a where a: "up_app (ups p) = Some a" by (auto simp: dial_ok_def)
    with Checking assms(4) have "conn_id p c \<in> waits ups S a" by (simp add: waits_iff)
    with sys_invD(5) [OF inv, of a] have w: "conn_id p c \<in> set (waiting a (sy_pm S))" by (simp add: queue_ok_def)
    then have "waiting a (sy_pm S) \<noteq> []" by auto
    from waiting_under_way [OF assms(1,2) sys_reach_pm [OF assms(3)] this] a w Checking show ?thesis by auto
  next
    case Dialing
    with dialling_timer [OF inv] assms(4) show ?thesis by simp
  qed simp
qed

text \<open>In the sample run the first connection waits for the check of app 4, and the second one is settled.\<close>

lemma sys_exec_restarts:
  "sys_exec n ups E es S = Some T \<Longrightarrow> spawn_errors E \<Longrightarrow> \<forall>e\<in>set es. \<forall>S. sys_restarts_ok S e \<Longrightarrow>
     reach sys_init (\<lambda>S e T. spawn_errors E \<and> sys_restarts_ok S e \<and> sys_step ups E S e T) S \<Longrightarrow>
     reach sys_init (\<lambda>S e T. spawn_errors E \<and> sys_restarts_ok S e \<and> sys_step ups E S e T) T"
proof (induction es arbitrary: S)
  case (Cons e es)
  then obtain U where U: "sys_do n ups E S e = Some U" "sys_exec n ups E es U = Some T" by (auto split: option.splits)
  have "sys_restarts_ok S e" using Cons.prems(3) by simp
  with reach_step [OF Cons.prems(4)] sys_do_step [OF U(1)] Cons.prems(2)
  have "reach sys_init (\<lambda>S e T. spawn_errors E \<and> sys_restarts_ok S e \<and> sys_step ups E S e T) U" by blast
  with Cons.IH U(2) Cons.prems(2,3) show ?case by simp
qed simp

theorem system_progress_witness:
  "\<exists>S :: system. conn_stage (sy_proxies S 0) 0 = Some Checking \<and> conn_stage (sy_proxies S 1) 0 = Some Settled
     \<and> (\<exists>a b. up_app (sample_ups 0) = Some a \<and> conn_id 0 0 \<in> set (waiting a (sy_pm S)) \<and> callbacks (app (sy_pm S) b) \<noteq> []
       \<and> under_way (sy_pm S) b)"
proof -
  let ?E = "sample_env\<lparr>conf := acyclic_conf\<rparr>"
  have E: "spawn_errors ?E" "acyclic_env ?E (\<lambda>a. if a = 1 then 1 else 0) 2"
    by (auto simp: acyclic_env_def spawn_errors_def sample_env_def acyclic_conf_def)
  have "\<exists>S. sys_exec sample_fuel sample_ups ?E sample_run new_system = Some S
     \<and> conn_stage (sy_proxies S 0) 0 = Some Checking \<and> conn_stage (sy_proxies S 1) 0 = Some Settled"
    by (simp add: acyclic_conf_def system_sample_simps)
  then obtain S where S: "sys_exec sample_fuel sample_ups ?E sample_run new_system = Some S"
    "conn_stage (sy_proxies S 0) 0 = Some Checking" "conn_stage (sy_proxies S 1) 0 = Some Settled" by blast
  have "\<forall>e\<in>set sample_run. \<forall>S. sys_restarts_ok S e" by (simp add: sample_run_def)
  from sys_exec_restarts [OF S(1) E(1) this reach_init]
  have "reach sys_init (\<lambda>S e T. spawn_errors ?E \<and> sys_restarts_ok S e \<and> sys_step sample_ups ?E S e T) S" by (simp add: sys_init_def)
  from system_progress [OF E this S(2)] S(2,3) show ?thesis by (intro exI [of _ S]) auto
qed

end
