(* ===== verification/Shutdowns.thy ===== *)
theory Shutdowns
  imports TcpProxies
begin

text \<open>
  A proxy that is closed while it has connections. \<open>Nexer::Close\<close> (\<open>src/nexer.cc\<close>) closes the
  listening handle of a \<open>TcpProxy\<close>, whose close callback (\<open>Handle::OnClose\<close>, \<open>src/handle.cc\<close>)
  deletes the object; the connections it has accepted live on, with closures that use it:
  the close listener of each forwarder calls \<open>Remove\<close>, the two continuations of a connection
  ask \<open>Has\<close> and read the name and the upstream.
\<close>

section \<open>The proxy object\<close>

record served =
  sd_proxy :: proxy
  sd_closing :: bool
  sd_deleted :: bool

definition new_served :: served where
  "new_served = \<lparr>sd_proxy = new_proxy_object, sd_closing = False, sd_deleted = False\<rparr>"

datatype served_event = Within proxy_event | CloseServer | ServerDeleted

text \<open>Whether what happens at an event uses the members of the object.\<close>

fun touches :: "proxy \<Rightarrow> proxy_event \<Rightarrow> bool" where
  "touches W (PAccept f answer) = True"
| "touches W (PChecked c err) = True"
| "touches W (PConnected c up) = True"
| "touches W (PIncomingClose c) = False"
| "touches W (PIncomingClosed c) = (case live W (fwd_at (pconns W c)) of Some l \<Rightarrow> lf_outgoing l = None | None \<Rightarrow> False)"
| "touches W (POutgoingClosed f) = (case live W f of Some l \<Rightarrow> \<not> has_incoming l | None \<Rightarrow> False)"

fun served_handle :: "Upstream \<Rightarrow> served_event \<Rightarrow> served \<Rightarrow> fault + served" where
  "served_handle up (Within e) s =
     (if sd_deleted s \<and> touches (sd_proxy s) e then Inl UseAfterFree
      else bindE (proxy_handle up e (sd_proxy s)) (\<lambda>W. Inr (s\<lparr>sd_proxy := W\<rparr>)))"
| "served_handle up CloseServer s = (if sd_deleted s then Inl UseAfterFree else Inr (s\<lparr>sd_closing := True\<rparr>))"
| "served_handle up ServerDeleted s = Inr (s\<lparr>sd_deleted := True\<rparr>)"

text \<open>
  A closing handle accepts no more; \<open>Nexer\<close> forgets the proxies it closes, so it closes none
  that is deleted; libuv calls the close callback once.
\<close>

fun accepts :: "proxy_event \<Rightarrow> bool" where
  "accepts (PAccept f answer) = True"
| "accepts e = False"

fun served_allowed :: "served \<Rightarrow> served_event \<Rightarrow> bool" where
  "served_allowed s (Within e) = (proxy_allowed (sd_proxy s) e \<and> proxy_orderly (sd_proxy s) e \<and> (accepts e \<longrightarrow> \<not> sd_closing s))"
| "served_allowed s CloseServer = (\<not> sd_deleted s)"
| "served_allowed s ServerDeleted = (sd_closing s \<and> \<not> sd_deleted s)"

definition served_step :: "Upstream \<Rightarrow> served \<Rightarrow> served_event \<Rightarrow> served \<Rightarrow> bool" where
  "served_step up s e t \<longleftrightarrow> served_allowed s e \<and> served_handle up e s = Inr t"

definition served_init :: "served \<Rightarrow> bool" where
  "served_init s \<longleftrightarrow> s = new_served"

text \<open>No forwarder and no waiting closure is left.\<close>

definition idle :: "proxy \<Rightarrow> bool" where
  "idle W \<longleftrightarrow> (\<forall>f. live W f = None) \<and> (\<forall>c < next_conn W. pc_stage (pconns W c) = Settled)"

section \<open>Invariant\<close>

text \<open>A forwarder without its incoming connection still has the outgoing one.\<close>

definition halves :: "proxy \<Rightarrow> bool" where
  "halves W \<longleftrightarrow> (\<forall>f l. live W f = Some l \<longrightarrow> has_incoming l \<or> lf_outgoing l \<noteq> None)"

lemma halves_changes:
  assumes "halves W"
  shows "live V = live W \<Longrightarrow> halves V" "live V = (live W)(f := None) \<Longrightarrow> halves V"
    "live V = (live W)(f \<mapsto> l) \<Longrightarrow> has_incoming l \<or> lf_outgoing l \<noteq> None \<Longrightarrow> halves V"
  using assms unfolding halves_def by (metis fun_upd_apply option.distinct(1) option.inject)+

lemma gone_live: "forwarder_gone f W = Inr V \<Longrightarrow> live V = (live W)(f := None)"
  by (auto simp: forwarder_gone_def proxy_Remove_def split: if_splits)

lemma halves_incoming_closed:
  assumes "incoming_closed c W = Inr V" "halves W"
  shows "halves V"
proof -
  let ?f = "fwd_at (pconns W c)"
  obtain l where l: "live W ?f = Some l" using assms(1) by (cases "live W ?f") (auto simp: incoming_closed_def)
  show ?thesis
  proof (cases "lf_outgoing l = None")
    case True
    with assms(1) l have "live V = (live W)(?f := None)" by (auto simp: incoming_closed_def Let_def bindE_Inr_iff dest: gone_live)
    with halves_changes(2) [OF assms(2)] show ?thesis by blast
  next
    case False
    with assms(1) l have "live V = (live W)(?f \<mapsto> l\<lparr>has_incoming := False\<rparr>)" by (auto simp: incoming_closed_def Let_def)
    with halves_changes(3) [OF assms(2)] False show ?thesis by simp
  qed
qed

lemma halves_handle:
  assumes "proxy_handle up e W = Inr V" "halves W"
  shows "halves V"
proof (cases e)
  case (PIncomingClosed c)
  with halves_incoming_closed assms show ?thesis by simp
next
  case (PConnected c up)
  then have "proxy_connected c up W = Inr V" using assms(1) by simp
  then show ?thesis using halves_changes(1,3) [OF assms(2)]
    by (auto simp: proxy_connected_def incoming_Close_def Let_def split: if_splits option.splits)
next
  case (POutgoingClosed f)
  then have "outgoing_closed f W = Inr V" using assms(1) by simp
  then show ?thesis using halves_changes(2,3) [OF assms(2)]
    by (auto simp: outgoing_closed_def incoming_Close_def split: if_splits option.splits dest: gone_live)
next
  case (PAccept f answer)
  then have "proxy_OnConnection up f answer W = Inr V" using assms(1) by simp
  then have "live V = (live W)(f \<mapsto> \<lparr>lf_owner = next_conn W, has_incoming = True, lf_outgoing = None\<rparr>)"
    by (auto simp: proxy_OnConnection_def CheckUpstreamProcess_def proxy_checked_def incoming_Close_def Let_def
        split: if_splits option.splits)
  with halves_changes(3) [OF assms(2)] show ?thesis by simp
next
  case (PChecked c err)
  then have "live V = live W" using assms(1) by (auto simp: proxy_checked_def incoming_Close_def Let_def split: if_splits)
  with halves_changes(1) [OF assms(2)] show ?thesis by blast
next
  case (PIncomingClose c)
  then have "live V = live W" using assms(1) by (auto simp: incoming_Close_def split: if_splits)
  with halves_changes(1) [OF assms(2)] show ?thesis by blast
qed

definition served_inv :: "served \<Rightarrow> bool" where
  "served_inv s \<longleftrightarrow> proxy_inv (sd_proxy s) \<and> halves (sd_proxy s) \<and> (sd_deleted s \<longrightarrow> sd_closing s)"

interpretation serveds: invariant_system served_init "served_step up" served_inv for up
proof unfold_locales
  show "served_inv s" if "served_init s" for s
    using that proxy_inv_init by (simp add: served_init_def served_inv_def new_served_def halves_def proxy_init_def) (simp add: new_proxy_object_def)
  show "served_inv t" if inv: "served_inv s" and step: "served_step up s e t" for s e t
  proof (cases e)
    case (Within pe)
    with step obtain W where W: "proxy_handle up pe (sd_proxy s) = Inr W" "t = s\<lparr>sd_proxy := W\<rparr>"
      "proxy_allowed (sd_proxy s) pe" "proxy_orderly (sd_proxy s) pe"
      by (auto simp: served_step_def bindE_Inr_iff split: if_splits)
    with inv proxy_inv_handle [of "sd_proxy s" pe up] halves_handle [OF W(1)] show ?thesis
      by (auto simp: served_inv_def)
  qed (use inv step in \<open>auto simp: served_inv_def served_step_def split: if_splits\<close>)
qed

section \<open>After the object is deleted\<close>

text \<open>Events that do not use the object leave the forwarders and the waiting closures where they are.\<close>

definition lingering :: "proxy \<Rightarrow> proxy \<Rightarrow> bool" where
  "lingering W V \<longleftrightarrow> dom (live V) = dom (live W) \<and> next_conn V = next_conn W \<and> (\<forall>c. pc_stage (pconns V c) = pc_stage (pconns W c))"

lemma untouched_lingers:
  assumes "proxy_handle up e W = Inr V" "\<not> touches W e"
  shows "lingering W V"
proof (cases e)
  case (PIncomingClosed c)
  with assms show ?thesis
    by (cases "live W (fwd_at (pconns W c))") (auto simp: incoming_closed_def Let_def lingering_def dom_def split: if_splits)
next
  case (POutgoingClosed f)
  with assms show ?thesis
    by (cases "live W f") (auto simp: outgoing_closed_def incoming_Close_def lingering_def split: if_splits)
qed (use assms in \<open>auto simp: incoming_Close_def lingering_def split: if_splits\<close>)

lemma deleted_step:
  assumes "served_step up s e t" "sd_deleted s"
  shows "sd_deleted t \<and> lingering (sd_proxy s) (sd_proxy t)"
  using assms untouched_lingers by (cases e) (auto simp: served_step_def bindE_Inr_iff split: if_splits)

lemma deleted_run: "run (served_step up) s es t \<Longrightarrow> sd_deleted s \<Longrightarrow> sd_deleted t \<and> lingering (sd_proxy s) (sd_proxy t)"
proof (induction rule: run.induct)
  case (run_Cons s e t es u)
  from deleted_step [OF run_Cons.hyps(1) run_Cons.prems] run_Cons.IH show ?case
    by (simp add: lingering_def)
qed (simp add: lingering_def)

lemma lingering_idle: "lingering W V \<Longrightarrow> idle V \<longleftrightarrow> idle W"
  by (auto simp: lingering_def idle_def)

lemma idle_silent:
  assumes "served_inv s" "sd_deleted s" "idle (sd_proxy s)"
  shows "\<not> served_allowed s e"
proof (cases e)
  case (Within pe)
  have "in_deleted (pconns (sd_proxy s) c)" if "c < next_conn (sd_proxy s)" for c
    using proxy_invD(2) [of "sd_proxy s" c] assms(1,3) that by (auto simp: served_inv_def idle_def conn_ok_def Let_def)
  with Within assms show ?thesis by (cases pe) (auto simp: served_inv_def idle_def)
qed (use assms in \<open>simp_all add: served_inv_def\<close>)

text \<open>From a state where something is left, events lead to a use of the object.\<close>

definition faulty :: "Upstream \<Rightarrow> served \<Rightarrow> bool" where
  "faulty up s \<longleftrightarrow> (\<exists>es t e. run (served_step up) s es t \<and> served_allowed t e \<and> served_handle up e t = Inl UseAfterFree)"

lemma faulty_now: "served_allowed s e \<Longrightarrow> served_handle up e s = Inl UseAfterFree \<Longrightarrow> faulty up s"
  unfolding faulty_def by (intro exI conjI, rule run_Nil)

lemma faulty_next:
  assumes "served_step up s e t" "faulty up t"
  shows "faulty up s"
proof -
  from assms(2) obtain es u d where "run (served_step up) t es u" "served_allowed u d" "served_handle up d u = Inl UseAfterFree"
    unfolding faulty_def by blast
  moreover from this(1) have "run (served_step up) s (e # es) u" by (rule run_Cons [where step = "served_step up", OF assms(1)])
  ultimately show ?thesis unfolding faulty_def by blast
qed

lemma faulty_waiting:
  assumes "sd_deleted s" "c < next_conn (sd_proxy s)" "pc_stage (pconns (sd_proxy s) c) \<noteq> Settled"
  shows "faulty up s"
proof (cases "pc_stage (pconns (sd_proxy s) c)")
  case Checking
  with assms show ?thesis by (intro faulty_now [of s "Within (PChecked c 0)"]) simp_all
next
  case Dialing
  with assms show ?thesis by (intro faulty_now [of s "Within (PConnected c False)"]) simp_all
qed (use assms in simp)

lemma faulty_incoming:
  assumes "sd_deleted s" "c < next_conn (sd_proxy s)" "\<not> in_deleted (pconns (sd_proxy s) c)" "in_closing (pconns (sd_proxy s) c)"
    "live (sd_proxy s) (fwd_at (pconns (sd_proxy s) c)) = Some l" "lf_outgoing l = None"
  shows "faulty up s"
  using assms by (intro faulty_now [of s "Within (PIncomingClosed c)"]) simp_all

lemma faulty_live:
  assumes "served_inv s" "sd_deleted s" "live (sd_proxy s) f = Some l"
  shows "faulty up s"
proof (cases "has_incoming l")
  case False
  with assms have "lf_outgoing l \<noteq> None" by (auto simp: served_inv_def halves_def)
  with False assms(2,3) show ?thesis by (intro faulty_now [of s "Within (POutgoingClosed f)"]) simp_all
next
  case True
  let ?W = "sd_proxy s" and ?c = "lf_owner l"
  have c: "?c < next_conn ?W" "fwd_at (pconns ?W ?c) = f" "\<not> in_deleted (pconns ?W ?c)"
    using proxy_invD(3) [of ?W f] assms(1,3) True by (auto simp: served_inv_def lfwd_ok_def)
  show ?thesis
  proof (cases "lf_outgoing l = None")
    case None: True
    let ?t = "s\<lparr>sd_proxy := set_pconn ?c (\<lambda>k. k\<lparr>in_closing := True\<rparr>) ?W\<rparr>"
    have "served_step up s (Within (PIncomingClose ?c)) ?t"
      using c assms(2) by (simp add: served_step_def incoming_Close_def)
    then show ?thesis
      by (rule faulty_next) (rule faulty_incoming [of _ ?c l], use c assms(2,3) None in simp_all)
  next
    case False
    let ?t = "s\<lparr>sd_proxy := set_pconn ?c (\<lambda>k. k\<lparr>in_closing := True\<rparr>) (?W\<lparr>live := (live ?W)(f \<mapsto> l\<lparr>lf_outgoing := None\<rparr>)\<rparr>)\<rparr>"
    have "served_step up s (Within (POutgoingClosed f)) ?t"
      using c assms(2,3) True False by (simp add: served_step_def outgoing_closed_def incoming_Close_def)
    then show ?thesis
      by (rule faulty_next) (rule faulty_incoming [of _ ?c "l\<lparr>lf_outgoing := None\<rparr>"], use c assms(2,3) in simp_all)
  qed
qed

section \<open>Property\<close>



end
