(* ===== verification/ProcessManagerVerdicts.thy ===== *)
theory ProcessManagerVerdicts
  imports ProcessManagerClaims
begin

text \<open>
  What the clients are told. \<open>ProcessManagerAnswers\<close> has the order of the answers and when one
  may be success; here each event that settles an app, the end of a check, an error or the end
  of the app's own process, is shown to give its own result to everybody who waits.
\<close>

section \<open>Results\<close>

fun result :: "nat \<Rightarrow> pm_log \<Rightarrow> (nat \<times> int) list" where
  "result b (Called i a p e) = (if a = b then [(i, e)] else [])"
| "result b l = []"

text \<open>The clients told about app \<open>b\<close>, each with the error it was told.\<close>

definition results :: "nat \<Rightarrow> pm_log list \<Rightarrow> (nat \<times> int) list" where
  "results b l = concat (map (result b) l)"

lemma results_simps [simp]: "results b [] = []" "results b (l # ls) = result b l @ results b ls"
  "results b (ls @ ls') = results b ls @ results b ls'"
  by (simp_all add: results_def)

lemma results_none: "answered b l = [] \<Longrightarrow> results b l = []"
proof (induction l)
  case (Cons x l)
  then show ?case by (cases x) auto
qed simp

text \<open>
  Whatever a callback of another app sets going, while the vector of app \<open>a\<close> is walked nobody
  but its own callbacks is told about \<open>a\<close>.
\<close>

lemma callback_results:
  assumes "spawn_errors E" "pm_run n E (CallCallback cb a p err) s = ret t" "checks_ok s" "callbacks (app t a) = callbacks (app s a)"
  shows "\<exists>l. out t = out s @ l \<and> results a l = map (\<lambda>i. (i, err)) (client cb) \<and> checks_ok t"
proof (cases cb)
  case (Client i)
  from assms(2) have "t = emit (Called i a p err) s"
    by (cases n) (simp_all add: Client call_callback_def)
  with Client assms(3) show ?thesis by (auto simp: emit_def checks_ok_def)
next
  case (PreambleOf par)
  from run_call [OF assms(1-3)] obtain l where l: "out t = out s @ l" "checks_ok t"
    "\<forall>b. (if b = a then client cb else []) @ waiting b s = answered b l @ waiting b t"
    unfolding effect_def by auto
  from spec [OF l(3), of a] have "answered a l = []" using PreambleOf assms(4) by (simp add: waiting_def)
  with l PreambleOf results_none show ?thesis by auto
qed

lemma loop_results:
  "spawn_errors E \<Longrightarrow> pm_run n E (CallLoop a orig cbs err) s = ret t \<Longrightarrow> checks_ok s \<Longrightarrow> callbacks (app s a) = orig \<Longrightarrow>
   \<exists>l. out t = out s @ l \<and> results a l = map (\<lambda>i. (i, err)) (clients cbs)"
proof (induction cbs arbitrary: n s)
  case Nil
  then show ?case by (cases n) (auto simp: callback_loop_def)
next
  case (Cons cb rest)
  obtain m where m: "n = Suc m" using Cons.prems(2) by (cases n) auto
  obtain u where u: "pm_run m E (CallCallback cb a (m_process (app s a)) err) s = ret u" "callbacks (app u a) = orig"
    "pm_run m E (CallLoop a orig rest err) u = ret t"
    using Cons.prems(2) m by (auto simp: callback_loop_def bindP_ret_iff split: if_splits)
  from callback_results [OF Cons.prems(1) u(1) Cons.prems(3)] Cons.prems(4) u(2) obtain l where
    l: "out u = out s @ l" "results a l = map (\<lambda>i. (i, err)) (client cb)" "checks_ok u" by auto
  from Cons.IH [OF Cons.prems(1) u(3) l(3) u(2)] obtain l' where
    "out t = out u @ l'" "results a l' = map (\<lambda>i. (i, err)) (clients rest)" by blast
  with l show ?case by (intro exI [of _ "l @ l'"]) simp
qed

lemma clear_results:
  assumes "spawn_errors E" "pm_run n E (CallClear a err) s = ret t" "checks_ok s"
  shows "\<exists>l. out t = out s @ l \<and> results a l = map (\<lambda>i. (i, err)) (waiting a s) \<and> callbacks (app t a) = []"
proof -
  obtain m where m: "n = Suc m" using assms(2) by (cases n) auto
  obtain u where u: "pm_run m E (CallLoop a (callbacks (app s a)) (callbacks (app s a)) err) s = ret u"
    "t = upd a (\<lambda>m. m\<lparr>callbacks := []\<rparr>) u"
    using assms(2) m by (auto simp: ClearCallbacks_def bindP_ret_iff)
  from loop_results [OF assms(1) u(1) assms(3) refl] u(2) show ?thesis by (auto simp: waiting_def upd_def)
qed

section \<open>Events that settle an app\<close>

text \<open>
  The app an event settles, with the result: a check that succeeds, one of a timer that finds
  no program or comes after the start timeout, an error of the app's process, and the end of
  an app without a checker with a status other than 0.
\<close>

definition check_settles :: "pm_env \<Rightarrow> pm \<Rightarrow> kont \<Rightarrow> int \<Rightarrow> bool" where
  "check_settles E s k err = (case k of
     ReqThen a \<Rightarrow> err = 0 \<and> (app_checker (conf E a) \<noteq> None \<or> m_process (app s a) \<noteq> None)
   | TickThen a tid \<Rightarrow> err = 0 \<or> err = - ENOENT \<or> start_timeout (conf E a) (require_start_time (app s a)) (now s)
   | StartThen a \<Rightarrow> False)"

fun verdict :: "pm_env \<Rightarrow> pm \<Rightarrow> pm_event \<Rightarrow> (nat \<times> int) option" where
  "verdict E s (EvExit pid c sg) =
     (let st = (if c \<noteq> 0 then c else sg) in
      case procs s pid of
        Some (CheckProcess a k) \<Rightarrow> if check_settles E s k (int_of_int64 st) then Some (a, int_of_int64 st) else None
      | Some (AppProcess a) \<Rightarrow> if st \<noteq> 0 \<and> \<not> restart (app s a) \<and> app_checker (conf E a) = None
                               then Some (a, int_of_int64 st) else None
      | None \<Rightarrow> None)"
| "verdict E s (EvError pid e) =
     (case procs s pid of Some (AppProcess a) \<Rightarrow> Some (a, e) | _ \<Rightarrow> None)"
| "verdict E s e = None"

text \<open>All who wait for app \<open>a\<close> are told \<open>r\<close>, in order, and then nobody waits.\<close>

definition delivered :: "nat \<Rightarrow> int \<Rightarrow> pm \<Rightarrow> pm \<Rightarrow> bool" where
  "delivered a r s t \<longleftrightarrow> (\<exists>l. out t = out s @ l \<and> results a l = map (\<lambda>i. (i, r)) (waiting a s)) \<and> callbacks (app t a) = []"

lemma delivered_frame:
  assumes "delivered a r u v" "out u = out s @ l" "results a l = []" "callbacks (app u a) = callbacks (app s a)"
    and "out t = out v" "callbacks (app t a) = callbacks (app v a)"
  shows "delivered a r s t"
proof -
  obtain l' where "out v = out u @ l'" "results a l' = map (\<lambda>i. (i, r)) (waiting a u)" "callbacks (app v a) = []"
    using assms(1) by (auto simp: delivered_def)
  with assms(2-6) show ?thesis by (auto simp: delivered_def waiting_def intro!: exI [of _ "l @ l'"])
qed

lemma clear_delivered:
  assumes "spawn_errors E" "pm_run n E (CallClear a r) u = ret v" "checks_ok u"
    and "out u = out s @ l" "results a l = []" "callbacks (app u a) = callbacks (app s a)"
    and "out t = out v" "callbacks (app t a) = callbacks (app v a)"
  shows "delivered a r s t"
  using clear_results [OF assms(1-3)] by (intro delivered_frame [OF _ assms(4-8)]) (auto simp: delivered_def)

lemma pm_run_step: "pm_run n E c s = ret t \<Longrightarrow> \<exists>m. pm_call (pm_run m E) E c s = ret t"
  by (cases n) auto

lemma then_delivered:
  assumes "spawn_errors E" "checks_ok s" "own_check a k" "check_settles E s k r"
    and run: "pm_run n E (CallThen k r) s = ret t"
  shows "delivered a r s t"
proof -
  obtain m where m: "call_then (pm_run m E) E k r s = ret t" using pm_run_step [OF run] by auto
  show ?thesis
  proof (cases k)
    case (ReqThen b)
    then have "b = a" using assms(3) by (auto simp: own_check_def)
    with ReqThen m assms(4) have "pm_run m E (CallClear a r) s = ret t"
      by (auto simp: call_then_def require_then_def check_settles_def)
    from clear_delivered [OF assms(1) this assms(2), where s = s] show ?thesis by simp
  next
    case (TickThen b tid)
    then have b: "b = a" using assms(3) by (auto simp: own_check_def)
    with TickThen m assms(4) obtain u v where uv: "timer_Close tid s = ret u"
      "pm_run m E (CallClear a r) (upd a (\<lambda>m. m\<lparr>checker_timer := None\<rparr>) u) = ret v"
      "t = upd a (\<lambda>m. m\<lparr>is_checking := False\<rparr>) v"
      by (auto simp: call_then_def tick_then_def check_settles_def bindP_ret_iff)
    have u: "app u = app s" "out u = out s" "procs u = procs s"
      using uv(1) by (auto simp: timer_Close_def split: option.splits)
    have "checks_ok (upd a (\<lambda>m. m\<lparr>checker_timer := None\<rparr>) u)" using assms(2) u by (simp add: checks_ok_def upd_def)
    from clear_delivered [OF assms(1) uv(2) this, where s = s and l = "[]" and t = t] u uv(3) show ?thesis by (simp add: upd_def)
  qed (use assms(4) in \<open>simp add: check_settles_def\<close>)
qed

lemma verdict_delivered:
  assumes err: "spawn_errors E" and ok: "checks_ok s" and h: "pm_handle (pm_run n E) e s = ret t" and v: "verdict E s e = Some (a, r)"
  shows "delivered a r s t"
  using h
proof (cases rule: pm_handle_cases)
  case (error pid x b)
  then have ab: "b = a" "x = r" using v by simp_all
  let ?u = "emit (ObservedError pid r) (upd a (\<lambda>m. m\<lparr>m_process := None\<rparr>) s)"
  obtain m where "pm_run m E (CallClear a r) ?u = ret t" using pm_run_step [OF error(3)] ab by (auto simp: app_error_def)
  then show ?thesis using ok by (rule_tac clear_delivered [OF err, where u = ?u and l = "[ObservedError pid r]"])
    (auto simp: checks_ok_def upd_def emit_def)
next
  case (app_exit pid c sg b)
  let ?st = "if c \<noteq> 0 then c else sg"
  have ab: "b = a" "?st \<noteq> 0" "\<not> restart (app s a)" "app_checker (conf E a) = None" "r = int_of_int64 ?st"
    using v app_exit(1,2) by (auto simp: Let_def split: if_splits)
  let ?u = "upd a (\<lambda>m. m\<lparr>m_process := None\<rparr>) (emit (ObservedExit pid ?st sg) s)"
  have same: "restart (app ?u a) = restart (app s a)" by (simp add: upd_def emit_def)
  obtain m where "pm_run m E (CallClear a r) ?u = ret t \<or> (\<exists>w. pm_run m E (CallClear a r) ?u = ret w \<and> t = delete_process pid w)"
    using pm_run_step [OF app_exit(3)] ab same by (auto simp: app_exit_def Let_def bindP_ret_iff simp del: if_split)
  then obtain w where "pm_run m E (CallClear a r) ?u = ret w" "out t = out w" "callbacks (app t a) = callbacks (app w a)"
    by (auto simp: delete_process_def)
  then show ?thesis using ok by (rule_tac clear_delivered [OF err, where u = ?u and v = w and l = "[ObservedExit pid ?st sg]"])
    (auto simp: checks_ok_def upd_def emit_def)
next
  case (check_exit pid c sg st b k u)
  let ?u = "emit (ObservedExit pid st sg) s"
  have ab: "b = a" "r = int_of_int64 st" "check_settles E s k r"
    using v check_exit(1-3) by (auto simp: Let_def split: if_splits)
  have "own_check a k" using ok check_exit(2) ab(1) by (auto simp: checks_ok_def)
  moreover have "check_settles E ?u k r" using ab(3) by (simp add: check_settles_def emit_def split: kont.splits)
  moreover have "checks_ok ?u" using ok by (simp add: checks_ok_def emit_def)
  ultimately have "delivered a r ?u u" using then_delivered [OF err] check_exit(5) ab(2) by blast
  then show ?thesis by (rule delivered_frame [where l = "[ObservedExit pid st sg]"])
    (simp_all add: check_exit(4) emit_def delete_process_def)
qed (use v in auto)

section \<open>Properties\<close>

text \<open>
  C4: every event that settles an app gives its own result to all who wait. In every reachable
  state, when a check of an app succeeds, when the check of a start finds no program or ends
  after the start timeout, when the app's process reports an error, or when an app without a
  checker ends with a status other than 0 and is not to be restarted, then all clients waiting
  for that app are told that very status, each once, in the order they asked, nobody else is
  told anything about the app, and afterwards no callback waits on it.
\<close>

theorem process_result_delivered:
  assumes "spawn_errors E" "run (pm_step E) new_pm es s" "pm_step E s e t" "verdict E s e = Some (a, r)"
  shows "(\<exists>l. out t = out s @ l \<and> results a l = map (\<lambda>i. (i, r)) (waiting a s)) \<and> callbacks (app t a) = []"
proof -
  have "checks_ok s" using run_pm_good [OF assms(2,1) new_pm_good] by (simp add: pm_good_def)
  moreover obtain n where "pm_handle (pm_run n E) e s = ret t" using assms(3) by (auto simp: pm_step_def)
  ultimately show ?thesis using verdict_delivered [OF assms(1) _ _ assms(4)] by (simp add: delivered_def)
qed

theorem process_result_delivered_witness:
  "\<exists>s t l. run (pm_step sample_env) new_pm sample_events s \<and> pm_step sample_env s (EvExit 2 0 0) t
     \<and> verdict sample_env s (EvExit 2 0 0) = Some (4, 0) \<and> out t = out s @ l \<and> results 4 l = [(7, 0), (8, 0)]"
proof -
  obtain s t where s: "pm_exec 9 sample_env sample_events new_pm = ret s" "procs s 2 = Some (CheckProcess 4 (TickThen 4 0))"
    "waiting 4 s = [7, 8]" "pm_exec 9 sample_env [EvExit 2 0 0] s = ret t"
    using sample_checked by blast
  have step: "pm_step sample_env s (EvExit 2 0 0) t"
    using s(4) by (auto simp: pm_step_def bindP_ret_iff split: if_splits)
  have v: "verdict sample_env s (EvExit 2 0 0) = Some (4, 0)" using s(2) by (simp add: check_settles_def)
  from process_result_delivered [OF sample_env_errors pm_exec_run [OF s(1)] step v] s(3)
  show ?thesis using pm_exec_run [OF s(1)] step v by auto
qed

end
