(* ===== verification/ProcessManagerSleep.thy ===== *)
theory ProcessManagerSleep
  imports ProcessManagerClaims
begin

text \<open>
  Apps that are asleep for good: nothing of theirs runs, no timer of theirs is open, and whoever
  requires one is only added to those who wait. Every event, of these apps and of all others,
  keeps that. Two things put apps to sleep: preambles that form a cycle, and a process that was
  killed to be restarted and ends with status 0.
\<close>

section \<open>Sleeping apps\<close>

text \<open>An app without a checker all of whose preambles, one at least, are in \<open>A\<close>.\<close>

definition preambles_within :: "pm_env \<Rightarrow> nat set \<Rightarrow> nat \<Rightarrow> bool" where
  "preambles_within E A a \<longleftrightarrow> app_checker (conf E a) = None \<and> app_preamble (conf E a) \<noteq> [] \<and> set (app_preamble (conf E a)) \<subseteq> A"

definition dormant :: "nat \<Rightarrow> pm \<Rightarrow> bool" where
  "dormant a s \<longleftrightarrow> m_process (app s a) = None
     \<and> (\<forall>q. procs s q \<noteq> Some (AppProcess a) \<and> (\<forall>k. procs s q \<noteq> Some (CheckProcess a k)))
     \<and> (\<forall>t. timers s t \<noteq> Some (a, False))"

text \<open>
  The apps of \<open>A\<close> are asleep: a preamble of theirs that would wake them is in \<open>A\<close> itself, and
  \<open>L\<close> gives the clients that have been answered, which stay the same.
\<close>

definition asleep :: "pm_env \<Rightarrow> nat set \<Rightarrow> (nat \<Rightarrow> nat list) \<Rightarrow> pm \<Rightarrow> bool" where
  "asleep E A L s \<longleftrightarrow> checks_ok s
     \<and> (\<forall>a\<in>A. dormant a s \<and> (callbacks (app s a) \<noteq> [] \<or> preambles_within E A a) \<and> answered a (out s) = L a)
     \<and> (\<forall>a\<in>A. \<forall>b. PreambleOf a \<in> set (callbacks (app s b)) \<longrightarrow> b \<in> A)"

definition woken_by :: "nat set \<Rightarrow> callback \<Rightarrow> bool" where
  "woken_by A cb \<longleftrightarrow> (\<exists>a\<in>A. cb = PreambleOf a)"

lemma asleepD:
  assumes "asleep E A L s"
  shows "checks_ok s" "a \<in> A \<Longrightarrow> dormant a s" "a \<in> A \<Longrightarrow> callbacks (app s a) = [] \<Longrightarrow> preambles_within E A a"
    "a \<in> A \<Longrightarrow> answered a (out s) = L a" "b \<notin> A \<Longrightarrow> cb \<in> set (callbacks (app s b)) \<Longrightarrow> \<not> woken_by A cb"
  using assms by (auto simp: asleep_def woken_by_def)

section \<open>Changes of the state\<close>

lemma asleep_upd:
  assumes "asleep E A L s" "set (callbacks (f (app s b))) \<subseteq> set (callbacks (app s b))"
    and "b \<in> A \<Longrightarrow> m_process (f (app s b)) = m_process (app s b) \<and> callbacks (f (app s b)) = callbacks (app s b)"
  shows "asleep E A L (upd b f s)"
  using assms unfolding asleep_def dormant_def checks_ok_def upd_def by auto

lemma asleep_push:
  assumes "asleep E A L s" "woken_by A cb \<Longrightarrow> b \<in> A"
  shows "asleep E A L (upd b (\<lambda>m. m\<lparr>callbacks := callbacks m @ [cb]\<rparr>) s)"
  using assms unfolding asleep_def dormant_def checks_ok_def upd_def woken_by_def by auto

lemma asleep_emit: "asleep E A L s \<Longrightarrow> \<forall>a\<in>A. told a l = [] \<Longrightarrow> asleep E A L (emit l s)"
  by (auto simp: asleep_def dormant_def checks_ok_def emit_def)

lemma asleep_delete: "asleep E A L s \<Longrightarrow> asleep E A L (delete_process p s)"
  by (auto simp: asleep_def dormant_def checks_ok_def delete_process_def)

lemma asleep_check:
  "asleep E A L s \<Longrightarrow> c \<notin> A \<Longrightarrow> own_check c k
    \<Longrightarrow> asleep E A L (s\<lparr>procs := (procs s)(next_pid s \<mapsto> CheckProcess c k), next_pid := Suc (next_pid s)\<rparr>)"
  by (auto simp: asleep_def dormant_def checks_ok_def)

lemma asleep_launched: "asleep E A L s \<Longrightarrow> b \<notin> A \<Longrightarrow> asleep E A L (launched b s)"
  unfolding asleep_def dormant_def checks_ok_def launched_def state_defs by auto

lemma asleep_timers:
  "asleep E A L s \<Longrightarrow> (\<And>a. T t \<noteq> Some (a, False)) \<Longrightarrow> (\<And>i. i \<noteq> t \<Longrightarrow> T i = timers s i) \<Longrightarrow> asleep E A L (s\<lparr>timers := T\<rparr>)"
  unfolding asleep_def dormant_def checks_ok_def by (simp, metis)

lemma asleep_clock: "asleep E A L s \<Longrightarrow> asleep E A L (s\<lparr>now := w\<rparr>)"
  by (simp add: asleep_def dormant_def checks_ok_def)

section \<open>Calls\<close>

text \<open>What the calls made while the apps of \<open>A\<close> sleep are about.\<close>

fun sleep_pre :: "pm_env \<Rightarrow> nat set \<Rightarrow> call \<Rightarrow> bool" where
  "sleep_pre E A (CallClear b e) \<longleftrightarrow> b \<notin> A"
| "sleep_pre E A (CallLoop b orig cbs e) \<longleftrightarrow> b \<notin> A \<and> (\<forall>cb\<in>set cbs. \<not> woken_by A cb)"
| "sleep_pre E A (CallCallback cb b p e) \<longleftrightarrow> b \<notin> A \<and> \<not> woken_by A cb"
| "sleep_pre E A (CallThen (StartThen b) e) \<longleftrightarrow> b \<notin> A"
| "sleep_pre E A (CallThen (ReqThen b) e) \<longleftrightarrow> b \<notin> A \<or> preambles_within E A b \<and> e = 0"
| "sleep_pre E A (CallThen (TickThen b t) e) \<longleftrightarrow> b \<notin> A"
| "sleep_pre E A (CallError b pid e) \<longleftrightarrow> b \<notin> A"
| "sleep_pre E A (CallExit b pid st sg) \<longleftrightarrow> b \<notin> A"
| "sleep_pre E A (CallStart b) \<longleftrightarrow> b \<notin> A \<or> preambles_within E A b"
| "sleep_pre E A (CallCheckPreamble b) \<longleftrightarrow> b \<notin> A \<or> preambles_within E A b"
| "sleep_pre E A (CallRequireEach b cs) \<longleftrightarrow> b \<notin> A \<or> set cs \<subseteq> A"
| "sleep_pre E A (CallRequire c cb) \<longleftrightarrow> (woken_by A cb \<longrightarrow> c \<in> A)"
| "sleep_pre E A (CallCheck c k) \<longleftrightarrow> c \<notin> A \<and> own_check c k \<or> preambles_within E A c \<and> k = ReqThen c"

definition sleeps :: "pm_env \<Rightarrow> nat set \<Rightarrow> (nat \<Rightarrow> nat list) \<Rightarrow> pm outcome \<Rightarrow> bool" where
  "sleeps E A L r \<longleftrightarrow> (\<forall>t. r = ret t \<longrightarrow> asleep E A L t)"

definition sleeps_go :: "pm_env \<Rightarrow> nat set \<Rightarrow> (nat \<Rightarrow> nat list) \<Rightarrow> caller \<Rightarrow> bool" where
  "sleeps_go E A L go \<longleftrightarrow> (\<forall>c s. asleep E A L s \<longrightarrow> sleep_pre E A c \<longrightarrow> sleeps E A L (go c s))"

lemma sleeps_simps [simp]:
  "sleeps E A L None" "sleeps E A L (Some (Inl f))" "sleeps E A L (ret s) = asleep E A L s"
  by (simp_all add: sleeps_def)

lemma sleeps_bind: "sleeps E A L r \<Longrightarrow> (\<And>s. asleep E A L s \<Longrightarrow> sleeps E A L (f s)) \<Longrightarrow> sleeps E A L (bindP r f)"
  by (auto simp: sleeps_def bindP_ret_iff)

lemma sleeps_call: "sleeps_go E A L go \<Longrightarrow> asleep E A L s \<Longrightarrow> sleep_pre E A c \<Longrightarrow> sleeps E A L (go c s)"
  by (simp add: sleeps_go_def)

lemma sleeps_timer: "asleep E A L s \<Longrightarrow> sleeps E A L (timer_Close t s)"
  by (auto simp: timer_Close_def split: option.split intro!: asleep_timers [where t = t])

lemma sleeps_kill: "asleep E A L s \<Longrightarrow> sleeps E A L (process_Kill p s)"
  by (simp add: process_Kill_def asleep_emit)

lemma method_sleeps:
  assumes "sleeps_go E A L go" "asleep E A L s" "sleep_pre E A c"
  shows "sleeps E A L (pm_call go E c s)"
proof -
  note call = sleeps_call [OF assms(1)]
  note rules = call sleeps_bind sleeps_timer sleeps_kill asleep_upd asleep_emit asleep_delete assms(2)
  show ?thesis
  proof (cases c)
    case (CallClear a e)
    with assms(3) asleepD(5) [OF assms(2)] show ?thesis by (auto simp: ClearCallbacks_def intro!: rules)
  next
    case (CallLoop a orig cbs e)
    with assms(3) show ?thesis by (cases cbs) (auto simp: callback_loop_def intro!: rules)
  next
    case (CallCallback cb a p e)
    with assms(3) show ?thesis
      by (cases cb) (auto simp: call_callback_def preamble_callback_def Let_def woken_by_def intro!: rules)
  next
    case (CallThen k e)
    show ?thesis
    proof (cases k)
      case (StartThen a)
      with CallThen assms(3) asleep_launched [OF assms(2)] show ?thesis
        by (cases "spawn E (next_pid s)") (auto simp: call_then_def start_then_alt intro!: rules)
    next
      case (ReqThen a)
      have "m_process (app s a) = None" if "a \<in> A" using asleepD(2) [OF assms(2) that] by (simp add: dormant_def)
      with ReqThen CallThen assms(3) show ?thesis
        by (auto simp: call_then_def require_then_def preambles_within_def intro!: rules split: option.split)
    next
      case (TickThen a t)
      with CallThen assms(3) show ?thesis by (auto simp: call_then_def tick_then_def intro!: rules)
    qed
  next
    case (CallError a pid e)
    with assms(3) show ?thesis by (auto simp: app_error_def intro!: rules)
  next
    case (CallExit a pid st sg)
    with assms(3) show ?thesis by (auto simp: app_exit_def Let_def intro!: rules)
  next
    case (CallStart a)
    with assms(3) show ?thesis by (auto simp: pm_Start_def intro!: rules)
  next
    case (CallCheckPreamble a)
    with assms(3) show ?thesis by (auto simp: CheckPreamble_def Let_def preambles_within_def intro!: rules)
  next
    case (CallRequireEach a cs)
    with assms(3) show ?thesis by (cases cs) (auto simp: require_each_def woken_by_def intro!: rules)
  next
    case (CallRequire c' cb)
    let ?t = "upd c' (\<lambda>m. m\<lparr>callbacks := callbacks m @ [cb]\<rparr>) s"
    have t: "asleep E A L ?t" using asleep_push [OF assms(2)] assms(3) CallRequire by simp
    have "sleep_pre E A (CallCheck c' (ReqThen c'))" if "callbacks (app s c') = []"
      using asleepD(3) [OF assms(2) _ that] by (auto simp: own_check_def)
    with t CallRequire show ?thesis by (auto simp: Require_def Let_def upd_def intro!: call)
  next
    case (CallCheck c' k)
    show ?thesis
    proof (cases "c' \<in> A")
      case True
      with CallCheck assms(3) show ?thesis by (auto simp: Check_def preambles_within_def intro!: rules)
    next
      case False
      have k: "sleep_pre E A (CallThen k e)" for e using assms(3) CallCheck False by (auto simp: own_check_def)
      have "own_check c' k" using assms(3) CallCheck by (auto simp: own_check_def)
      with asleep_check [OF assms(2) False] k CallCheck show ?thesis
        by (cases "spawn E (next_pid s)") (auto simp: Check_def new_process_def intro!: rules)
    qed
  qed
qed

interpretation sleeping: call_relation E "\<lambda>c s t. asleep E A L s \<longrightarrow> sleep_pre E A c \<longrightarrow> asleep E A L t" for E A L
proof unfold_locales
  fix go c s s'
  assume "\<And>c s s'. go c s = ret s' \<Longrightarrow> asleep E A L s \<longrightarrow> sleep_pre E A c \<longrightarrow> asleep E A L s'" "pm_call go E c s = ret s'"
  then show "asleep E A L s \<longrightarrow> sleep_pre E A c \<longrightarrow> asleep E A L s'" using method_sleeps [of E A L go s c]
    by (auto simp: sleeps_go_def sleeps_def)
qed

section \<open>Events\<close>

lemma step_asleep:
  assumes "pm_step E s e t" "asleep E A L s"
  shows "asleep E A L t"
proof -
  obtain n where n: "pm_allowed s e" "pm_handle (pm_run n E) e s = ret t" using assms(1) by (auto simp: pm_step_def)
  have go: "sleeps_go E A L (pm_run n E)" using sleeping.run_relation by (simp add: sleeps_go_def sleeps_def)
  note rules = sleeps_call [OF go] sleeps_bind sleeps_timer asleep_upd asleep_emit asleep_delete assms(2)
  have d: "dormant a s" if "a \<in> A" for a using asleepD(2) [OF assms(2) that] .
  have "sleeps E A L (pm_handle (pm_run n E) e s)"
  proof (cases e)
    case (EvRequire c i)
    then show ?thesis by (auto simp: woken_by_def intro!: rules)
  next
    case (EvTick i)
    then obtain a where a: "timers s i = Some (a, False)" using n(1) by auto
    then have "a \<notin> A" using d by (auto simp: dormant_def)
    with a EvTick show ?thesis by (auto simp: timer_tick_def own_check_def intro!: rules)
  next
    case (EvError pid x)
    have "a \<notin> A" if "procs s pid = Some (AppProcess a)" for a using d that by (auto simp: dormant_def)
    with EvError show ?thesis by (auto simp: process_error_def intro!: rules split: option.split pkind.split)
  next
    case (EvExit pid c sg)
    have "a \<notin> A" if "procs s pid = Some (AppProcess a)" for a using d that by (auto simp: dormant_def)
    moreover have "sleep_pre E A (CallThen k x)" if "procs s pid = Some (CheckProcess a k)" for a k x
    proof -
      have "a \<notin> A" using d that by (auto simp: dormant_def)
      moreover have "own_check a k" using asleepD(1) [OF assms(2)] that by (simp add: checks_ok_def)
      ultimately show ?thesis by (auto simp: own_check_def)
    qed
    ultimately show ?thesis using EvExit
      by (auto simp: process_exit_def Let_def intro!: rules split: option.split pkind.split)
  next
    case (EvTimerClosed i)
    then show ?thesis by (auto intro!: asleep_timers [where t = i] assms(2))
  next
    case (EvClock w)
    then show ?thesis by (simp add: asleep_clock [OF assms(2)])
  qed
  with n(2) show ?thesis by (simp add: sleeps_def)
qed

lemma run_asleep: "run (pm_step E) s es t \<Longrightarrow> asleep E A L s \<Longrightarrow> asleep E A L t"
  by (induction rule: run.induct) (auto intro: step_asleep)

section \<open>Cycles of preambles\<close>

text \<open>Requiring an app of such a set ends: every app of the set is gone through once at most.\<close>

definition unasked :: "nat set \<Rightarrow> pm \<Rightarrow> nat set" where
  "unasked A s = {a \<in> A. callbacks (app s a) = []}"

lemma unasked_upd: "(\<And>m. callbacks (f m) = callbacks m) \<Longrightarrow> unasked A (upd b f s) = unasked A s"
  by (auto simp: unasked_def upd_def)

lemma each_handled:
  assumes "\<And>c s. c \<in> A \<Longrightarrow> asleep E A L s \<Longrightarrow> unasked A s \<subseteq> U
    \<Longrightarrow> \<exists>n t. pm_run n E (CallRequire c (PreambleOf b)) s = ret t \<and> asleep E A L t \<and> unasked A t \<subseteq> unasked A s"
  shows "set cs \<subseteq> A \<Longrightarrow> asleep E A L s \<Longrightarrow> unasked A s \<subseteq> U
    \<Longrightarrow> \<exists>n t. pm_run n E (CallRequireEach b cs) s = ret t \<and> unasked A t \<subseteq> unasked A s"
proof (induction cs arbitrary: s)
  case Nil
  have "pm_run (Suc 0) E (CallRequireEach b []) s = ret s" by (simp add: require_each_def)
  then show ?case by blast
next
  case (Cons c cs)
  then obtain n t where t: "pm_run n E (CallRequire c (PreambleOf b)) s = ret t" "asleep E A L t" "unasked A t \<subseteq> unasked A s"
    using assms [of c s] by auto
  with Cons obtain m u where u: "pm_run m E (CallRequireEach b cs) t = ret u" "unasked A u \<subseteq> unasked A t"
    by (metis insert_subset list.simps(15) order_trans)
  have "pm_run (Suc (max n m)) E (CallRequireEach b (c # cs)) s = ret u"
    using pm_run_more [OF t(1), of "max n m"] pm_run_more [OF u(1), of "max n m"] by (simp add: require_each_def)
  with t u show ?case by blast
qed

lemma require_handled:
  assumes "finite A" "\<forall>a\<in>A. preambles_within E A a"
  shows "c \<in> A \<Longrightarrow> asleep E A L s
    \<Longrightarrow> \<exists>n t. pm_run n E (CallRequire c cb) s = ret t \<and> asleep E A L t \<and> unasked A t \<subseteq> unasked A s"
proof (induction "card (unasked A s)" arbitrary: c cb s rule: less_induct)
  case less
  let ?s1 = "upd c (\<lambda>m. m\<lparr>callbacks := callbacks m @ [cb]\<rparr>) s"
  have s1: "asleep E A L ?s1" "unasked A ?s1 = unasked A s - {c}"
    using asleep_push [OF less.prems(2)] less.prems(1) by (auto simp: unasked_def upd_def)
  show ?case
  proof (cases "callbacks (app s c) = []")
    case False
    then have "pm_run (Suc 0) E (CallRequire c cb) s = ret ?s1" by (simp add: Require_def Let_def upd_def)
    with s1 show ?thesis by blast
  next
    case True
    let ?s2 = "upd c (\<lambda>m. m\<lparr>require_start_time := now ?s1\<rparr>) ?s1" and ?cs = "app_preamble (conf E c)"
    let ?s3 = "upd c (\<lambda>m. m\<lparr>error_preamble := 0, pending_preamble := int (length ?cs)\<rparr>) ?s2"
    have c: "preambles_within E A c" "dormant c ?s1" using assms(2) less.prems(1) asleepD(2) [OF s1(1)] by blast+
    have "unasked A ?s1 \<subset> unasked A s" using less.prems(1) True s1(2) by (auto simp: unasked_def)
    moreover have "finite (unasked A s)" using assms(1) by (simp add: unasked_def)
    ultimately have "card (unasked A u) < card (unasked A s)" if "unasked A u \<subseteq> unasked A ?s1" for u
      using that by (meson psubset_card_mono subset_psubset_trans)
    from less.hyps [OF this]
    have "\<exists>n t. pm_run n E (CallRequire d (PreambleOf c)) u = ret t \<and> asleep E A L t \<and> unasked A t \<subseteq> unasked A u"
      if "d \<in> A" "asleep E A L u" "unasked A u \<subseteq> unasked A ?s1" for d u using that by blast
    moreover have "asleep E A L ?s3" by (intro asleep_upd s1(1)) simp_all
    moreover have "unasked A ?s3 = unasked A ?s1" by (simp add: unasked_upd)
    ultimately obtain n t where t: "pm_run n E (CallRequireEach c ?cs) ?s3 = ret t" "unasked A t \<subseteq> unasked A ?s1"
      using each_handled [where U = "unasked A ?s1" and cs = ?cs and s = ?s3 and b = c and E = E and A = A and L = L] c(1)
      by (auto simp: preambles_within_def)
    have "pm_run (Suc (Suc (Suc (Suc (Suc n))))) E (CallRequire c cb) s = ret t"
      using t(1) c True
      by (simp add: Require_def Let_def Check_def call_then_def require_then_def pm_Start_def CheckPreamble_def preambles_within_def dormant_def)
        (simp add: upd_def)
    moreover have "asleep E A L t"
      using sleeping.run_relation [OF calculation, of A L] less.prems by simp
    ultimately show ?thesis using t(2) s1(2) by blast
  qed
qed

lemma new_asleep: "\<forall>a\<in>A. preambles_within E A a \<Longrightarrow> asleep E A (\<lambda>_. []) new_pm"
  by (simp add: asleep_def dormant_def checks_ok_def new_pm_def new_mapp_def)

section \<open>Properties\<close>

text \<open>
  C30: preambles that go round are never started: in a finite set of apps without a checker,
  each with a preamble and all of its preambles in the set (two apps that are each other's
  preamble, or one that is its own), no app ever has a process or an open timer, in any run of
  fault-free events of any apps, and whoever requires one of them, which is always handled, waits for good. The
  errors of \<open>uv_spawn\<close> that the environment gives are not 0.
\<close>

theorem cyclic_preambles:
  assumes "spawn_errors E" "finite A" "\<forall>a\<in>A. preambles_within E A a" "run (pm_step E) new_pm es s" "a \<in> A"
  shows "dormant a s \<and> answered a (out s) = [] \<and> waiting a s = asked a es \<and> (\<exists>t. pm_step E s (EvRequire a i) t)"
proof -
  have s: "asleep E A (\<lambda>_. []) s" using run_asleep [OF assms(4) new_asleep [OF assms(3)]] .
  then have no: "answered a (out s) = []" "dormant a s" using asleepD(2,4) assms(5) by blast+
  with run_answers [OF assms(4,1) new_pm_good, of a] have "waiting a s = asked a es"
    by (simp add: new_pm_def waiting_def new_mapp_def)
  moreover have "\<exists>t. pm_step E s (EvRequire a i) t"
    using require_handled [OF assms(2,3,5) s, of "Client i"] by (auto simp: pm_step_def)
  ultimately show ?thesis using no by blast
qed

text \<open>Apps 2 and 3 of the sample are each other's preamble; app 0 is started meanwhile.\<close>

theorem cyclic_preambles_witness:
  "\<exists>s. run (pm_step sample_env) new_pm [EvRequire 2 7, EvRequire 0 5, EvRequire 3 8] s \<and> procs s 0 = Some (AppProcess 0)
     \<and> dormant 2 s \<and> waiting 2 s = [7]"
proof -
  let ?es = "[EvRequire 2 7, EvRequire 0 5, EvRequire 3 8]"
  have "\<exists>s. pm_exec 16 sample_env ?es new_pm = ret s \<and> procs s 0 = Some (AppProcess 0)"
    by (simp add: sample_simps)
  then obtain s where s: "run (pm_step sample_env) new_pm ?es s" "procs s 0 = Some (AppProcess 0)" using pm_exec_run by blast
  have "\<forall>a\<in>{2, 3}. preambles_within sample_env {2, 3} a" by (simp add: preambles_within_def sample_env_def sample_conf_def)
  moreover have "asked 2 ?es = [7]" by (simp add: asked_def)
  ultimately show ?thesis using cyclic_preambles [OF sample_env_errors _ _ s(1), of "{2, 3}" 2] s by auto
qed

text \<open>
  C29: a process that was killed to be restarted and ends with status 0 is not restarted, and its
  clients are lost. When the exit is reported in a state of a run in which somebody waits, the
  app has no other process and no check under way, no open timer from an earlier start, and is
  not itself waiting for preambles, then the exit is handled, and from then on, in every run of
  fault-free events of any apps, whoever waited and whoever requires the app later is never answered, and the app
  never has a process or an open timer again. The errors of \<open>uv_spawn\<close> that the environment
  gives are not 0.
\<close>

theorem graceful_exit_strands:
  assumes "spawn_errors E" "run (pm_step E) new_pm ds s"
    and "procs s pid = Some (AppProcess a)" "restart (app s a)" "callbacks (app s a) \<noteq> []"
    and "\<forall>q. q \<noteq> pid \<longrightarrow> procs s q \<noteq> Some (AppProcess a)" "\<forall>q k. procs s q \<noteq> Some (CheckProcess a k)"
    and "\<forall>t. timers s t \<noteq> Some (a, False)" "\<forall>b. PreambleOf a \<notin> set (callbacks (app s b))"
  shows "\<exists>t. pm_step E s (EvExit pid 0 0) t \<and> (\<forall>es u. run (pm_step E) t es u \<longrightarrow>
     dormant a u \<and> answered a (out u) = answered a (out s) \<and> waiting a u = waiting a s @ asked a es)"
proof -
  let ?t = "delete_process pid (upd a (\<lambda>m. m\<lparr>m_process := None\<rparr>) (emit (ObservedExit pid 0 0) s))"
  have "pm_handle (pm_run (Suc 0) E) (EvExit pid 0 0) s = ret ?t"
    using assms(3) by (simp add: process_exit_def app_exit_def Let_def)
  moreover have "pm_allowed s (EvExit pid 0 0)" using assms(3) by simp
  ultimately have step: "pm_step E s (EvExit pid 0 0) ?t" unfolding pm_step_def by blast
  have g: "pm_good s" using run_pm_good [OF assms(2,1) new_pm_good] .
  have t: "asleep E {a} (\<lambda>_. answered a (out s)) ?t" "waiting a ?t = waiting a s" "answered a (out ?t) = answered a (out s)"
    using g assms(3,5-9)
    by (auto simp: pm_good_def asleep_def dormant_def checks_ok_def waiting_def delete_process_def upd_def emit_def)
  have gt: "pm_good ?t" using pms.inv_step [OF g conjI [OF assms(1) step]] .
  have "dormant a u \<and> answered a (out u) = answered a (out s) \<and> waiting a u = waiting a s @ asked a es"
    if r: "run (pm_step E) ?t es u" for es u
  proof -
    have u: "dormant a u" "answered a (out u) = answered a (out s)" using asleepD(2,4) [OF run_asleep [OF r t(1)]] by simp_all
    with run_answers [OF r assms(1) gt, of a] t(2,3) show ?thesis by auto
  qed
  with step show ?thesis by blast
qed

text \<open>
  App 4 is required, started and found running; when it is required again its check fails, and
  it is killed to be restarted. It ends with status 0, as a process that handles the signal does.
\<close>

definition graceful_events :: "pm_event list" where
  "graceful_events = sample_events @ [EvExit 2 0 0, EvTimerClosed 0, EvRequire 4 9, EvExit 3 1 0]"

theorem graceful_exit_strands_witness:
  "\<exists>s t u. run (pm_step sample_env) new_pm graceful_events s \<and> pm_step sample_env s (EvExit 1 0 0) t
     \<and> run (pm_step sample_env) t [EvRequire 4 5, EvRequire 0 3, EvRequire 4 6] u \<and> waiting 4 u = [9, 5, 6]"
proof -
  let ?es = "[EvRequire 4 5, EvRequire 0 3, EvRequire 4 6]"
  have "\<exists>s. pm_exec 9 sample_env graceful_events new_pm = ret s \<and> procs s 1 = Some (AppProcess 4) \<and> restart (app s 4)
      \<and> callbacks (app s 4) \<noteq> [] \<and> (\<forall>q. q \<noteq> 1 \<longrightarrow> procs s q \<noteq> Some (AppProcess 4)) \<and> (\<forall>q k. procs s q \<noteq> Some (CheckProcess 4 k))
      \<and> (\<forall>t. timers s t \<noteq> Some (4, False)) \<and> (\<forall>b. PreambleOf 4 \<notin> set (callbacks (app s b))) \<and> waiting 4 s = [9]
      \<and> (\<exists>t. pm_exec 9 sample_env [EvExit 1 0 0] s = ret t \<and> (\<exists>u. pm_exec 9 sample_env ?es t = ret u))"
    by (simp add: graceful_events_def sample_events_def sample_simps waiting_def clients_def)
  then obtain s t u where s: "run (pm_step sample_env) new_pm graceful_events s" "procs s 1 = Some (AppProcess 4)"
      "restart (app s 4)" "callbacks (app s 4) \<noteq> []" "\<forall>q. q \<noteq> 1 \<longrightarrow> procs s q \<noteq> Some (AppProcess 4)"
      "\<forall>q k. procs s q \<noteq> Some (CheckProcess 4 k)" "\<forall>t. timers s t \<noteq> Some (4, False)"
      "\<forall>b. PreambleOf 4 \<notin> set (callbacks (app s b))" "waiting 4 s = [9]"
    and t: "pm_exec 9 sample_env [EvExit 1 0 0] s = ret t" "pm_exec 9 sample_env ?es t = ret u"
    using pm_exec_run by blast
  from graceful_exit_strands [OF sample_env_errors s(1-8)] obtain t' where t': "pm_step sample_env s (EvExit 1 0 0) t'"
    "\<And>es u. run (pm_step sample_env) t' es u \<Longrightarrow> waiting 4 u = [9] @ asked 4 es" using s(9) by auto
  obtain n where n: "pm_handle (pm_run n sample_env) (EvExit 1 0 0) s = ret t'" using t'(1) by (auto simp: pm_step_def)
  have "t' = t" using n t(1) s(2) pm_run_unique [of n sample_env "CallExit 4 1 0 0" s "Inr t'" 9 "Inr t"]
    by (auto simp: process_exit_def bindP_ret_iff split: if_splits)
  moreover have "asked 4 ?es = [5, 6]" by (simp add: asked_def)
  ultimately show ?thesis using s(1) t' pm_exec_run [OF t(2)] by fastforce
qed

end
