(* ===== verification/TcpRequests.thy ===== *)
theory TcpRequests
  imports Prelude
begin

text \<open>
  The memory \<open>TcpClient\<close> (\<open>src/tcp_client.cc\<close>) allocates for libuv: write and connect requests,
  name resolutions, read buffers. Every method and callback is here with its \<open>new\<close>, \<open>malloc\<close>,
  \<open>delete\<close> and \<open>free\<close> in their place among the calls of the listeners, which may call the
  client again; what the other theories follow of the methods (the bytes, the connection) is
  left out.
\<close>

section \<open>State\<close>

datatype block = ReadBuffer | WriteRequest | Write2Request | ConnectRequest | ResolveRequest

text \<open>
  The heap, the blocks libuv holds (it gives each back in a callback), and the client object
  the requests point at.
\<close>

record requests =
  heap :: "nat \<Rightarrow> block option"
  next_block :: nat
  held :: "nat list"
  rq_closing :: bool
  rq_gone :: bool

definition new_requests :: requests where
  "new_requests = \<lparr>heap = (\<lambda>_. None), next_block = 0, held = [], rq_closing = False, rq_gone = False\<rparr>"

definition allocate :: "block \<Rightarrow> requests \<Rightarrow> nat \<times> requests" where
  "allocate k r = (next_block r, r\<lparr>heap := (heap r)(next_block r \<mapsto> k), next_block := next_block r + 1\<rparr>)"

definition release :: "nat \<Rightarrow> requests \<Rightarrow> fault + requests" where
  "release b r = (if heap r b = None then Inl UseAfterFree else Inr (r\<lparr>heap := (heap r)(b := None)\<rparr>))"

definition hold :: "nat \<Rightarrow> requests \<Rightarrow> requests" where
  "hold b r = r\<lparr>held := held r @ [b]\<rparr>"

definition unhold :: "nat \<Rightarrow> requests \<Rightarrow> requests" where
  "unhold b r = r\<lparr>held := filter (\<lambda>x. x \<noteq> b) (held r)\<rparr>"

text \<open>A callback reads its request, then the client it points at.\<close>

definition client_of :: "nat \<Rightarrow> block \<Rightarrow> requests \<Rightarrow> fault + requests" where
  "client_of b k r = (if heap r b \<noteq> Some k \<or> rq_gone r then Inl UseAfterFree else Inr r)"

section \<open>Methods\<close>

text \<open>What listeners do is a function of the state; \<open>in_order\<close> calls several.\<close>

type_synonym listener = "requests \<Rightarrow> fault + requests"

fun in_order :: "listener list \<Rightarrow> listener" where
  "in_order [] r = Inr r"
| "in_order (f # fs) r = bindE (f r) (in_order fs)"

definition rq_Close :: listener where
  "rq_Close r = (if rq_gone r then Inl UseAfterFree else Inr (r\<lparr>rq_closing := True\<rparr>))"

text \<open>\<open>Handle::OnError\<close> and the other notices call the listeners of the client.\<close>

definition rq_notify :: "listener \<Rightarrow> listener" where
  "rq_notify f r = (if rq_gone r then Inl UseAfterFree else f r)"

text \<open>
  A call that submits a request; the result of the libuv call is \<open>st\<close>, and \<open>on_error\<close> is what
  the error listeners do. Both writes and the connect free the request and then report the
  error, the name resolution does it the other way round.
\<close>

definition rq_Write :: "int \<Rightarrow> listener \<Rightarrow> listener" where
  "rq_Write st on_error r =
     (if rq_gone r then Inl UseAfterFree
      else let (b, r1) = allocate WriteRequest r
           in if st \<noteq> 0 then bindE (release b r1) (rq_notify on_error) else Inr (hold b r1))"

definition rq_Write2 :: "int \<Rightarrow> listener \<Rightarrow> listener" where
  "rq_Write2 st on_error r =
     (if rq_gone r then Inl UseAfterFree
      else let (b, r1) = allocate Write2Request r
           in if st \<noteq> 0 then bindE (release b r1) (rq_notify on_error) else Inr (hold b r1))"

definition rq_ConnectAddr :: "int \<Rightarrow> listener \<Rightarrow> listener" where
  "rq_ConnectAddr st on_error r =
     (if rq_gone r then Inl UseAfterFree
      else let (b, r1) = allocate ConnectRequest r
           in if st \<noteq> 0 then bindE (release b r1) (rq_notify on_error) else Inr (hold b r1))"

definition rq_GetAddrInfo :: "int \<Rightarrow> listener \<Rightarrow> listener" where
  "rq_GetAddrInfo st on_error r =
     (if rq_gone r then Inl UseAfterFree
      else let (b, r1) = allocate ResolveRequest r
           in if st \<noteq> 0 then bindE (rq_notify on_error r1) (release b) else Inr (hold b r1))"

definition rq_ReadStart :: "int \<Rightarrow> listener \<Rightarrow> listener" where
  "rq_ReadStart st on_error r = (if rq_gone r then Inl UseAfterFree else if st \<noteq> 0 then rq_notify on_error r else Inr r)"

section \<open>Callbacks\<close>

definition rq_OnAlloc :: "requests \<Rightarrow> nat \<times> requests" where
  "rq_OnAlloc r = (let (b, r1) = allocate ReadBuffer r in (b, hold b r1))"

text \<open>libuv asks for a buffer and gives it back with what it has read.\<close>

definition rq_OnRead :: "nat \<Rightarrow> int \<Rightarrow> listener \<Rightarrow> listener" where
  "rq_OnRead b nread listeners r =
     (if rq_gone r then Inl UseAfterFree
      else bindE (if nread = UV_EOF then rq_Close (unhold b r) else rq_notify listeners (unhold b r)) (release b))"

definition rq_OnWrite :: "nat \<Rightarrow> listener \<Rightarrow> listener" where
  "rq_OnWrite b listeners r =
     bindE (client_of b WriteRequest r) (\<lambda>r. bindE (release b (unhold b r)) (rq_notify listeners))"

definition rq_OnWrite2 :: "nat \<Rightarrow> listener \<Rightarrow> listener" where
  "rq_OnWrite2 b listeners r =
     bindE (client_of b Write2Request r) (\<lambda>r. bindE (release b (unhold b r)) (rq_notify listeners))"

definition rq_OnConnect :: "nat \<Rightarrow> int \<Rightarrow> int \<Rightarrow> listener \<Rightarrow> listener \<Rightarrow> listener" where
  "rq_OnConnect b status st listeners on_error r =
     bindE (client_of b ConnectRequest r) (\<lambda>r.
       bindE (if status \<noteq> 0 then rq_notify on_error (unhold b r)
              else bindE (rq_notify listeners (unhold b r)) (rq_ReadStart st on_error))
         (release b))"

definition rq_OnAddrInfo :: "nat \<Rightarrow> int \<Rightarrow> int \<Rightarrow> listener \<Rightarrow> listener" where
  "rq_OnAddrInfo b status st on_error r =
     bindE (client_of b ResolveRequest r) (\<lambda>r.
       bindE (if status < 0 then rq_notify on_error (unhold b r) else rq_ConnectAddr st on_error (unhold b r))
         (release b))"

definition rq_OnClose :: listener where
  "rq_OnClose r = (if rq_gone r then Inl UseAfterFree else Inr (r\<lparr>rq_gone := True\<rparr>))"

section \<open>Events\<close>

text \<open>
  What listeners and users do: calls of the client, each with the result of the libuv call and
  what the error listeners do about it.
\<close>

datatype ccall =
    WriteCall int "ccall list"
  | Write2Call int "ccall list"
  | ResolveCall int "ccall list"
  | CloseCall

primrec do_call :: "ccall \<Rightarrow> listener" where
  "do_call (WriteCall st cs) = rq_Write st (in_order (map do_call cs))"
| "do_call (Write2Call st cs) = rq_Write2 st (in_order (map do_call cs))"
| "do_call (ResolveCall st cs) = rq_GetAddrInfo st (in_order (map do_call cs))"
| "do_call CloseCall = rq_Close"

definition do_calls :: "ccall list \<Rightarrow> listener" where
  "do_calls cs = in_order (map do_call cs)"

datatype rq_event =
    RCall ccall
  | RRead int "ccall list"
  | RWrote nat "ccall list"
  | RWrote2 nat "ccall list"
  | RResolved nat int int "ccall list"
  | RConnected nat int int "ccall list" "ccall list"
  | RClosed

fun rq_handle :: "rq_event \<Rightarrow> listener" where
  "rq_handle (RCall c) r = do_call c r"
| "rq_handle (RRead nread cs) r = (let (b, r1) = rq_OnAlloc r in rq_OnRead b nread (do_calls cs) r1)"
| "rq_handle (RWrote b cs) r = rq_OnWrite b (do_calls cs) r"
| "rq_handle (RWrote2 b cs) r = rq_OnWrite2 b (do_calls cs) r"
| "rq_handle (RResolved b status st cs) r = rq_OnAddrInfo b status st (do_calls cs) r"
| "rq_handle (RConnected b status st cs es) r = rq_OnConnect b status st (do_calls cs) (do_calls es) r"
| "rq_handle RClosed r = rq_OnClose r"

text \<open>
  libuv gives back the requests it holds, each once, reads while the client is open, and calls
  the close callback when it has given back all requests of the handle; a name resolution is
  not one.
\<close>

definition gives_back :: "requests \<Rightarrow> nat \<Rightarrow> block \<Rightarrow> bool" where
  "gives_back r b k \<longleftrightarrow> b \<in> set (held r) \<and> heap r b = Some k"

fun rq_allowed :: "requests \<Rightarrow> rq_event \<Rightarrow> bool" where
  "rq_allowed r (RCall c) = (\<not> rq_gone r)"
| "rq_allowed r (RRead nread cs) = (\<not> rq_closing r \<and> \<not> rq_gone r)"
| "rq_allowed r (RWrote b cs) = gives_back r b WriteRequest"
| "rq_allowed r (RWrote2 b cs) = gives_back r b Write2Request"
| "rq_allowed r (RResolved b status st cs) = gives_back r b ResolveRequest"
| "rq_allowed r (RConnected b status st cs es) = gives_back r b ConnectRequest"
| "rq_allowed r RClosed = (rq_closing r \<and> \<not> rq_gone r \<and> (\<forall>b \<in> set (held r). heap r b = Some ResolveRequest))"

text \<open>What libuv does not promise: that a name resolution ends before its client is closed.\<close>

fun rq_orderly :: "requests \<Rightarrow> rq_event \<Rightarrow> bool" where
  "rq_orderly r RClosed = (\<forall>b \<in> set (held r). heap r b \<noteq> Some ResolveRequest)"
| "rq_orderly r e = True"

definition rq_step :: "requests \<Rightarrow> rq_event \<Rightarrow> requests \<Rightarrow> bool" where
  "rq_step r e r' \<longleftrightarrow> rq_allowed r e \<and> rq_orderly r e \<and> rq_handle e r = Inr r'"

section \<open>The invariant\<close>

text \<open>
  The blocks on the heap are those libuv holds and those of \<open>X\<close>, which callbacks further up
  the stack will free; a client that is gone has none.
\<close>

definition rinv :: "nat set \<Rightarrow> requests \<Rightarrow> bool" where
  "rinv X r \<longleftrightarrow> (\<forall>b. (heap r b = None \<longleftrightarrow> b \<notin> set (held r) \<and> b \<notin> X) \<and> (b \<in> X \<longrightarrow> b \<notin> set (held r))
     \<and> (next_block r \<le> b \<longrightarrow> heap r b = None)) \<and> distinct (held r)"

text \<open>What every method and every list of calls keeps, whatever blocks are still to be freed.\<close>

definition safe :: "listener \<Rightarrow> bool" where
  "safe f \<longleftrightarrow> (\<forall>X r. rinv X r \<longrightarrow> \<not> rq_gone r \<longrightarrow> (\<exists>r'. f r = Inr r' \<and> rinv X r' \<and> \<not> rq_gone r'))"

lemma safeD: "safe f \<Longrightarrow> rinv X r \<Longrightarrow> \<not> rq_gone r \<Longrightarrow> \<exists>r'. f r = Inr r' \<and> rinv X r' \<and> \<not> rq_gone r'"
  by (simp add: safe_def)

lemma safe_bind: "safe f \<Longrightarrow> safe g \<Longrightarrow> safe (\<lambda>r. bindE (f r) g)"
  unfolding safe_def by fastforce

lemma safe_in_order: "\<forall>f \<in> set fs. safe f \<Longrightarrow> safe (in_order fs)"
proof (induction fs)
  case Nil
  then show ?case by (simp add: safe_def)
next
  case (Cons f fs)
  then show ?case using safe_bind [of f "in_order fs"] by (simp add: safe_def)
qed

lemma safe_notify: "safe f \<Longrightarrow> safe (rq_notify f)"
  by (simp add: safe_def rq_notify_def)

lemma safe_Close: "safe rq_Close"
  by (simp add: safe_def rq_Close_def rinv_def)

text \<open>A block is allocated, given to libuv, given back, freed.\<close>

lemma rinv_allocate:
  assumes "rinv X r" "allocate k r = (b, r1)"
  shows "rinv (insert b X) r1" "b \<notin> X" "b \<notin> set (held r1)" "rq_gone r1 = rq_gone r"
proof -
  have b: "b = next_block r" and r1: "r1 = r\<lparr>heap := (heap r)(b \<mapsto> k), next_block := Suc b\<rparr>"
    using assms(2) by (auto simp: allocate_def)
  have "heap r b = None" using assms(1) b by (simp add: rinv_def)
  then show out: "b \<notin> X" "b \<notin> set (held r1)" using assms(1) r1 by (simp_all add: rinv_def)
  then show "rinv (insert b X) r1" using assms(1) b r1 by (simp add: rinv_def Suc_le_eq)
  show "rq_gone r1 = rq_gone r" using r1 by simp
qed

lemma rinv_hold: "rinv (insert b X) r \<Longrightarrow> b \<notin> X \<Longrightarrow> rinv X (hold b r) \<and> rq_gone (hold b r) = rq_gone r"
  by (auto simp: rinv_def hold_def)

lemma rinv_unhold: "rinv X r \<Longrightarrow> b \<in> set (held r) \<Longrightarrow> rinv (insert b X) (unhold b r) \<and> b \<notin> X \<and> rq_gone (unhold b r) = rq_gone r"
  by (auto simp: rinv_def unhold_def)

lemma rinv_release:
  assumes "rinv (insert b X) r" "b \<notin> X"
  shows "\<exists>r'. release b r = Inr r' \<and> rinv X r' \<and> rq_gone r' = rq_gone r"
proof -
  have "heap r b \<noteq> None" "b \<notin> set (held r)" using assms(1) by (auto simp: rinv_def)
  then show ?thesis using assms by (auto simp: release_def rinv_def)
qed

section \<open>Methods and callbacks keep it\<close>

text \<open>The block of a callback is freed before or after its listeners are called.\<close>

lemma free_then:
  assumes "safe f" "rinv (insert b X) r" "b \<notin> X" "\<not> rq_gone r"
  shows "\<exists>r'. bindE (release b r) f = Inr r' \<and> rinv X r' \<and> \<not> rq_gone r'"
  using rinv_release [OF assms(2,3)] safeD [OF assms(1), of X] assms(4) by fastforce

lemma then_free:
  assumes "safe f" "rinv (insert b X) r" "b \<notin> X" "\<not> rq_gone r"
  shows "\<exists>r'. bindE (f r) (release b) = Inr r' \<and> rinv X r' \<and> \<not> rq_gone r'"
  using safeD [OF assms(1,2,4)] rinv_release [OF _ assms(3)] by fastforce

lemmas submit_defs = rq_Write_def rq_Write2_def rq_ConnectAddr_def rq_GetAddrInfo_def

lemma safe_submit:
  assumes "safe f"
  shows "safe (rq_Write st f)" "safe (rq_Write2 st f)" "safe (rq_ConnectAddr st f)" "safe (rq_GetAddrInfo st f)"
proof -
  have *: "\<exists>r'. (if st \<noteq> 0 then bindE (release b r1) (rq_notify f) else Inr (hold b r1)) = Inr r' \<and> rinv X r' \<and> \<not> rq_gone r'"
      "\<exists>r'. (if st \<noteq> 0 then bindE (rq_notify f r1) (release b) else Inr (hold b r1)) = Inr r' \<and> rinv X r' \<and> \<not> rq_gone r'"
    if "rinv X r" "\<not> rq_gone r" "allocate k r = (b, r1)" for X r k b r1
  proof -
    note r1 = rinv_allocate [OF that(1,3)]
    have g: "\<not> rq_gone r1" using r1(4) that(2) by simp
    show "\<exists>r'. (if st \<noteq> 0 then bindE (release b r1) (rq_notify f) else Inr (hold b r1)) = Inr r' \<and> rinv X r' \<and> \<not> rq_gone r'"
      using free_then [OF safe_notify [OF assms] r1(1,2) g] rinv_hold [OF r1(1,2)] g by simp
    show "\<exists>r'. (if st \<noteq> 0 then bindE (rq_notify f r1) (release b) else Inr (hold b r1)) = Inr r' \<and> rinv X r' \<and> \<not> rq_gone r'"
      using then_free [OF safe_notify [OF assms] r1(1,2) g] rinv_hold [OF r1(1,2)] g by simp
  qed
  show "safe (rq_Write st f)" "safe (rq_Write2 st f)" "safe (rq_ConnectAddr st f)" "safe (rq_GetAddrInfo st f)"
    unfolding safe_def submit_defs using * by (simp_all split: prod.split)
qed

lemma safe_ReadStart: "safe f \<Longrightarrow> safe (rq_ReadStart st f)"
  using safe_notify [of f] by (simp add: safe_def rq_ReadStart_def)

lemma safe_do_call: "safe (do_call c)"
  by (induction c) (auto intro!: safe_submit safe_in_order safe_Close)

lemma safe_do_calls: "safe (do_calls cs)"
  unfolding do_calls_def by (rule safe_in_order) (auto intro: safe_do_call)

text \<open>A callback for a block that libuv gives back.\<close>

lemma back_then_free:
  assumes "safe f" "rinv {} r" "gives_back r b k" "\<not> rq_gone r"
  shows "\<exists>r'. bindE (client_of b k r) (\<lambda>r. bindE (f (unhold b r)) (release b)) = Inr r' \<and> rinv {} r' \<and> \<not> rq_gone r'"
  using assms(3,4) then_free [OF assms(1), of b "{}" "unhold b r"] rinv_unhold [OF assms(2), of b]
  by (simp add: gives_back_def client_of_def)

lemma back_free_then:
  assumes "safe f" "rinv {} r" "gives_back r b k" "\<not> rq_gone r"
  shows "\<exists>r'. bindE (client_of b k r) (\<lambda>r. bindE (release b (unhold b r)) f) = Inr r' \<and> rinv {} r' \<and> \<not> rq_gone r'"
  using assms(3,4) free_then [OF assms(1), of b "{}" "unhold b r"] rinv_unhold [OF assms(2), of b]
  by (simp add: gives_back_def client_of_def)

lemma rq_OnRead_ok:
  assumes "safe f" "rinv {} r" "\<not> rq_gone r"
  shows "\<exists>r'. (let (b, r1) = rq_OnAlloc r in rq_OnRead b nread f r1) = Inr r' \<and> rinv {} r' \<and> \<not> rq_gone r'"
proof -
  obtain b r1 where b: "allocate ReadBuffer r = (b, r1)" by (cases "allocate ReadBuffer r")
  note r1 = rinv_allocate [OF assms(2) b]
  have "filter (\<lambda>x. x \<noteq> b) (held r1) = held r1" using r1(3) by (auto simp: filter_id_conv)
  then have "unhold b (hold b r1) = r1" by (simp add: unhold_def hold_def)
  then show ?thesis
    using then_free [OF safe_Close r1(1,2)] then_free [OF safe_notify [OF assms(1)] r1(1,2)] r1(4) assms(3) b
    by (simp add: rq_OnAlloc_def rq_OnRead_def hold_def)
qed

lemma rq_handle_ok:
  assumes "rinv {} r" "rq_gone r \<longrightarrow> held r = []" "rq_allowed r e" "rq_orderly r e"
  shows "\<exists>r'. rq_handle e r = Inr r' \<and> rinv {} r' \<and> (rq_gone r' \<longrightarrow> held r' = [])"
proof -
  have alive: "gives_back r b k \<Longrightarrow> \<not> rq_gone r" for b k using assms(2) by (auto simp: gives_back_def)
  note notified = safe_notify [OF safe_do_calls]
  show ?thesis
  proof (cases e)
    case (RCall c)
    with safeD [OF safe_do_call assms(1)] assms(3) show ?thesis by fastforce
  next
    case (RRead nread cs)
    with rq_OnRead_ok [OF safe_do_calls assms(1)] assms(3) show ?thesis by fastforce
  next
    case (RWrote b cs)
    with back_free_then [OF notified assms(1)] alive assms(3) show ?thesis by (fastforce simp: rq_OnWrite_def)
  next
    case (RWrote2 b cs)
    with back_free_then [OF notified assms(1)] alive assms(3) show ?thesis by (fastforce simp: rq_OnWrite2_def)
  next
    case (RResolved b status st cs)
    have "safe (\<lambda>r. if status < 0 then rq_notify (do_calls cs) r else rq_ConnectAddr st (do_calls cs) r)"
      using notified safe_submit(3) [OF safe_do_calls] by (simp add: safe_def)
    from back_then_free [OF this assms(1)] RResolved alive assms(3) show ?thesis by (fastforce simp: rq_OnAddrInfo_def)
  next
    case (RConnected b status st cs es)
    have "safe (\<lambda>r. if status \<noteq> 0 then rq_notify (do_calls es) r else bindE (rq_notify (do_calls cs) r) (rq_ReadStart st (do_calls es)))"
      using notified [of es] safe_bind [OF notified [of cs] safe_ReadStart [OF safe_do_calls [of es], of st]] by (simp add: safe_def)
    from back_then_free [OF this assms(1)] RConnected alive assms(3) show ?thesis by (fastforce simp: rq_OnConnect_def)
  next
    case RClosed
    then have "\<not> rq_gone r" "held r = []" using assms(3,4) by (cases "held r"; auto)+
    with RClosed assms(1) show ?thesis by (simp add: rq_OnClose_def rinv_def)
  qed
qed

interpretation requests_sys: invariant_system "\<lambda>r. r = new_requests" rq_step "\<lambda>r. rinv {} r \<and> (rq_gone r \<longrightarrow> held r = [])"
proof unfold_locales
  show "rinv {} r \<and> (rq_gone r \<longrightarrow> held r = [])" if "r = new_requests" for r
    using that by (simp add: rinv_def new_requests_def)
  show "rinv {} r' \<and> (rq_gone r' \<longrightarrow> held r' = [])" if "rinv {} r \<and> (rq_gone r \<longrightarrow> held r = [])" "rq_step r e r'" for r e r'
    using that rq_handle_ok [of r e] by (auto simp: rq_step_def)
qed

section \<open>Properties\<close>

text \<open>
  C33: every block a client allocates is freed exactly once. Whatever callbacks libuv makes and
  whatever calls listeners make in them, failing calls with their own error listeners included,
  no handler uses or frees a block that is not allocated nor touches the deleted client; between
  events the allocated blocks are exactly those libuv holds, so nothing leaks, and none is left
  when the client is deleted (given that a name resolution ends before its client is closed).
\<close>

theorem client_requests_freed:
  assumes "reach (\<lambda>r. r = new_requests) rq_step r"
  shows "(\<forall>e. rq_allowed r e \<longrightarrow> rq_orderly r e \<longrightarrow> (\<exists>r'. rq_handle e r = Inr r'))
    \<and> dom (heap r) = set (held r) \<and> distinct (held r) \<and> (rq_gone r \<longrightarrow> heap r = (\<lambda>_. None))"
proof -
  from requests_sys.reach_inv [OF assms] have inv: "rinv {} r" "rq_gone r \<longrightarrow> held r = []" by auto
  have "heap r b = None \<longleftrightarrow> b \<notin> set (held r)" for b using inv(1) by (simp add: rinv_def)
  then have "dom (heap r) = set (held r)" by (auto simp: dom_def)
  moreover from this inv(2) have "rq_gone r \<longrightarrow> heap r = (\<lambda>_. None)" by auto
  moreover have "distinct (held r)" using inv(1) by (simp add: rinv_def)
  ultimately show ?thesis using rq_handle_ok [OF inv] by blast
qed

text \<open>A write is under way when a second one fails and the error listener closes the client.\<close>

definition rq_demo :: "rq_event list" where
  "rq_demo = [RCall (WriteCall 0 []), RRead 5 [WriteCall (- 1) [CloseCall]], RWrote 0 [], RClosed]"

lemmas rq_demo_simps = new_requests_def allocate_def release_def hold_def unhold_def client_of_def rq_Close_def rq_notify_def
  submit_defs rq_ReadStart_def rq_OnAlloc_def rq_OnRead_def rq_OnWrite_def rq_OnAddrInfo_def rq_OnClose_def gives_back_def
  do_calls_def UV_EOF_def

lemma rq_demo_run:
  "\<exists>r. reach (\<lambda>r. r = new_requests) rq_step r \<and> rq_gone r \<and> next_block r = 3"
proof -
  have "\<exists>r. exec_run (\<lambda>r e. rq_allowed r e \<and> rq_orderly r e) rq_handle rq_demo new_requests = Some r \<and> rq_gone r \<and> next_block r = 3"
    by (simp add: rq_demo_def rq_demo_simps)
  then obtain r where r: "exec_run (\<lambda>r e. rq_allowed r e \<and> rq_orderly r e) rq_handle rq_demo new_requests = Some r"
    "rq_gone r" "next_block r = 3" by blast
  have "run rq_step new_requests rq_demo r" by (rule exec_run_run [OF r(1)]) (simp add: rq_step_def)
  then have "reach (\<lambda>r. r = new_requests) rq_step r" by (rule run_reach) (rule reach_init, rule refl)
  with r(2,3) show ?thesis by blast
qed

theorem client_requests_freed_witness:
  "\<exists>r. reach (\<lambda>r. r = new_requests) rq_step r \<and> next_block r = 3 \<and> rq_gone r \<and> heap r = (\<lambda>_. None)"
proof -
  obtain r where "reach (\<lambda>r. r = new_requests) rq_step r" "rq_gone r" "next_block r = 3" using rq_demo_run by blast
  with client_requests_freed [OF this(1)] show ?thesis by blast
qed

text \<open>Without that, the answer of a resolution finds the client deleted.\<close>

theorem resolve_after_close:
  "\<exists>r. exec_run rq_allowed rq_handle [RCall (ResolveCall 0 []), RCall CloseCall, RClosed] new_requests = Some r
     \<and> rq_allowed r (RResolved 0 0 0 []) \<and> rq_handle (RResolved 0 0 0 []) r = Inl UseAfterFree"
  by (simp add: rq_demo_simps)

end
