(* ===== verification/LoggerThreads.thy ===== *)
theory LoggerThreads
  imports Loggers
begin

text \<open>
  The logger used by several threads, \<open>Logger::vprint\<close> in \<open>src/logger.cc\<close> statement by
  statement: \<open>localtime\<close>, whose result all threads share, comes before the lock; the buffer is
  filled and written under it. Each statement is one step. Whatever the interleaving, the log is
  that of the sequential logger of \<open>Loggers\<close> for the calls in some order. A call here is one of
  \<open>vprint\<close>, which the level methods of \<open>Loggers\<close> make when the level is high enough. The time
  that \<open>localtime\<close> fills in is shared as one text: that another thread may read it half written
  is not modelled.
\<close>

section \<open>Steps\<close>

text \<open>
  How far a call has come: \<open>localtime\<close> has returned; the mutex is taken; the buffer has the
  date; the name of the level; the text.
\<close>

datatype lstep = Timed | Locked | Dated | Named | Printed

text \<open>
  \<open>lt_tm\<close> is the static object of \<open>localtime\<close>, as the text \<open>strftime\<close> makes of it; \<open>lt_at\<close> is
  where each thread is in its call, with the arguments of the call.
\<close>

record lthreads =
  lt_logger :: logger
  lt_tm :: bytes
  lt_mutex :: "nat option"
  lt_at :: "nat \<Rightarrow> (lstep \<times> Level \<times> bytes) option"

definition lt_init :: "logger \<Rightarrow> bytes \<Rightarrow> lthreads" where
  "lt_init lg tm = \<lparr>lt_logger = lg, lt_tm = tm, lt_mutex = None, lt_at = (\<lambda>_. None)\<rparr>"

text \<open>The step a thread's call takes next; \<open>LCall\<close> begins one at the time \<open>now\<close>.\<close>

datatype lt_event = LCall nat Level bytes bytes | LNext nat

definition set_buf :: "(bytes \<Rightarrow> bytes) \<Rightarrow> lthreads \<Rightarrow> lthreads" where
  "set_buf f S = S\<lparr>lt_logger := (lt_logger S)\<lparr>log_buf := f (log_buf (lt_logger S))\<rparr>\<rparr>"

definition vprint_text :: "Level \<Rightarrow> bytes \<Rightarrow> bytes \<Rightarrow> bytes" where
  "vprint_text level msg b =
     (let offset = 20 + level_name_length level in overlay offset (take (bufsize - offset - 1) msg @ [nul]) b)"

text \<open>The end of \<open>vprint\<close>: what is written, from the buffer as it is.\<close>

definition vprint_write :: "Level \<Rightarrow> bytes \<Rightarrow> logger \<Rightarrow> logger" where
  "vprint_write level msg lg =
     (let offset = 20 + level_name_length level; b3 = log_buf lg; len = length msg
     in if len > 0
        then if offset + len < bufsize
             then let b4 = b3[offset + len := CHR 0x0A]
                  in lg\<lparr>log_buf := b4, written := written lg @ [(log_fd lg, take (offset + len + 1) b4)]\<rparr>
             else let b4 = overlay (bufsize - 4) ''...\<newline>'' b3
                  in lg\<lparr>log_buf := b4, written := written lg @ [(log_fd lg, take bufsize b4)],
                       errout := errout lg @ take 20 b3 @ level_name level @ msg @ [CHR 0x0A]\<rparr>
        else lg)"

fun lt_next :: "nat \<Rightarrow> lstep \<times> Level \<times> bytes \<Rightarrow> lthreads \<Rightarrow> lthreads" where
  "lt_next t (Timed, level, msg) S = S\<lparr>lt_mutex := Some t, lt_at := (lt_at S)(t \<mapsto> (Locked, level, msg))\<rparr>"
| "lt_next t (Locked, level, msg) S =
     (set_buf (overlay 0 (lt_tm S @ [nul])) S)\<lparr>lt_at := (lt_at S)(t \<mapsto> (Dated, level, msg))\<rparr>"
| "lt_next t (Dated, level, msg) S =
     (set_buf (overlay 20 (level_name level)) S)\<lparr>lt_at := (lt_at S)(t \<mapsto> (Named, level, msg))\<rparr>"
| "lt_next t (Named, level, msg) S =
     (set_buf (vprint_text level msg) S)\<lparr>lt_at := (lt_at S)(t \<mapsto> (Printed, level, msg))\<rparr>"
| "lt_next t (Printed, level, msg) S =
     S\<lparr>lt_logger := vprint_write level msg (lt_logger S), lt_mutex := None, lt_at := (lt_at S)(t := None)\<rparr>"

fun lt_handle :: "lt_event \<Rightarrow> lthreads \<Rightarrow> lthreads" where
  "lt_handle (LCall t level msg now) S = S\<lparr>lt_tm := now, lt_at := (lt_at S)(t \<mapsto> (Timed, level, msg))\<rparr>"
| "lt_handle (LNext t) S = (case lt_at S t of None \<Rightarrow> S | Some c \<Rightarrow> lt_next t c S)"

text \<open>A thread makes one call at a time; the mutex makes it wait.\<close>

fun lt_allowed :: "lthreads \<Rightarrow> lt_event \<Rightarrow> bool" where
  "lt_allowed S (LCall t level msg now) = (lt_at S t = None)"
| "lt_allowed S (LNext t) = (case lt_at S t of None \<Rightarrow> False | Some (st, _) \<Rightarrow> st = Timed \<longrightarrow> lt_mutex S = None)"

definition lt_step :: "lthreads \<Rightarrow> lt_event \<Rightarrow> lthreads \<Rightarrow> bool" where
  "lt_step S e T \<longleftrightarrow> lt_allowed S e \<and> T = lt_handle e S"

section \<open>The sequential log\<close>

text \<open>A finished call, with the thread and the time it printed, and the logger they lead to.\<close>

type_synonym log_call = "nat \<times> Level \<times> bytes \<times> bytes"

definition in_turn :: "log_call list \<Rightarrow> logger \<Rightarrow> logger" where
  "in_turn cs lg = foldl (\<lambda>lg (t, level, ts, msg). vprint level ts msg lg) lg cs"

lemma in_turn_simps [simp]: "in_turn [] lg = lg" "in_turn (cs @ [(t, level, ts, msg)]) lg = vprint level ts msg (in_turn cs lg)"
  by (simp_all add: in_turn_def)

text \<open>The buffer of a call that has come to a step, from what it was before.\<close>

fun filled :: "lstep \<Rightarrow> Level \<Rightarrow> bytes \<Rightarrow> bytes \<Rightarrow> bytes \<Rightarrow> bytes" where
  "filled Timed level ts msg b = b"
| "filled Locked level ts msg b = b"
| "filled Dated level ts msg b = overlay 0 (ts @ [nul]) b"
| "filled Named level ts msg b = overlay 20 (level_name level) (overlay 0 (ts @ [nul]) b)"
| "filled Printed level ts msg b = vprint_text level msg (overlay 20 (level_name level) (overlay 0 (ts @ [nul]) b))"

lemma vprint_parts:
  "vprint_write level msg (lg\<lparr>log_buf := filled Printed level ts msg (log_buf lg)\<rparr>) = vprint level ts msg lg"
  by (simp add: vprint_write_def vprint_def vprint_text_def Let_def)

text \<open>The calls a thread has made in a run, and the times given out.\<close>

definition calls_of :: "nat \<Rightarrow> lt_event list \<Rightarrow> (Level \<times> bytes) list" where
  "calls_of t es = concat (map (\<lambda>e. case e of LCall u level msg now \<Rightarrow> if u = t then [(level, msg)] else [] | LNext u \<Rightarrow> []) es)"

definition stamps :: "lt_event list \<Rightarrow> bytes set" where
  "stamps es = {now. \<exists>t level msg. LCall t level msg now \<in> set es}"

definition finished :: "nat \<Rightarrow> log_call list \<Rightarrow> (Level \<times> bytes) list" where
  "finished t cs = map (\<lambda>(u, level, ts, msg). (level, msg)) (filter (\<lambda>c. fst c = t) cs)"

definition under_way :: "(lstep \<times> Level \<times> bytes) option \<Rightarrow> (Level \<times> bytes) list" where
  "under_way c = (case c of None \<Rightarrow> [] | Some (st, level, msg) \<Rightarrow> [(level, msg)])"

section \<open>The invariant\<close>

text \<open>Who has the mutex, and what the logger is then.\<close>

definition mutex_ok :: "lthreads \<Rightarrow> bool" where
  "mutex_ok S \<longleftrightarrow> (\<forall>t. lt_mutex S = Some t \<longleftrightarrow> (\<exists>st level msg. lt_at S t = Some (st, level, msg) \<and> st \<noteq> Timed))"

definition logger_ok :: "logger \<Rightarrow> bytes set \<Rightarrow> lthreads \<Rightarrow> bool" where
  "logger_ok lg T S \<longleftrightarrow> (case lt_mutex S of
     None \<Rightarrow> lt_logger S = lg
   | Some t \<Rightarrow> \<exists>st level msg ts. lt_at S t = Some (st, level, msg) \<and> ts \<in> T
       \<and> lt_logger S = lg\<lparr>log_buf := filled st level ts msg (log_buf lg)\<rparr>)"

definition lt_inv :: "logger \<Rightarrow> lt_event list \<Rightarrow> log_call list \<Rightarrow> lthreads \<Rightarrow> bool" where
  "lt_inv lg es cs S \<longleftrightarrow> mutex_ok S \<and> logger_ok (in_turn cs lg) (stamps es) S
   \<and> (\<forall>t. lt_at S t \<noteq> None \<longrightarrow> lt_tm S \<in> stamps es)
   \<and> (\<forall>t. calls_of t es = finished t cs @ under_way (lt_at S t))
   \<and> (\<forall>c \<in> set cs. fst (snd (snd c)) \<in> stamps es)"

lemma calls_of_snoc: "calls_of t (es @ [e]) = calls_of t es @ calls_of t [e]"
  by (simp add: calls_of_def)

lemma stamps_snoc: "stamps (es @ [e]) = stamps es \<union> stamps [e]"
  by (auto simp: stamps_def)

lemma event_simps [simp]: "calls_of t [LCall u level msg now] = (if u = t then [(level, msg)] else [])" "calls_of t [LNext u] = []"
  "stamps [LCall u level msg now] = {now}" "stamps [LNext u] = {}"
  by (auto simp: calls_of_def stamps_def)

lemma lt_inv_call:
  assumes "lt_inv lg es cs S" "lt_at S t = None"
  shows "lt_inv lg (es @ [LCall t level msg now]) cs (lt_handle (LCall t level msg now) S)" (is "lt_inv lg ?es cs ?S")
proof -
  have free: "lt_mutex S \<noteq> Some t" using assms by (auto simp: lt_inv_def mutex_ok_def)
  have "mutex_ok ?S" using assms by (auto simp: lt_inv_def mutex_ok_def)
  moreover have "logger_ok (in_turn cs lg) (stamps ?es) ?S"
    using assms free unfolding lt_inv_def logger_ok_def stamps_snoc by (cases "lt_mutex S") auto
  moreover have "calls_of u ?es = finished u cs @ under_way (lt_at ?S u)" for u
    using assms by (auto simp: lt_inv_def calls_of_snoc under_way_def)
  moreover have "lt_tm ?S \<in> stamps ?es" by (simp add: stamps_snoc)
  moreover have "\<forall>c \<in> set cs. fst (snd (snd c)) \<in> stamps ?es" using assms(1) by (auto simp: lt_inv_def stamps_snoc)
  ultimately show ?thesis unfolding lt_inv_def by blast
qed

text \<open>A step of the thread that has the mutex, or takes it.\<close>

lemma finished_snoc: "finished u (cs @ [(t, level, ts, msg)]) = finished u cs @ (if t = u then [(level, msg)] else [])"
  by (simp add: finished_def)

lemma mutex_ok_moved:
  assumes "mutex_ok S" "lt_mutex S = None \<or> lt_mutex S = Some t" "lt_at T = (lt_at S)(t \<mapsto> (st, level, msg))" "st \<noteq> Timed" "lt_mutex T = Some t"
  shows "mutex_ok T"
  unfolding mutex_ok_def
proof
  show "lt_mutex T = Some u \<longleftrightarrow> (\<exists>st level msg. lt_at T u = Some (st, level, msg) \<and> st \<noteq> Timed)" for u
  proof (cases "u = t")
    case False
    with assms(2) have "lt_mutex S \<noteq> Some u" by auto
    then have "\<not> (\<exists>st level msg. lt_at S u = Some (st, level, msg) \<and> st \<noteq> Timed)" using assms(1) unfolding mutex_ok_def by blast
    with False assms(3,5) show ?thesis by simp
  qed (use assms in simp)
qed

lemma lt_inv_moved:
  assumes "lt_inv lg es cs S" "lt_at S t = Some (st, level, msg)" "lt_mutex S = None \<or> lt_mutex S = Some t"
    and "lt_at T = (lt_at S)(t \<mapsto> (st', level, msg))" "st' \<noteq> Timed" "lt_mutex T = Some t" "lt_tm T = lt_tm S"
    and "ts \<in> stamps es" "lt_logger T = (in_turn cs lg)\<lparr>log_buf := filled st' level ts msg (log_buf (in_turn cs lg))\<rparr>"
  shows "lt_inv lg (es @ [LNext t]) cs T"
proof -
  have "mutex_ok T" using mutex_ok_moved [OF _ assms(3-6)] assms(1) by (simp add: lt_inv_def)
  moreover have "logger_ok (in_turn cs lg) (stamps es) T" using assms(4,6,8,9) by (auto simp: logger_ok_def)
  moreover have "calls_of u es = finished u cs @ under_way (lt_at T u)" for u
    using assms(1,2,4) by (auto simp: lt_inv_def under_way_def)
  moreover have "lt_at T u \<noteq> None \<longrightarrow> lt_tm T \<in> stamps es" for u
    using assms(1,2,4,7) by (auto simp: lt_inv_def)
  ultimately show ?thesis using assms(1) unfolding lt_inv_def by (simp add: calls_of_snoc stamps_snoc)
qed

lemma lt_inv_done:
  assumes "lt_inv lg es cs S" "lt_at S t = Some (Printed, level, msg)" "lt_mutex S = Some t"
  shows "\<exists>ts. lt_inv lg (es @ [LNext t]) (cs @ [(t, level, ts, msg)]) (lt_next t (Printed, level, msg) S)"
proof -
  let ?T = "lt_next t (Printed, level, msg) S"
  obtain ts where ts: "ts \<in> stamps es" "lt_logger S = (in_turn cs lg)\<lparr>log_buf := filled Printed level ts msg (log_buf (in_turn cs lg))\<rparr>"
    using assms by (auto simp: lt_inv_def logger_ok_def)
  let ?cs = "cs @ [(t, level, ts, msg)]"
  have "mutex_ok ?T" using assms by (auto simp: lt_inv_def mutex_ok_def)
  moreover have "logger_ok (in_turn ?cs lg) (stamps es) ?T"
    using ts(2) vprint_parts [where lg = "in_turn cs lg"] by (simp add: logger_ok_def)
  moreover have "calls_of u es = finished u ?cs @ under_way (lt_at ?T u)" for u
    using assms(1,2) by (auto simp: lt_inv_def under_way_def finished_snoc)
  moreover have "lt_at ?T u \<noteq> None \<longrightarrow> lt_tm ?T \<in> stamps es" for u
    using assms(1) by (auto simp: lt_inv_def)
  moreover have "\<forall>c \<in> set ?cs. fst (snd (snd c)) \<in> stamps es" using assms(1) ts(1) by (auto simp: lt_inv_def)
  ultimately show ?thesis unfolding lt_inv_def by (auto simp: calls_of_snoc stamps_snoc simp del: lt_next.simps)
qed

lemma lt_inv_next:
  assumes inv: "lt_inv lg es cs S" and at: "lt_at S t = Some (st, level, msg)" and "st = Timed \<longrightarrow> lt_mutex S = None"
  shows "\<exists>cs'. lt_inv lg (es @ [LNext t]) cs' (lt_next t (st, level, msg) S)"
proof (cases "st = Timed")
  case True
  have tm: "lt_tm S \<in> stamps es" using inv at unfolding lt_inv_def by blast
  have "lt_logger S = in_turn cs lg" using inv True assms(3) by (simp add: lt_inv_def logger_ok_def)
  then show ?thesis using True assms(3)
    by (intro exI [of _ cs] lt_inv_moved [OF inv at _ _ _ _ _ tm, where st' = Locked]) simp_all
next
  case False
  then have mutex: "lt_mutex S = Some t" using inv at by (auto simp: lt_inv_def mutex_ok_def)
  have tm: "lt_tm S \<in> stamps es" using inv at unfolding lt_inv_def by blast
  obtain ts where ts: "ts \<in> stamps es" "lt_logger S = (in_turn cs lg)\<lparr>log_buf := filled st level ts msg (log_buf (in_turn cs lg))\<rparr>"
    using inv at mutex by (auto simp: lt_inv_def logger_ok_def)
  note move = lt_inv_moved [OF inv at disjI2 [OF mutex]]
  show ?thesis
  proof (cases st)
    case Locked
    with ts mutex show ?thesis by (intro exI [of _ cs] move [OF _ _ _ _ tm, where st' = Dated]) (simp_all add: set_buf_def)
  next
    case Dated
    with ts mutex show ?thesis by (intro exI [of _ cs] move [OF _ _ _ _ ts(1), where st' = Named]) (simp_all add: set_buf_def)
  next
    case Named
    with ts mutex show ?thesis by (intro exI [of _ cs] move [OF _ _ _ _ ts(1), where st' = Printed]) (simp_all add: set_buf_def)
  next
    case Printed
    with lt_inv_done [OF inv _ mutex] at show ?thesis by blast
  qed (use False in simp)
qed

lemma lt_inv_step:
  assumes "lt_inv lg es cs S" "lt_step S e T"
  shows "\<exists>cs'. lt_inv lg (es @ [e]) cs' T"
proof (cases e)
  case (LCall t level msg now)
  then have "lt_at S t = None" "T = lt_handle e S" using assms(2) by (auto simp: lt_step_def)
  with lt_inv_call [OF assms(1)] LCall show ?thesis by blast
next
  case (LNext t)
  with assms lt_inv_next [OF assms(1)] show ?thesis by (auto simp: lt_step_def split: option.splits)
qed

lemma lt_inv_run: "run lt_step S es T \<Longrightarrow> lt_inv lg hs cs S \<Longrightarrow> \<exists>cs'. lt_inv lg (hs @ es) cs' T"
proof (induction arbitrary: hs cs rule: run.induct)
  case (run_Cons S e U es T)
  from lt_inv_step [OF run_Cons.prems run_Cons.hyps(1)] obtain cs' where "lt_inv lg (hs @ [e]) cs' U" by blast
  from run_Cons.IH [OF this] show ?case by simp
qed auto

lemma lt_inv_init: "lt_inv lg [] [] (lt_init lg tm)"
  by (simp add: lt_inv_def lt_init_def mutex_ok_def logger_ok_def calls_of_def finished_def under_way_def)

section \<open>Properties\<close>

definition lines_of :: "int \<Rightarrow> log_call list \<Rightarrow> (int \<times> bytes) list" where
  "lines_of fd cs = [(fd, log_line (ts @ level_name level @ msg)). (t, level, ts, msg) \<leftarrow> cs, msg \<noteq> []]"

lemma in_turn_lines:
  assumes "length (log_buf lg) = bufsize" "\<forall>c \<in> set cs. length (fst (snd (snd c))) = 20"
  shows "length (log_buf (in_turn cs lg)) = bufsize \<and> log_fd (in_turn cs lg) = log_fd lg
    \<and> written (in_turn cs lg) = written lg @ lines_of (log_fd lg) cs"
  using assms(2)
proof (induction cs rule: rev_induct)
  case Nil
  with assms(1) show ?case by (simp add: lines_of_def)
next
  case (snoc c cs)
  obtain t level ts msg where c: "c = (t, level, ts, msg)" by (cases c)
  let ?lg = "in_turn cs lg"
  have IH: "length (log_buf ?lg) = bufsize" "log_fd ?lg = log_fd lg" "written ?lg = written lg @ lines_of (log_fd lg) cs"
    and ts: "length ts = 20" using snoc c by auto
  have fd: "log_fd (vprint level ts msg ?lg) = log_fd lg" using IH(2) by (simp add: vprint_def Let_def)
  show ?case
  proof (cases "msg = []")
    case True
    then have "vprint level ts msg ?lg = ?lg\<lparr>log_buf := line_buf level ts msg (log_buf ?lg)\<rparr>" by (simp add: vprint_alt Let_def)
    with True c IH line_buf_take(1) [OF IH(1) ts] show ?thesis by (simp add: lines_of_def)
  next
    case False
    with c IH fd vprint_line [OF IH(1) ts False, of level] show ?thesis by (simp add: lines_of_def)
  qed
qed

text \<open>
  C21: threads that log at the same time do not mix up their lines. Whatever the interleaving of
  their statements, what has been written is a sequence of whole lines, one for each finished
  call with a text, and each thread's lines come in the order of its calls; when nobody has the
  mutex the logger is exactly as after those calls made one after another. A line has the time
  of a call, though not always that of its own.
\<close>

theorem logger_threads_sequential:
  assumes "run lt_step (lt_init lg tm) es S" "length (log_buf lg) = bufsize" "\<forall>ts \<in> stamps es. length ts = 20"
  shows "\<exists>cs. written (lt_logger S) = written lg @ lines_of (log_fd lg) cs
    \<and> (\<forall>t. calls_of t es = finished t cs @ under_way (lt_at S t))
    \<and> (\<forall>c \<in> set cs. fst (snd (snd c)) \<in> stamps es)
    \<and> (lt_mutex S = None \<longrightarrow> lt_logger S = in_turn cs lg)"
proof -
  obtain cs where cs: "lt_inv lg es cs S" using lt_inv_run [OF assms(1) lt_inv_init] by auto
  have "written (lt_logger S) = written (in_turn cs lg)"
    using cs by (cases "lt_mutex S") (auto simp: lt_inv_def logger_ok_def)
  moreover have "\<forall>c \<in> set cs. length (fst (snd (snd c))) = 20" using cs assms(3) by (auto simp: lt_inv_def)
  moreover have "lt_mutex S = None \<longrightarrow> lt_logger S = in_turn cs lg" using cs by (auto simp: lt_inv_def logger_ok_def)
  ultimately show ?thesis using in_turn_lines [OF assms(2)] cs unfolding lt_inv_def by metis
qed

text \<open>Two threads: the second calls before the first has the mutex and is the first to write.\<close>

definition sample_logger :: logger where
  "sample_logger = \<lparr>log_fd = 1, log_level = INFO, log_buf = replicate bufsize nul, written = [], errout = []\<rparr>"

definition early :: bytes where "early = replicate 20 CHR ''e''"
definition late :: bytes where "late = replicate 20 CHR ''l''"

definition race_events :: "lt_event list" where
  "race_events = [LCall 1 INFO ''one'' early, LCall 2 WARN ''two'' late] @ replicate 5 (LNext 2) @ replicate 5 (LNext 1)"

fun lt_exec :: "lt_event list \<Rightarrow> lthreads \<Rightarrow> lthreads option" where
  "lt_exec [] S = Some S"
| "lt_exec (e # es) S = (if lt_allowed S e then lt_exec es (lt_handle e S) else None)"

lemma lt_exec_run: "lt_exec es S = Some T \<Longrightarrow> run lt_step S es T"
  by (induction es S rule: lt_exec.induct) (auto simp: lt_step_def run_Nil split: if_splits intro: run_Cons)

lemma race_run:
  "\<exists>S. lt_exec race_events (lt_init sample_logger early) = Some S
     \<and> lt_logger S = vprint INFO late ''one'' (vprint WARN late ''two'' sample_logger)
     \<and> lt_at S = (\<lambda>_. None)"
  by (simp add: race_events_def lt_init_def set_buf_def numeral_eq_Suc fun_eq_iff vprint_parts [simplified, symmetric])

lemma race_lines:
  "written (vprint INFO late ''one'' (vprint WARN late ''two'' sample_logger))
     = lines_of 1 [(2, WARN, late, ''two''), (1, INFO, late, ''one'')]"
  using in_turn_lines [of sample_logger "[(2, WARN, late, ''two''), (1, INFO, late, ''one'')]"]
  by (simp add: in_turn_def sample_logger_def late_def)

theorem logger_threads_sequential_witness:
  "\<exists>S cs. run lt_step (lt_init sample_logger early) race_events S \<and> written (lt_logger S) = lines_of 1 cs
     \<and> (\<forall>t. calls_of t race_events = finished t cs) \<and> calls_of 1 race_events = [(INFO, ''one'')]"
proof -
  obtain S where S: "lt_exec race_events (lt_init sample_logger early) = Some S" "lt_at S = (\<lambda>_. None)" using race_run by blast
  have "\<forall>ts \<in> stamps race_events. length ts = 20"
    by (auto simp: stamps_def race_events_def early_def late_def)
  from logger_threads_sequential [OF lt_exec_run [OF S(1)] _ this] obtain cs where
    "written (lt_logger S) = lines_of 1 cs" "\<forall>t. calls_of t race_events = finished t cs"
    using S(2) by (auto simp: sample_logger_def under_way_def)
  moreover have "calls_of 1 race_events = [(INFO, ''one'')]" by (simp add: calls_of_def race_events_def)
  ultimately show ?thesis using lt_exec_run [OF S(1)] by blast
qed

text \<open>
  \<open>localtime\<close> is called before the mutex is taken and returns the same object to all threads:
  the first thread's line has the time of the second one's call.
\<close>

theorem log_time_race:
  "\<exists>S. run lt_step (lt_init sample_logger early) race_events S \<and> LCall 1 INFO ''one'' early \<in> set race_events
     \<and> written (lt_logger S) = [(1, late @ ''WARN two'' @ [CHR 0x0A]), (1, late @ ''INFO one'' @ [CHR 0x0A])]"
proof -
  obtain S where S: "lt_exec race_events (lt_init sample_logger early) = Some S"
    "lt_logger S = vprint INFO late ''one'' (vprint WARN late ''two'' sample_logger)" using race_run by blast
  have "lines_of 1 [(2, WARN, late, ''two''), (1, INFO, late, ''one'')]
      = [(1, late @ ''WARN two'' @ [CHR 0x0A]), (1, late @ ''INFO one'' @ [CHR 0x0A])]"
    by (simp add: lines_of_def log_line_def late_def bufsize_def)
  with S race_lines lt_exec_run [OF S(1)] show ?thesis by (auto simp: race_events_def)
qed

end
