(* ===== verification/ConnectTimes.thy ===== *)
theory ConnectTimes
  imports Systems
begin

text \<open>
  When \<open>TcpClient::Connect\<close> tries and when it gives up: its timer (\<open>src/timer.cc\<close>) passes a tick
  of libuv to the listener only once its interval of 500 ms has passed by the time of day, and
  the listener (\<open>src/tcp_client.cc\<close>) reads the time of day again to see whether the timeout of
  the configuration has passed.
\<close>

section \<open>Ticks with the clock\<close>

text \<open>The timer \<open>Connect\<close> creates and starts at \<open>t\<close>.\<close>

definition connect_timer :: "timeval \<Rightarrow> timer" where
  "connect_timer t = snd (timer_Start 0 0 t ((new_timer_object 500 t)\<lparr>has_on_tick := True\<rparr>))"

text \<open>A tick of libuv, the filter reading the clock at \<open>e\<close> and the listener at \<open>e'\<close>; another event.\<close>

datatype clocked_event =
    ClockedTick timeval timeval int
  | Unclocked tevent

fun unclocked :: "tevent \<Rightarrow> bool" where
  "unclocked (TTick el dns) = False"
| "unclocked e = True"

fun clocked_handle :: "64 word \<Rightarrow> timer \<Rightarrow> clocked_event \<Rightarrow> connector \<Rightarrow> fault + connector" where
  "clocked_handle timeout tm (ClockedTick e e' dns) w =
     (if OnTick_fires e tm then thandle timeout (TTick (GetElapsedTime e' tm) dns) w else Inr w)"
| "clocked_handle timeout tm (Unclocked e) w = thandle timeout e w"

fun clocked_allowed :: "connector \<Rightarrow> clocked_event \<Rightarrow> bool" where
  "clocked_allowed w (ClockedTick e e' dns) = (tallowed w (TTick 0 dns) \<and> torderly w (TTick 0 dns))"
| "clocked_allowed w (Unclocked e) = (unclocked e \<and> tallowed w e \<and> torderly w e)"

text \<open>The clock does not run backwards.\<close>

fun forward :: "timer \<Rightarrow> clocked_event \<Rightarrow> bool" where
  "forward tm (ClockedTick e e' dns) = (clock_ok e \<and> clock_ok e' \<and> micros (start_time tm) \<le> micros e \<and> micros e \<le> micros e')"
| "forward tm (Unclocked e) = True"

definition clocked_step :: "64 word \<Rightarrow> timer \<Rightarrow> connector \<Rightarrow> clocked_event \<Rightarrow> connector \<Rightarrow> bool" where
  "clocked_step timeout tm w e v \<longleftrightarrow> forward tm e \<and> clocked_allowed w e \<and> clocked_handle timeout tm e w = Inr v"

text \<open>With the clock, a connector does what it does without: its runs are runs of the connector's system.\<close>

lemma clocked_connector:
  assumes "clocked_step timeout tm w e v"
  shows "v = w \<or> (\<exists>d. tstep timeout w d v)"
proof (cases e)
  case (ClockedTick a b dns)
  show ?thesis
  proof (cases "OnTick_fires a tm")
    case True
    with assms ClockedTick have "tstep timeout w (TTick (GetElapsedTime b tm) dns) v"
      by (auto simp: clocked_step_def tstep_def tstep_any_def)
    then show ?thesis by blast
  qed (use assms ClockedTick in \<open>simp add: clocked_step_def\<close>)
next
  case (Unclocked d)
  with assms have "tstep timeout w d v" by (simp add: clocked_step_def tstep_def tstep_any_def)
  then show ?thesis by blast
qed

lemma clocked_reach: "run (clocked_step timeout tm) w es v \<Longrightarrow> reach tinit (tstep timeout) w \<Longrightarrow> reach tinit (tstep timeout) v"
proof (induction rule: run.induct)
  case (run_Cons w e u es v)
  have "reach tinit (tstep timeout) u"
    using clocked_connector [OF run_Cons.hyps(1)] run_Cons.prems reach_step [of tinit "tstep timeout"] by blast
  with run_Cons.IH show ?case .
qed simp

section \<open>Elapsed times\<close>

lemma start_connect_timer [simp]: "start_time (connect_timer t) = t" "interval (connect_timer t) = 500" "has_on_tick (connect_timer t)"
  by (simp_all add: connect_timer_def timer_Start_def new_timer_object_def)

lemma elapsed_mono:
  assumes "clock_ok t" "clock_ok e" "clock_ok e'" "micros t \<le> micros e" "micros e \<le> micros e'"
  shows "GetElapsedTime e (connect_timer t) \<le> GetElapsedTime e' (connect_timer t)"
    "uint (GetElapsedTime e' (connect_timer t)) < 2 ^ 62"
proof -
  have f: "uint (GetElapsedTime e (connect_timer t)) = micros e div 1000 - micros t div 1000"
    "uint (GetElapsedTime e' (connect_timer t)) = micros e' div 1000 - micros t div 1000"
    using elapsed_forward [of e "connect_timer t"] elapsed_forward [of e' "connect_timer t"] assms by simp_all
  then show "GetElapsedTime e (connect_timer t) \<le> GetElapsedTime e' (connect_timer t)"
    using assms(5) by (simp add: word_le_def zdiv_mono1)
  show "uint (GetElapsedTime e' (connect_timer t)) < 2 ^ 62"
    using f(2) millis_range [OF assms(3)] millis_range [OF assms(1)] by simp
qed

text \<open>What a tick that gets through does, by the time it is.\<close>

lemma fired_elapsed:
  assumes "clock_ok t" "forward (connect_timer t) (ClockedTick a b dns)" "OnTick_fires a (connect_timer t)"
  shows "500 \<le> GetElapsedTime b (connect_timer t)" "uint (GetElapsedTime b (connect_timer t)) < 2 ^ 62"
proof -
  have ok: "clock_ok a" "clock_ok b" "micros t \<le> micros a" "micros a \<le> micros b" using assms(2) by simp_all
  have "500 \<le> GetElapsedTime a (connect_timer t)" using assms(3) by (simp add: OnTick_fires_def)
  also have "\<dots> \<le> GetElapsedTime b (connect_timer t)" by (rule elapsed_mono(1) [OF assms(1) ok])
  finally show "500 \<le> GetElapsedTime b (connect_timer t)" .
  show "uint (GetElapsedTime b (connect_timer t)) < 2 ^ 62" by (rule elapsed_mono(2) [OF assms(1) ok])
qed

lemma tick_cases:
  assumes "try_tick timeout el dns w = Inr v"
  shows "(next_client v \<noteq> next_client w \<longrightarrow> el < timeout) \<and> (thens v \<noteq> thens w \<longrightarrow> timeout \<le> el)"
  using assms
  by (cases "timeout \<le> el") (auto simp: connect_defs bindE_Inr_iff not_le split: if_splits option.splits)

lemma connect_data:
  assumes "tinv w" "tallowed w (TConnect c st rs quit)" "st = 0"
  shows "data_client w = Some c"
proof -
  from assms have "next_client w = c + 1" using tinv_last [of w c] by simp
  with assms show ?thesis by (auto simp: tinv_def Let_def phase_defs split: if_splits)
qed

lemma unclocked_effect:
  assumes "thandle timeout e w = Inr v" "unclocked e" "tallowed w e" "tinv w"
  shows "next_client v = next_client w \<and> (thens v = thens w \<or> (\<exists>c. thens v = thens w @ [Some c]))"
proof (cases e)
  case (TConnect c st rs quit)
  show ?thesis
  proof (cases "st = 0")
    case True
    with connect_data [OF assms(4)] assms(3) TConnect have "data_client w = Some c" by blast
    with TConnect True assms(1) show ?thesis
      by (auto simp: connect_defs bindE_Inr_iff split: if_splits option.splits)
  next
    case False
    with TConnect assms(1) show ?thesis by (auto simp: connect_defs bindE_Inr_iff split: if_splits option.splits)
  qed
qed (use assms(1,2) in \<open>auto simp: connect_defs bindE_Inr_iff split: if_splits option.splits\<close>)

lemma clocked_effect:
  assumes "clock_ok t" "clocked_step timeout (connect_timer t) w e v" "reach tinit (tstep timeout) w"
  shows "(next_client v \<noteq> next_client w \<longrightarrow> 500 < timeout)
    \<and> (None \<in> set (thens v) \<longrightarrow> None \<notin> set (thens w) \<longrightarrow> uint timeout < 2 ^ 62)"
proof (cases e)
  case (ClockedTick a b dns)
  show ?thesis
  proof (cases "OnTick_fires a (connect_timer t)")
    case True
    have f: "forward (connect_timer t) (ClockedTick a b dns)" using assms(2) ClockedTick by (simp add: clocked_step_def)
    have "try_tick timeout (GetElapsedTime b (connect_timer t)) dns w = Inr v"
      using assms(2) True unfolding ClockedTick clocked_step_def by auto
    from tick_cases [OF this] fired_elapsed [OF assms(1) f True] show ?thesis
      by (auto simp: word_le_def word_less_def)
  qed (use assms(2) ClockedTick in \<open>simp add: clocked_step_def\<close>)
next
  case (Unclocked d)
  with assms(2) have "thandle timeout d w = Inr v" "unclocked d" "tallowed w d" by (simp_all add: clocked_step_def)
  from unclocked_effect [OF this connectors.reach_inv [OF assms(3)]] show ?thesis by auto
qed

lemma run_clocked_effect:
  assumes "run (clocked_step timeout (connect_timer t)) w es v" "clock_ok t" "reach tinit (tstep timeout) w"
  shows "(timeout \<le> 500 \<longrightarrow> next_client v = next_client w)
    \<and> (2 ^ 62 \<le> uint timeout \<longrightarrow> None \<in> set (thens v) \<longrightarrow> None \<in> set (thens w))"
  using assms(1,3)
proof (induction rule: run.induct)
  case (run_Cons w e u es v)
  have "reach tinit (tstep timeout) u"
    using clocked_connector [OF run_Cons.hyps(1)] run_Cons.prems reach_step [of tinit "tstep timeout"] by blast
  with run_Cons.IH clocked_effect [OF assms(2) run_Cons.hyps(1) run_Cons.prems] show ?case by auto
qed simp

section \<open>Property\<close>

text \<open>
  C39: the timeout of the configuration against the timer's 500 ms, while the clock does not run
  backwards. Then a \<open>connect_timeout\<close> from 0 to 500 means that no connection is ever attempted: no
  client is created, and the only answer can be failure; and a negative one, which the parser
  accepts, means that the connector never gives up. When the clock is set back neither is claimed.
\<close>

theorem connect_timeout_extremes:
  assumes "run (clocked_step (dial_timeout up) (connect_timer t)) try_start es w" "clock_ok t" "- (2 ^ 31) \<le> up_connect_timeout up"
  shows "(0 \<le> up_connect_timeout up \<and> up_connect_timeout up \<le> 500 \<longrightarrow> next_client w = 0 \<and> (thens w = [] \<or> thens w = [None]))
    \<and> (up_connect_timeout up < 0 \<longrightarrow> None \<notin> set (thens w))"
proof -
  have init: "reach tinit (tstep (dial_timeout up)) try_start" by (simp add: reach_init tinit_def)
  note eff = run_clocked_effect [OF assms(1,2) init]
  have inv: "tinv w" using connectors.reach_inv [OF clocked_reach [OF assms(1) init]] .
  show ?thesis
  proof (intro conjI impI)
    assume t: "0 \<le> up_connect_timeout up \<and> up_connect_timeout up \<le> 500"
    then have "uint (dial_timeout up) = up_connect_timeout up"
      by (simp add: dial_timeout_def uint_word_of_int take_bit_int_eq_self)
    with t have "dial_timeout up \<le> 500" by (simp add: word_le_def)
    with eff show n: "next_client w = 0" by (simp add: try_start_def)
    with inv show "thens w = [] \<or> thens w = [None]" by (auto simp: tinv_def Let_def connected_def)
  next
    assume t: "up_connect_timeout up < 0"
    have "uint (dial_timeout up) = (up_connect_timeout up + 2 ^ 64) mod 2 ^ 64"
      by (simp add: dial_timeout_def uint_word_of_int take_bit_eq_mod)
    also have "\<dots> = up_connect_timeout up + 2 ^ 64" using t assms(3) by (intro mod_pos_pos_trivial) simp_all
    finally have "2 ^ 62 \<le> uint (dial_timeout up)" using assms(3) by simp
    with eff show "None \<notin> set (thens w)" by (simp add: try_start_def)
  qed
qed

text \<open>With a timeout of 500 the first tick that gets through, at 700 ms, gives up.\<close>

theorem connect_timeout_extremes_witness:
  "\<exists>w. run (clocked_step (dial_timeout (new_upstream\<lparr>up_connect_timeout := 500\<rparr>)) (connect_timer \<lparr>tv_sec = 10, tv_usec = 0\<rparr>)) try_start
       [ClockedTick \<lparr>tv_sec = 10, tv_usec = 200000\<rparr> \<lparr>tv_sec = 10, tv_usec = 200000\<rparr> 0,
        ClockedTick \<lparr>tv_sec = 10, tv_usec = 700000\<rparr> \<lparr>tv_sec = 10, tv_usec = 700000\<rparr> 0] w
     \<and> thens w = [None] \<and> next_client w = 0"
proof -
  let ?up = "new_upstream\<lparr>up_connect_timeout := 500\<rparr>" and ?t = "\<lparr>tv_sec = 10, tv_usec = 0\<rparr>"
  let ?es = "[ClockedTick \<lparr>tv_sec = 10, tv_usec = 200000\<rparr> \<lparr>tv_sec = 10, tv_usec = 200000\<rparr> 0,
        ClockedTick \<lparr>tv_sec = 10, tv_usec = 700000\<rparr> \<lparr>tv_sec = 10, tv_usec = 700000\<rparr> 0]"
  have "\<exists>w. exec_run (\<lambda>w e. forward (connect_timer ?t) e \<and> clocked_allowed w e) (clocked_handle (dial_timeout ?up) (connect_timer ?t)) ?es try_start = Some w
      \<and> thens w = [None]"
    by (simp add: OnTick_fires_def GetElapsedTime_def millis_def dial_timeout_def try_start_def try_tick_def clock_ok_def micros_def)
  then obtain w where w: "exec_run (\<lambda>w e. forward (connect_timer ?t) e \<and> clocked_allowed w e) (clocked_handle (dial_timeout ?up) (connect_timer ?t)) ?es try_start = Some w"
      "thens w = [None]" by blast
  have r: "run (clocked_step (dial_timeout ?up) (connect_timer ?t)) try_start ?es w"
    by (rule exec_run_run [OF w(1)]) (simp add: clocked_step_def)
  have "clock_ok ?t" "- (2 ^ 31) \<le> up_connect_timeout ?up" by (simp_all add: clock_ok_def)
  from connect_timeout_extremes [OF r this] w(2) r show ?thesis by auto
qed

end
