(* ===== verification/Handles.thy ===== *)
theory Handles
  imports FunctionLists TcpConnects
begin

text \<open>
  \<open>Handle\<close> (\<open>include/handle.h\<close>, \<open>src/handle.cc\<close>), the base class of every object that libuv
  knows: its listeners, its data with the function that frees it, and its close callback,
  which deletes it. What libuv keeps of a handle is whether it is closing. The close callbacks
  of the connector's theory are shown to be this one.
\<close>

section \<open>The class\<close>

text \<open>Listeners and freers are names; what they do is an argument of the operations that call them.\<close>

record ('f, 'g, 'd) handle_object =
  h_data :: "nat option"
  h_freer :: "'d option"
  close_list :: "'f flist"
  error_list :: "'g flist"
  h_closing :: bool
  h_deleted :: bool

definition new_handle :: "('f, 'g, 'd) handle_object" where
  "new_handle = \<lparr>h_data = None, h_freer = None, close_list = empty_flist, error_list = empty_flist, h_closing = False, h_deleted = False\<rparr>"

definition Handle_add_OnError :: "'g \<Rightarrow> ('f, 'g, 'd) handle_object \<Rightarrow> ('f, 'g, 'd) handle_object \<times> nat" where
  "Handle_add_OnError g h = (let (l, it) = Add g (error_list h) in (h\<lparr>error_list := l\<rparr>, it))"

definition Handle_add_OnClose :: "'f \<Rightarrow> ('f, 'g, 'd) handle_object \<Rightarrow> ('f, 'g, 'd) handle_object \<times> nat" where
  "Handle_add_OnClose f h = (let (l, it) = Add f (close_list h) in (h\<lparr>close_list := l\<rparr>, it))"

definition Handle_data :: "('f, 'g, 'd) handle_object \<Rightarrow> nat option" where
  "Handle_data h = h_data h"

definition Handle_SetData :: "nat option \<Rightarrow> 'd option \<Rightarrow> ('f, 'g, 'd) handle_object \<Rightarrow> ('f, 'g, 'd) handle_object" where
  "Handle_SetData p freer h = h\<lparr>h_data := p, h_freer := freer\<rparr>"

definition Handle_IsClosing :: "('f, 'g, 'd) handle_object \<Rightarrow> bool" where
  "Handle_IsClosing h = h_closing h"

definition Handle_Close :: "('f, 'g, 'd) handle_object \<Rightarrow> ('f, 'g, 'd) handle_object" where
  "Handle_Close h = (if \<not> h_closing h then h\<lparr>h_closing := True\<rparr> else h)"

text \<open>
  A listener may use the handle it listens to, its lists included; \<open>Invoke\<close> walks the list in
  the object.
\<close>

type_synonym ('f, 'g, 'd, 's) body = "('f, 'g, 'd) handle_object \<times> 's \<Rightarrow> fault + ('f, 'g, 'd) handle_object \<times> 's"

definition on_error_list :: "('g \<Rightarrow> ('f, 'g, 'd, 's) body) \<Rightarrow> ('g, ('f, 'g, 'd) handle_object \<times> 's) listener" where
  "on_error_list call g ls = (case ls of (l, h, s) \<Rightarrow> bindE (call g (h\<lparr>error_list := l\<rparr>, s)) (\<lambda>(h, s). Inr (error_list h, h, s)))"

definition on_close_list :: "('f \<Rightarrow> ('f, 'g, 'd, 's) body) \<Rightarrow> ('f, ('f, 'g, 'd) handle_object \<times> 's) listener" where
  "on_close_list call f ls = (case ls of (l, h, s) \<Rightarrow> bindE (call f (h\<lparr>close_list := l\<rparr>, s)) (\<lambda>(h, s). Inr (close_list h, h, s)))"

definition Handle_OnError :: "nat \<Rightarrow> (int \<Rightarrow> 'g \<Rightarrow> ('f, 'g, 'd, 's) body) \<Rightarrow> int
    \<Rightarrow> ('f, 'g, 'd) handle_object \<times> 's \<Rightarrow> (fault + ('f, 'g, 'd) handle_object \<times> 's) option" where
  "Handle_OnError fuel call err hs =
     map_option (\<lambda>r. bindE r (\<lambda>(l, h, s). Inr (h\<lparr>error_list := l\<rparr>, s))) (Invoke fuel (on_error_list (call err)) (error_list (fst hs), hs))"

text \<open>The freer is called when there are data and a freer; then the object is gone.\<close>

definition free_data :: "('d \<Rightarrow> ('f, 'g, 'd, 's) body) \<Rightarrow> ('f, 'g, 'd, 's) body" where
  "free_data free hs = (if h_data (fst hs) = None then Inr hs else case h_freer (fst hs) of None \<Rightarrow> Inr hs | Some d \<Rightarrow> free d hs)"

definition Handle_OnClose :: "nat \<Rightarrow> ('f \<Rightarrow> ('f, 'g, 'd, 's) body) \<Rightarrow> ('d \<Rightarrow> ('f, 'g, 'd, 's) body)
    \<Rightarrow> ('f, 'g, 'd) handle_object \<times> 's \<Rightarrow> (fault + ('f, 'g, 'd) handle_object \<times> 's) option" where
  "Handle_OnClose fuel call free hs =
     map_option (\<lambda>r. bindE r (\<lambda>(l, h, s). bindE (free_data free (h\<lparr>close_list := l\<rparr>, s)) (\<lambda>(h, s). Inr (h\<lparr>h_deleted := True\<rparr>, s))))
       (Invoke fuel (on_close_list call) (close_list (fst hs), hs))"

section \<open>Listeners that add listeners\<close>

text \<open>
  A body that leaves the nodes there are in place and may put new ones behind them; \<open>log\<close> is
  any record of the listeners called.
\<close>

definition appending :: "('s \<Rightarrow> 'f list) \<Rightarrow> ('f \<Rightarrow> ('f, 'g, 'd, 's) body) \<Rightarrow> bool" where
  "appending log call \<longleftrightarrow> (\<forall>f h s h' s'. call f (h, s) = Inr (h', s') \<longrightarrow> flist_wf (close_list h)
     \<longrightarrow> flist_wf (close_list h') \<and> (\<exists>new. nodes (close_list h') = nodes (close_list h) @ new) \<and> log s' = log s @ [f])"

lemma appendingD:
  assumes "appending log call" "call f (h, s) = Inr (h', s')" "flist_wf (close_list h)"
  shows "flist_wf (close_list h')" "\<exists>new. nodes (close_list h') = nodes (close_list h) @ new" "log s' = log s @ [f]"
  using assms unfolding appending_def by blast+

lemma walk_appending:
  assumes "appending log call"
  shows "walk fuel (on_close_list call) rest (l, h, s) = Some (Inr (l', h', s')) \<Longrightarrow> flist_wf l \<Longrightarrow> nodes l = done @ rest \<Longrightarrow>
    \<exists>new. nodes l' = nodes l @ new \<and> log s' = log s @ map snd (rest @ new)"
proof (induction fuel arbitrary: "done" rest l h s)
  case 0
  then show ?case by (cases rest) auto
next
  case (Suc fuel)
  show ?case
  proof (cases rest)
    case Nil
    with Suc.prems(1) show ?thesis by simp
  next
    case (Cons n ns)
    with Suc.prems(1) obtain g t where c: "call (snd n) (h\<lparr>close_list := l\<rparr>, s) = Inr (g, t)"
      by (auto simp: on_close_list_def bindE_def split: sum.splits)
    then have step: "on_close_list call (snd n) (l, h, s) = Inr (close_list g, g, t)" by (simp add: on_close_list_def)
    from appendingD [OF assms c] Suc.prems(2) obtain add where
      g: "flist_wf (close_list g)" "nodes (close_list g) = nodes l @ add" "log t = log s @ [snd n]" by auto
    have succ: "successors (fst n) (close_list g) = Inr (ns @ add)"
      using successors_split [OF g(1), of "done" n "ns @ add"] g(2) Suc.prems(3) Cons by simp
    then have "walk fuel (on_close_list call) (ns @ add) (close_list g, g, t) = Some (Inr (l', h', s'))"
      using Suc.prems(1) Cons step by simp
    from Suc.IH [OF this g(1), of "done @ [n]"] g(2) Suc.prems(3) Cons obtain new where
      "nodes l' = nodes (close_list g) @ new" "log s' = log t @ map snd ((ns @ add) @ new)" by auto
    with g(2,3) Cons show ?thesis by simp
  qed
qed

text \<open>
  Bodies that do not fault and together add no more than \<open>budget\<close> listeners: the walk ends.
\<close>

definition bounded :: "('s \<Rightarrow> nat) \<Rightarrow> ('f \<Rightarrow> ('f, 'g, 'd, 's) body) \<Rightarrow> bool" where
  "bounded budget call \<longleftrightarrow> (\<forall>f h s. \<exists>h' s'. call f (h, s) = Inr (h', s')
     \<and> length (nodes (close_list h')) + budget s' \<le> length (nodes (close_list h)) + budget s)"

lemma walk_bounded:
  assumes "appending log call" "bounded budget call"
  shows "flist_wf l \<Longrightarrow> nodes l = done @ rest \<Longrightarrow> length rest + budget s \<le> fuel \<Longrightarrow>
    \<exists>l' h' s'. walk fuel (on_close_list call) rest (l, h, s) = Some (Inr (l', h', s'))"
proof (induction fuel arbitrary: "done" rest l h s)
  case 0
  then show ?case by simp
next
  case (Suc fuel)
  show ?case
  proof (cases rest)
    case Nil
    then show ?thesis by simp
  next
    case (Cons n ns)
    from assms(2) obtain g t where c: "call (snd n) (h\<lparr>close_list := l\<rparr>, s) = Inr (g, t)"
      "length (nodes (close_list g)) + budget t \<le> length (nodes l) + budget s"
      unfolding bounded_def by (metis handle_object.select_convs(3) handle_object.surjective handle_object.update_convs(3))
    then have step: "on_close_list call (snd n) (l, h, s) = Inr (close_list g, g, t)" by (simp add: on_close_list_def)
    from appendingD [OF assms(1) c(1)] Suc.prems(1) obtain add where
      g: "flist_wf (close_list g)" "nodes (close_list g) = nodes l @ add" by auto
    have succ: "successors (fst n) (close_list g) = Inr (ns @ add)"
      using successors_split [OF g(1), of "done" n "ns @ add"] g(2) Suc.prems(2) Cons by simp
    have "length (ns @ add) + budget t \<le> fuel" using c(2) g(2) Suc.prems(3) Cons by simp
    from Suc.IH [OF g(1) _ this, of "done @ [n]"] g(2) Suc.prems(2) Cons step succ show ?thesis by simp
  qed
qed

text \<open>
  The close callback of a handle calls every close listener exactly once in the order in which
  they were added, those added by a listener during the callback included, and afterwards
  frees the data when there are data and a freer, then deletes the object; it ends, without a
  fault, when its listeners and the freer do not fault and the listeners do not add new ones
  for ever.
\<close>

theorem handle_close_listeners:
  assumes "flist_wf (close_list h)" "appending log call" "bounded budget call"
    and "length (nodes (close_list h)) + budget s \<le> fuel" "\<And>d k t. \<exists>g u. free d (k, t) = Inr (g, u)"
  shows "\<exists>h' s' new k t. Handle_OnClose fuel call free (h, s) = Some (Inr (h', s'))
    \<and> listeners (close_list k) = listeners (close_list h) @ new \<and> log t = log s @ listeners (close_list k) \<and> h_deleted h'
    \<and> (if h_data k \<noteq> None \<and> h_freer k \<noteq> None then \<exists>g. free (the (h_freer k)) (k, t) = Inr (g, s') \<and> h' = g\<lparr>h_deleted := True\<rparr>
       else s' = t \<and> h' = k\<lparr>h_deleted := True\<rparr>)"
proof -
  obtain l g t where w: "walk fuel (on_close_list call) (nodes (close_list h)) (close_list h, h, s) = Some (Inr (l, g, t))"
    using walk_bounded [OF assms(2,3,1), of "[]" "nodes (close_list h)" s fuel h] assms(4) by auto
  from walk_appending [OF assms(2) w assms(1), of "[]"] obtain new where
    n: "nodes l = nodes (close_list h) @ new" "log t = log s @ map snd (nodes (close_list h) @ new)" by auto
  let ?k = "g\<lparr>close_list := l\<rparr>"
  have "\<exists>k u. free_data free (?k, t) = Inr (k, u)"
    using assms(5) by (cases "h_data ?k"; cases "h_freer ?k") (simp_all add: free_data_def)
  then obtain k u where f: "free_data free (?k, t) = Inr (k, u)" by blast
  then have "Handle_OnClose fuel call free (h, s) = Some (Inr (k\<lparr>h_deleted := True\<rparr>, u))"
    using w by (simp add: Handle_OnClose_def Invoke_def)
  moreover have "if h_data ?k \<noteq> None \<and> h_freer ?k \<noteq> None
      then \<exists>g. free (the (h_freer ?k)) (?k, t) = Inr (g, u) \<and> k\<lparr>h_deleted := True\<rparr> = g\<lparr>h_deleted := True\<rparr>
      else u = t \<and> k\<lparr>h_deleted := True\<rparr> = ?k\<lparr>h_deleted := True\<rparr>"
    using f by (auto simp: free_data_def split: if_splits option.splits)
  ultimately show ?thesis
    by (intro exI [of _ "k\<lparr>h_deleted := True\<rparr>"] exI [of _ u] exI [of _ "map snd new"] exI [of _ ?k] exI [of _ t])
      (use n in \<open>simp add: listeners_def\<close>)
qed

text \<open>The first of two listeners adds a third, once.\<close>

definition sample_body :: "nat \<Rightarrow> (nat, nat, nat, nat list) body" where
  "sample_body f hs = (case hs of (h, s) \<Rightarrow> Inr (if f = 1 \<and> 1 \<notin> set s then fst (Handle_add_OnClose 3 h) else h, s @ [f]))"

lemma sample_body_appending: "appending id sample_body"
  by (auto simp: appending_def sample_body_def Handle_add_OnClose_def Add_def Let_def intro: flist_wf_Add [unfolded Add_def])

lemma sample_body_bounded: "bounded (\<lambda>s. if 1 \<in> set s then 0 else 1) sample_body"
  by (auto simp: bounded_def sample_body_def Handle_add_OnClose_def Add_def Let_def)

theorem handle_close_listeners_witness:
  "\<exists>h' k t. Handle_OnClose 9 sample_body (\<lambda>d (h, s). Inr (h, s @ [d]))
       (Handle_SetData (Some 5) (Some 7) (fst (Handle_add_OnClose 2 (fst (Handle_add_OnClose 1 new_handle)))), []) = Some (Inr (h', [1, 2, 3, 7]))
     \<and> id t = listeners (close_list k) \<and> h_deleted h'"
proof -
  let ?h = "Handle_SetData (Some 5) (Some 7) (fst (Handle_add_OnClose 2 (fst (Handle_add_OnClose 1 new_handle)))) :: (nat, nat, nat) handle_object"
  let ?free = "\<lambda>d (h, s). Inr (h, s @ [d]) :: fault + (nat, nat, nat) handle_object \<times> nat list"
  have run: "\<exists>h'. Handle_OnClose 9 sample_body ?free (?h, []) = Some (Inr (h', [1, 2, 3, 7]))"
    by (simp add: Handle_OnClose_def Invoke_def on_close_list_def sample_body_def Handle_add_OnClose_def Handle_SetData_def Add_def
        new_handle_def empty_flist_def successors_def free_data_def eval_nat_numeral)
  have wf: "flist_wf (close_list ?h)" and len: "length (nodes (close_list ?h)) + (if 1 \<in> set ([] :: nat list) then 0 else 1) \<le> 9"
    by (simp_all add: Handle_SetData_def Handle_add_OnClose_def Add_def new_handle_def empty_flist_def flist_wf_def)
  have free: "\<exists>g u. ?free d (k, t) = Inr (g, u)" for d k t by simp
  from handle_close_listeners [where free = ?free and fuel = 9, OF wf sample_body_appending sample_body_bounded len free] run
  show ?thesis by fastforce
qed

section \<open>Handles of this program\<close>

text \<open>
  The clients of a connector and its timer are handles: a client has one close listener while
  the attempt's subscriptions are in its lists, and no data; the timer has no close listener
  that does anything, and its data are the \<open>TryConnectData\<close>.
\<close>

datatype try_listener = ForgetClient

definition forget_client :: "try_listener \<Rightarrow> (try_listener, unit, unit, connector) body" where
  "forget_client f hs = (case hs of (h, w) \<Rightarrow> if timer_deleted w then Inl UseAfterFree else Inr (h, w\<lparr>data_client := None\<rparr>))"

definition delete_try_data :: "unit \<Rightarrow> (try_listener, unit, unit, connector) body" where
  "delete_try_data d hs = (case hs of (h, w) \<Rightarrow>
     bindE (case data_client w of
              None \<Rightarrow> Inr w
            | Some c \<Rightarrow> if t_deleted (clients w c) then Inl UseAfterFree
                        else Inr (set_client c (\<lambda>k. k\<lparr>try_subs := False\<rparr>) w)) (\<lambda>w. Inr (h, w)))"

definition client_handle :: "tclient \<Rightarrow> (try_listener, unit, unit) handle_object" where
  "client_handle k = \<lparr>h_data = None, h_freer = None,
     close_list = (if try_subs k then fst (Add ForgetClient empty_flist) else empty_flist),
     error_list = empty_flist, h_closing = t_closing k, h_deleted = t_deleted k\<rparr>"

definition timer_handle :: "connector \<Rightarrow> (try_listener, unit, unit) handle_object" where
  "timer_handle w = Handle_SetData (Some 0) (Some ()) \<lparr>h_data = None, h_freer = None, close_list = empty_flist,
     error_list = empty_flist, h_closing = timer_closing w, h_deleted = timer_deleted w\<rparr>"

lemma client_close_handle:
  "Handle_OnClose 1 forget_client delete_try_data (client_handle (clients w c), w)
     = Some (bindE (if try_subs (clients w c) then if timer_deleted w then Inl UseAfterFree else Inr (w\<lparr>data_client := None\<rparr>) else Inr w)
         (\<lambda>v. Inr ((client_handle (clients w c))\<lparr>h_deleted := True\<rparr>, v)))"
  "tclient_OnClose c w =
     bindE (the (Handle_OnClose 1 forget_client delete_try_data (client_handle (clients w c), w)))
       (\<lambda>(h, v). Inr (set_client c (\<lambda>k. k\<lparr>t_deleted := h_deleted h\<rparr>) v))"
  by (auto simp: tclient_OnClose_def Handle_OnClose_def Invoke_def on_close_list_def forget_client_def client_handle_def Add_def
      empty_flist_def successors_def free_data_def)

lemma timer_close_handle:
  "try_timer_closed w =
     bindE (the (Handle_OnClose 1 forget_client delete_try_data (timer_handle w, w))) (\<lambda>(h, v). Inr (v\<lparr>timer_deleted := h_deleted h\<rparr>))"
  by (auto simp: try_timer_closed_def Handle_OnClose_def Invoke_def timer_handle_def Handle_SetData_def empty_flist_def free_data_def
      delete_try_data_def bindE_def split: option.splits)

end
