(* ===== verification/Servers.thy ===== *)
theory Servers
  imports Prelude
begin

text \<open>
  Listening sockets and the loop that drives them: \<open>TcpServer\<close> (\<open>src/tcp_server.cc\<close>),
  \<open>UdpServer\<close> (\<open>src/udp_server.cc\<close>), \<open>EventLoop\<close> (\<open>src/event_loop.cc\<close>) and \<open>AsyncWork\<close>
  (\<open>src/async_work.cc\<close>). What libuv answers is an argument.
\<close>

section \<open>TcpServer\<close>

text \<open>What a server does about a connection, in order.\<close>

datatype server_effect =
    ServerError bytes int
  | ClientCreated
  | ClientReading
  | ClientReadError int
  | ConnectionHandled

definition tcp_OnConnection :: "int \<Rightarrow> int \<Rightarrow> int \<Rightarrow> bool \<Rightarrow> server_effect list" where
  "tcp_OnConnection status accept_status read_status has_listener =
     (if status \<noteq> 0 then [ServerError ''connection'' status]
      else if accept_status \<noteq> 0 then [ClientCreated, ServerError ''accept'' accept_status]
      else [ClientCreated] @ (if read_status \<noteq> 0 then [ClientReadError read_status] else [ClientReading])
           @ (if has_listener then [ConnectionHandled] else []))"

text \<open>
  \<open>Listen\<close>: the result, the line logged and whether the listening callback is called.
\<close>

datatype listen_log = AddrFailed int | BindFailed int | ListenFailed int

definition tcp_Listen :: "int \<Rightarrow> int \<Rightarrow> int \<Rightarrow> bool \<Rightarrow> bool \<times> listen_log list \<times> bool" where
  "tcp_Listen addr_status bind_status listen_status has_callback =
     (if addr_status \<noteq> 0 then (False, [AddrFailed addr_status], False)
      else if bind_status \<noteq> 0 then (False, [BindFailed bind_status], False)
      else if listen_status \<noteq> 0 then (False, [ListenFailed listen_status], False)
      else (True, [], has_callback))"

lemma tcp_Listen_iff: "fst (tcp_Listen a b l cb) \<longleftrightarrow> a = 0 \<and> b = 0 \<and> l = 0"
  by (simp add: tcp_Listen_def)

text \<open>
  The constructors of the servers: whether the handle is initialised, and the fatal lines. A
  failure is logged and the object is used all the same (that of \<open>TcpClient\<close> ends the program).
\<close>

definition new_tcp_server :: "int \<Rightarrow> bool \<times> (bytes \<times> int) list" where
  "new_tcp_server status = (status = 0, if status \<noteq> 0 then [(''uv_tcp_init'', status)] else [])"

definition new_udp_server :: "int \<Rightarrow> bool \<times> (bytes \<times> int) list" where
  "new_udp_server status = (status = 0, if status \<noteq> 0 then [(''uv_udp_init'', status)] else [])"

text \<open>A method that gives libuv the handle of such an object.\<close>

definition on_handle :: "bool \<times> (bytes \<times> int) list \<Rightarrow> 'a \<Rightarrow> fault + 'a" where
  "on_handle server x = (if fst server then Inr x else Inl WildPointer)"

lemma failed_server_listens:
  "on_handle (new_tcp_server st) (tcp_Listen 0 b l cb) = Inl WildPointer \<longleftrightarrow> st \<noteq> 0"
  by (simp add: on_handle_def new_tcp_server_def)

text \<open>A client that could not be accepted is handed to nobody.\<close>

lemma accept_failure_leaks:
  "ClientCreated \<in> set (tcp_OnConnection st ac rd has) \<and> ConnectionHandled \<notin> set (tcp_OnConnection st ac rd has)
     \<longleftrightarrow> st = 0 \<and> (ac \<noteq> 0 \<or> \<not> has)"
  by (auto simp: tcp_OnConnection_def)

section \<open>UdpServer\<close>

text \<open>
  The object in memory: where its libuv handle and its receive buffer lie in it, and its size.
  The handle comes before the buffer, which other members follow.
\<close>

record udp_layout =
  off_udp :: int
  off_slab :: int
  object_size :: int

definition slab_size :: int where
  "slab_size = 16 * 64 * 1024"

definition layout_ok :: "udp_layout \<Rightarrow> bool" where
  "layout_ok L \<longleftrightarrow> 0 < off_udp L \<and> off_udp L < off_slab L \<and> off_slab L + slab_size \<le> object_size L"

text \<open>
  \<open>OnAlloc\<close> takes the address of the handle, \<open>this + off_udp\<close>, for that of the object, so
  the buffer it names starts \<open>off_udp\<close> bytes into the real one.
\<close>

definition udp_OnAlloc :: "udp_layout \<Rightarrow> int \<Rightarrow> int \<times> int" where
  "udp_OnAlloc L handle = (handle + off_slab L, slab_size)"

datatype udp_effect = UdpError int | UdpData "bytes"

definition udp_OnRecv :: "int \<Rightarrow> bytes \<Rightarrow> udp_effect list" where
  "udp_OnRecv nread buf =
     (if nread = 0 then [] else if nread < 0 then [UdpError nread] else [UdpData (take (nat nread) buf)])"

definition udp_Listen :: "int \<Rightarrow> int \<Rightarrow> int \<Rightarrow> bool \<times> listen_log list" where
  "udp_Listen addr_status bind_status recv_status =
     (if addr_status \<noteq> 0 then (False, [AddrFailed addr_status])
      else if bind_status \<noteq> 0 then (False, [BindFailed bind_status])
      else if recv_status \<noteq> 0 then (False, [ListenFailed recv_status])
      else (True, []))"

text \<open>
  The buffer a UDP server offers for a datagram is not its own: it starts inside it and ends
  beyond it, where further members of the object or of the heap lie; a datagram of the length
  UDP allows nevertheless stays within the buffer, as long as the members before it take less
  than 983041 bytes.
\<close>

theorem udp_slab_misplaced:
  assumes "layout_ok L" "udp_OnAlloc L (this + off_udp L) = (base, len)"
  shows "this + off_slab L < base \<and> this + off_slab L + slab_size < base + len
    \<and> (\<forall>n. 0 \<le> n \<longrightarrow> n \<le> 65535 \<longrightarrow> off_udp L \<le> 983041 \<longrightarrow> base + n \<le> this + off_slab L + slab_size)"
  using assms by (auto simp: udp_OnAlloc_def layout_ok_def slab_size_def)

theorem udp_slab_misplaced_witness:
  "\<exists>base. udp_OnAlloc \<lparr>off_udp = 56, off_slab = 272, object_size = 1048872\<rparr> (4096 + 56) = (base, 1048576)
     \<and> base = 4424 \<and> 4096 + 272 < base"
  using udp_slab_misplaced [of "\<lparr>off_udp = 56, off_slab = 272, object_size = 1048872\<rparr>" 4096 4424 1048576]
  by (simp add: udp_OnAlloc_def layout_ok_def slab_size_def)

section \<open>EventLoop\<close>

text \<open>
  The handles of a loop by whether they are closing. \<open>Close\<close> closes every handle that is not
  and asks libuv once more; what it logs says how far it came.
\<close>

datatype loop_log = CloseWarning int | ClosingHandle nat | CloseError int

definition close_walk :: "(nat \<times> bool) list \<Rightarrow> (nat \<times> bool) list \<times> loop_log list" where
  "close_walk hs = (map (\<lambda>(h, c). (h, True)) hs, concat (map (\<lambda>(h, c). if \<not> c then [ClosingHandle h] else []) hs))"

text \<open>
  The constructor ends the program when libuv cannot make a loop (\<open>Inl\<close> the exit status);
  \<open>uv_loop_close\<close> is an argument, a function of the handles the loop has. The destructor is
  \<open>Close\<close>.
\<close>

definition new_loop :: "int \<Rightarrow> int + (nat \<times> bool) list" where
  "new_loop status = (if status \<noteq> 0 then Inl 1 else Inr [])"

definition loop_Close :: "((nat \<times> bool) list \<Rightarrow> int) \<Rightarrow> (nat \<times> bool) list \<Rightarrow> (nat \<times> bool) list \<times> loop_log list" where
  "loop_Close uv_loop_close hs =
     (if uv_loop_close hs \<noteq> 0
      then let (hs', ls) = close_walk hs
           in (hs', CloseWarning (uv_loop_close hs) # ls @ (if uv_loop_close hs' \<noteq> 0 then [CloseError (uv_loop_close hs')] else []))
      else (hs, []))"

definition loop_Run :: "int \<Rightarrow> bool" where
  "loop_Run status \<longleftrightarrow> status = 0"

text \<open>
  libuv closes a loop only when it has no handles, those that are closing included: their close
  callbacks have to run first, which takes another turn of the loop. So \<open>Close\<close> works when
  there is nothing to do, and otherwise its second attempt fails like the first: every handle
  is told to close, each that was open with a line in the log, and the loop stays open.
\<close>

theorem loop_close_in_vain:
  assumes "\<And>hs. uv_loop_close hs = 0 \<longleftrightarrow> hs = []"
  shows "if hs = [] then loop_Close uv_loop_close hs = ([], [])
    else \<exists>ls e. loop_Close uv_loop_close hs = (map (\<lambda>(h, c). (h, True)) hs, CloseWarning (uv_loop_close hs) # ls @ [CloseError e])
      \<and> ls = map (\<lambda>(h, c). ClosingHandle h) (filter (\<lambda>(h, c). \<not> c) hs)"
proof -
  have "concat (map (\<lambda>(h, c). if \<not> c then [ClosingHandle h] else []) hs) = map (\<lambda>(h, c). ClosingHandle h) (filter (\<lambda>(h, c). \<not> c) hs)"
    by (induction hs) auto
  then show ?thesis using assms [of hs] assms [of "map (\<lambda>(h, c). (h, True)) hs"] by (auto simp: loop_Close_def close_walk_def)
qed

theorem loop_close_in_vain_witness:
  "loop_Close (\<lambda>hs. if hs = [] then 0 else - 16) [(7, False), (8, True)]
     = ([(7, True), (8, True)], [CloseWarning (- 16), ClosingHandle 7, CloseError (- 16)])"
  using loop_close_in_vain [of "\<lambda>hs. if hs = [] then 0 else - 16" "[(7, False), (8, True)]"] by (auto simp: loop_Close_def close_walk_def)

section \<open>AsyncWork\<close>

text \<open>
  Work handed to libuv's thread pool: \<open>None\<close> where the object has no such function. Calling
  an empty function throws, which nothing catches.
\<close>

record async_work =
  work_set :: bool
  on_end_set :: bool
  worked :: nat
  ended :: "int list"

definition async_Start :: "async_work \<Rightarrow> async_work" where
  "async_Start a = a\<lparr>work_set := True\<rparr>"

definition async_Work :: "async_work \<Rightarrow> fault + async_work" where
  "async_Work a = (if work_set a then Inr (a\<lparr>worked := worked a + 1\<rparr>) else Inl NullDeref)"

definition async_AfterWork :: "int \<Rightarrow> async_work \<Rightarrow> async_work" where
  "async_AfterWork status a = (if on_end_set a then a\<lparr>ended := ended a @ [status]\<rparr> else a)"

lemma async_once:
  "\<exists>b. async_Work (async_Start a) = Inr b \<and> worked b = worked a + 1
     \<and> ended (async_AfterWork st b) = ended a @ (if on_end_set a then [st] else [])"
  by (simp add: async_Start_def async_Work_def async_AfterWork_def)

end
