(* ===== verification/Nexers.thy ===== *)
theory Nexers
  imports ConfigProps Servers "HOL-Library.Word"
begin

text \<open>
  The program: \<open>Nexer\<close> (\<open>src/nexer.cc\<close>, \<open>include/nexer.h\<close>), which opens the admin server, a
  proxy for each entry of the configuration and the dummy servers, and closes what it has
  registered; and \<open>main\<close> (\<open>src/main.cc\<close>).
\<close>

section \<open>State\<close>

text \<open>A server object: what it is for, whether it listens, is closing, is deleted.\<close>

datatype server_kind = AdminServer | ProxyServer Proxy | DummyTcp int bool | DummyUdp int

record server =
  sv_kind :: server_kind
  sv_listening :: bool
  sv_closing :: bool
  sv_deleted :: bool

text \<open>\<open>servers\<close> are all objects created, by their order; the pointers are indices into it.\<close>

record nexer =
  servers :: "server list"
  nx_proxies :: "nat list"
  nx_admin :: "nat option"

definition new_nexer :: nexer where
  "new_nexer = \<lparr>servers = [], nx_proxies = [], nx_admin = None\<rparr>"

text \<open>
  What the program prints of the output of a process (\<open>printf\<close> with \<open>"%.*s"\<close>): the bytes up to
  the length, taken for an \<open>int\<close>, and up to the first null byte; a negative length is no limit,
  and without a null byte the memory behind the data is read.
\<close>

definition print_process_data :: "bytes \<Rightarrow> nat \<Rightarrow> fault + bytes" where
  "print_process_data s len =
     (let n = sint (word_of_nat len :: 32 word); upto = (if n < 0 then s else take (nat n) s)
      in if n < 0 \<and> nul \<notin> set s then Inl WildPointer else Inr (takeWhile (\<lambda>c. c \<noteq> nul) upto))"

text \<open>Output with null bytes in it is cut off, any other (below 2 GB) is printed as it is.\<close>

lemma print_process_data_prefix:
  assumes "length s < 2 ^ 31"
  shows "\<exists>t rest. print_process_data s (length s) = Inr t \<and> s = t @ rest \<and> (rest = [] \<longleftrightarrow> nul \<notin> set s)"
proof -
  let ?t = "takeWhile (\<lambda>c. c \<noteq> nul) s" and ?r = "dropWhile (\<lambda>c. c \<noteq> nul) s"
  have "sint (word_of_nat (length s) :: 32 word) = int (length s)"
    using assms by (simp add: sint_uint unsigned_of_nat signed_take_bit_int_eq_self take_bit_nat_eq_self)
  then have "print_process_data s (length s) = Inr ?t" by (simp add: print_process_data_def)
  moreover have "?r = [] \<longleftrightarrow> nul \<notin> set s" by auto
  ultimately show ?thesis using takeWhile_dropWhile_id [of "\<lambda>c. c \<noteq> nul" s] by metis
qed

text \<open>Creating a server and making it listen; \<open>listen\<close> says for each object whether that works.\<close>

definition open_server :: "(nat \<Rightarrow> bool) \<Rightarrow> server_kind \<Rightarrow> nexer \<Rightarrow> bool \<times> nexer" where
  "open_server listen k n = (let i = length (servers n) in
     (listen i, n\<lparr>servers := servers n @ [\<lparr>sv_kind = k, sv_listening = listen i, sv_closing = False, sv_deleted = False\<rparr>]\<rparr>))"

section \<open>Start\<close>

definition StartAdminServer :: "(nat \<Rightarrow> bool) \<Rightarrow> nexer \<Rightarrow> bool \<times> nexer" where
  "StartAdminServer listen n = (let (ok, n1) = open_server listen AdminServer n in (ok, n1\<lparr>nx_admin := Some (length (servers n))\<rparr>))"

fun start_proxies :: "(nat \<Rightarrow> bool) \<Rightarrow> Proxy list \<Rightarrow> nexer \<Rightarrow> bool \<times> nexer" where
  "start_proxies listen [] n = (True, n)"
| "start_proxies listen (p # ps) n =
     (let i = length (servers n); (ok, n1) = open_server listen (ProxyServer p) n
      in if \<not> ok then (False, n1) else start_proxies listen ps (n1\<lparr>nx_proxies := nx_proxies n1 @ [i]\<rparr>))"

text \<open>
  The dummy servers; a TCP one that echoes is given a connection listener, which makes an
  echoing forwarder (\<open>CreateEcho\<close>), one that does not has none; the UDP one ignores the flag.
\<close>

definition StartDummyTcpServer :: "(nat \<Rightarrow> bool) \<Rightarrow> int \<Rightarrow> bool \<Rightarrow> nexer \<Rightarrow> bool \<times> nexer" where
  "StartDummyTcpServer listen port echo n = open_server listen (DummyTcp port echo) n"

definition StartDummyUdpServer :: "(nat \<Rightarrow> bool) \<Rightarrow> int \<Rightarrow> bool \<Rightarrow> nexer \<Rightarrow> bool \<times> nexer" where
  "StartDummyUdpServer listen port echo n = open_server listen (DummyUdp port) n"

definition StartDummyServer :: "(nat \<Rightarrow> bool) \<Rightarrow> Dummy \<Rightarrow> nexer \<Rightarrow> fault + bool \<times> nexer" where
  "StartDummyServer listen d n =
     (case dummy_type d of
        Udp \<Rightarrow> Inr (StartDummyUdpServer listen (dummy_port d) (dummy_echo d) n)
      | Tcp \<Rightarrow> Inr (StartDummyTcpServer listen (dummy_port d) (dummy_echo d) n)
      | Http \<Rightarrow> Inl AssertFailed)"

fun start_dummies :: "(nat \<Rightarrow> bool) \<Rightarrow> Dummy list \<Rightarrow> nexer \<Rightarrow> fault + bool \<times> nexer" where
  "start_dummies listen [] n = Inr (True, n)"
| "start_dummies listen (d # ds) n =
     bindE (StartDummyServer listen d n) (\<lambda>(ok, n1). if \<not> ok then Inr (False, n1) else start_dummies listen ds n1)"

text \<open>\<open>Start\<close> up to the point where it runs the loop.\<close>

definition nexer_Start :: "(nat \<Rightarrow> bool) \<Rightarrow> Config \<Rightarrow> nexer \<Rightarrow> fault + bool \<times> nexer" where
  "nexer_Start listen c n =
     (let (ok, n1) = StartAdminServer listen n
      in if \<not> ok then Inr (False, n1)
         else let (ok, n2) = start_proxies listen (proxies c) n1
              in if \<not> ok then Inr (False, n2) else start_dummies listen (dummies c) n2)"

section \<open>Close\<close>

definition server_Close :: "nat \<Rightarrow> nexer \<Rightarrow> fault + nexer" where
  "server_Close i n =
     (if sv_deleted (servers n ! i) then Inl UseAfterFree
      else Inr (n\<lparr>servers := (servers n)[i := (servers n ! i)\<lparr>sv_closing := True\<rparr>]\<rparr>))"

fun close_each :: "nat list \<Rightarrow> nexer \<Rightarrow> fault + nexer" where
  "close_each [] n = Inr n"
| "close_each (i # is) n = bindE (server_Close i n) (close_each is)"

definition nexer_Close :: "nexer \<Rightarrow> fault + nexer" where
  "nexer_Close n =
     bindE (close_each (nx_proxies n) n) (\<lambda>n.
       let n1 = n\<lparr>nx_proxies := []\<rparr>
       in case nx_admin n1 of
            None \<Rightarrow> Inr n1
          | Some i \<Rightarrow> bindE (server_Close i n1) (\<lambda>n. Inr (n\<lparr>nx_admin := None\<rparr>)))"

text \<open>Whether a server of a kind has a connection listener.\<close>

fun has_listener :: "server_kind \<Rightarrow> bool" where
  "has_listener (DummyTcp port echo) = echo"
| "has_listener (DummyUdp port) = False"
| "has_listener k = True"

text \<open>The listener of the admin server, which answers every request with 200.\<close>

definition admin_request :: "bytes \<Rightarrow> nexer \<Rightarrow> fault + int \<times> nexer" where
  "admin_request path n =
     (if path = ''/shutdown'' then bindE (nexer_Close n) (\<lambda>n. Inr (200, n)) else Inr (200, n))"

section \<open>main\<close>

definition config_file :: "bytes \<Rightarrow> bytes" where
  "config_file home = take 1023 (home @ ''/.nexer/nexer.conf'')"

text \<open>The exit status of the program, \<open>started\<close> being what \<open>Start\<close> returned.\<close>

definition main_status :: "bool \<Rightarrow> bool \<Rightarrow> int" where
  "main_status parsed started = (if \<not> parsed then 1 else 0)"

section \<open>While the program runs\<close>

datatype nexer_event =
    AdminRequest nat bytes
  | ServerClosed nat
  | Destroyed

text \<open>A request reaches its listener through the server object that accepted its connection, which the connection outlives.\<close>

fun nexer_handle :: "nexer_event \<Rightarrow> nexer \<Rightarrow> fault + nexer" where
  "nexer_handle (AdminRequest i path) n =
     (if sv_deleted (servers n ! i) then Inl UseAfterFree else bindE (admin_request path n) (\<lambda>(status, n). Inr n))"
| "nexer_handle (ServerClosed i) n = Inr (n\<lparr>servers := (servers n)[i := (servers n ! i)\<lparr>sv_deleted := True\<rparr>]\<rparr>)"
| "nexer_handle Destroyed n = nexer_Close n"

fun nexer_allowed :: "nexer \<Rightarrow> nexer_event \<Rightarrow> bool" where
  "nexer_allowed n (ServerClosed i) = (i < length (servers n) \<and> sv_closing (servers n ! i) \<and> \<not> sv_deleted (servers n ! i))"
| "nexer_allowed n (AdminRequest i path) = (i < length (servers n) \<and> sv_kind (servers n ! i) = AdminServer)"
| "nexer_allowed n Destroyed = True"

text \<open>A request on a connection whose server is gone.\<close>

fun orphaned :: "nexer \<Rightarrow> nexer_event \<Rightarrow> bool" where
  "orphaned n (AdminRequest i path) = sv_deleted (servers n ! i)"
| "orphaned n e = False"

definition nexer_step :: "nexer \<Rightarrow> nexer_event \<Rightarrow> nexer \<Rightarrow> bool" where
  "nexer_step n e m \<longleftrightarrow> nexer_allowed n e \<and> nexer_handle e n = Inr m"

text \<open>The servers \<open>Close\<close> knows of: the admin server and the proxies that listen.\<close>

definition registered :: "server \<Rightarrow> bool" where
  "registered s \<longleftrightarrow> sv_kind s = AdminServer \<or> (\<exists>p. sv_kind s = ProxyServer p) \<and> sv_listening s"

text \<open>The pointers point at exactly the registered servers that are not closing.\<close>

definition ninv :: "nexer \<Rightarrow> bool" where
  "ninv n \<longleftrightarrow> (\<forall>i < length (servers n). sv_deleted (servers n ! i) \<longrightarrow> sv_closing (servers n ! i))
     \<and> set (nx_proxies n) \<union> set_option (nx_admin n)
        = {i. i < length (servers n) \<and> registered (servers n ! i) \<and> \<not> sv_closing (servers n ! i)}
     \<and> (\<forall>i < length (servers n). sv_closing (servers n ! i) \<longrightarrow> registered (servers n ! i))"

lemma close_each_spec:
  "(\<forall>i \<in> set is. i < length (servers n) \<and> \<not> sv_deleted (servers n ! i)) \<Longrightarrow>
   \<exists>m. close_each is n = Inr m \<and> nx_proxies m = nx_proxies n \<and> nx_admin m = nx_admin n \<and> length (servers m) = length (servers n)
     \<and> (\<forall>i < length (servers n). servers m ! i = (if i \<in> set is then (servers n ! i)\<lparr>sv_closing := True\<rparr> else servers n ! i))"
proof (induction "is" arbitrary: n)
  case Nil
  then show ?case by simp
next
  case (Cons j js)
  let ?n = "n\<lparr>servers := (servers n)[j := (servers n ! j)\<lparr>sv_closing := True\<rparr>]\<rparr>"
  have "\<forall>i \<in> set js. i < length (servers ?n) \<and> \<not> sv_deleted (servers ?n ! i)"
    using Cons.prems by (auto simp: nth_list_update)
  from Cons.IH [OF this] obtain m where m: "close_each js ?n = Inr m" "nx_proxies m = nx_proxies n" "nx_admin m = nx_admin n"
    "length (servers m) = length (servers n)"
    "\<And>i. i < length (servers n) \<Longrightarrow> servers m ! i = (if i \<in> set js then (servers ?n ! i)\<lparr>sv_closing := True\<rparr> else servers ?n ! i)"
    by auto
  have "close_each (j # js) n = Inr m" using m(1) Cons.prems by (simp add: server_Close_def)
  moreover have "servers m ! i = (if i \<in> set (j # js) then (servers n ! i)\<lparr>sv_closing := True\<rparr> else servers n ! i)" if "i < length (servers n)" for i
    using m(5) [OF that] that by (cases "i = j") (auto simp: nth_list_update)
  ultimately show ?case using m(2-4) by blast
qed

lemma ninv_pointers:
  assumes "ninv n" "i \<in> set (nx_proxies n) \<union> set_option (nx_admin n)"
  shows "i < length (servers n)" "\<not> sv_deleted (servers n ! i)" "\<not> sv_closing (servers n ! i)" "registered (servers n ! i)"
  using assms by (auto simp: ninv_def)

lemma nexer_Close_spec:
  assumes "ninv n"
  shows "\<exists>m. nexer_Close n = Inr m \<and> nx_proxies m = [] \<and> nx_admin m = None \<and> length (servers m) = length (servers n)
    \<and> (\<forall>i < length (servers n). servers m ! i = (if registered (servers n ! i) then (servers n ! i)\<lparr>sv_closing := True\<rparr> else servers n ! i))"
proof -
  let ?P = "set (nx_proxies n)"
  have "\<forall>i \<in> ?P. i < length (servers n) \<and> \<not> sv_deleted (servers n ! i)" using ninv_pointers [OF assms] by blast
  from close_each_spec [OF this] obtain m where m: "close_each (nx_proxies n) n = Inr m" "nx_admin m = nx_admin n"
    "length (servers m) = length (servers n)"
    "\<And>i. i < length (servers n) \<Longrightarrow> servers m ! i = (if i \<in> ?P then (servers n ! i)\<lparr>sv_closing := True\<rparr> else servers n ! i)"
    by blast
  have closed: "(servers n ! i)\<lparr>sv_closing := True\<rparr> = servers n ! i" if "sv_closing (servers n ! i)" for i
    using that by simp
  have reg: "registered (servers n ! i) \<longleftrightarrow> i \<in> ?P \<or> nx_admin n = Some i \<or> sv_closing (servers n ! i)" if "i < length (servers n)" for i
  proof -
    have "i \<in> ?P \<union> set_option (nx_admin n) \<longleftrightarrow> registered (servers n ! i) \<and> \<not> sv_closing (servers n ! i)"
      using assms that unfolding ninv_def by blast
    moreover have "sv_closing (servers n ! i) \<Longrightarrow> registered (servers n ! i)" using assms that unfolding ninv_def by blast
    moreover have "i \<in> set_option (nx_admin n) \<longleftrightarrow> nx_admin n = Some i" by (cases "nx_admin n") auto
    ultimately show ?thesis by blast
  qed
  show ?thesis
  proof (cases "nx_admin n")
    case None
    then have "nexer_Close n = Inr (m\<lparr>nx_proxies := []\<rparr>)" using m(1,2) by (simp add: nexer_Close_def)
    moreover have "servers m ! i = (if registered (servers n ! i) then (servers n ! i)\<lparr>sv_closing := True\<rparr> else servers n ! i)"
      if "i < length (servers n)" for i using m(4) [OF that] reg [OF that] closed [of i] None by simp
    ultimately show ?thesis using m(2,3) None by simp
  next
    case (Some a)
    have a: "a < length (servers n)" "\<not> sv_deleted (servers n ! a)" using ninv_pointers [OF assms, of a] Some by simp_all
    then have da: "\<not> sv_deleted (servers m ! a)" using m(4) [OF a(1)] by simp
    let ?m = "m\<lparr>nx_proxies := [], servers := (servers m)[a := (servers m ! a)\<lparr>sv_closing := True\<rparr>], nx_admin := None\<rparr>"
    have "nexer_Close n = Inr ?m" using m(1,2) Some da by (simp add: nexer_Close_def server_Close_def)
    moreover have "servers ?m ! i = (if registered (servers n ! i) then (servers n ! i)\<lparr>sv_closing := True\<rparr> else servers n ! i)"
      if "i < length (servers n)" for i
      using m(3) m(4) [OF that] reg [OF that] closed [of i] Some that by (cases "i = a") (simp_all add: nth_list_update)
    ultimately show ?thesis using m(3) by simp
  qed
qed

lemma registered_closing [simp]: "registered (s\<lparr>sv_closing := b\<rparr>) = registered s" "registered (s\<lparr>sv_deleted := b\<rparr>) = registered s"
  by (simp_all add: registered_def)

lemma ninv_Close:
  assumes "ninv n"
  shows "\<exists>m. nexer_Close n = Inr m \<and> ninv m"
proof -
  obtain m where m: "nexer_Close n = Inr m" "nx_proxies m = []" "nx_admin m = None" "length (servers m) = length (servers n)"
    "\<And>i. i < length (servers n) \<Longrightarrow> servers m ! i = (if registered (servers n ! i) then (servers n ! i)\<lparr>sv_closing := True\<rparr> else servers n ! i)"
    using nexer_Close_spec [OF assms] by blast
  have "ninv m" using assms m(2-5) by (auto simp: ninv_def)
  with m(1) show ?thesis by blast
qed

lemma ninv_step:
  assumes "ninv n" "nexer_allowed n e" "\<not> orphaned n e"
  shows "\<exists>m. nexer_handle e n = Inr m \<and> ninv m"
proof (cases e)
  case (AdminRequest i path)
  from ninv_Close [OF assms(1)] obtain m where "nexer_Close n = Inr m" "ninv m" by blast
  with AdminRequest assms(1,3) show ?thesis by (simp add: admin_request_def)
next
  case (ServerClosed i)
  let ?m = "n\<lparr>servers := (servers n)[i := (servers n ! i)\<lparr>sv_deleted := True\<rparr>]\<rparr>"
  have i: "i < length (servers n)" "sv_closing (servers n ! i)" using assms(2) ServerClosed by simp_all
  have same: "sv_closing (servers ?m ! j) = sv_closing (servers n ! j)" "registered (servers ?m ! j) = registered (servers n ! j)" for j
    using i(1) by (cases "j = i"; simp)+
  have "ninv ?m" using assms(1) i unfolding ninv_def same
    by (auto simp: nth_list_update)
  with ServerClosed show ?thesis by simp
next
  case Destroyed
  with ninv_Close [OF assms(1)] show ?thesis by simp
qed

section \<open>Starting\<close>

lemma ninv_open:
  assumes "ninv n" "open_server listen k n = (ok, m)"
  shows "servers m = servers n @ [\<lparr>sv_kind = k, sv_listening = ok, sv_closing = False, sv_deleted = False\<rparr>]"
    "nx_proxies m = nx_proxies n" "nx_admin m = nx_admin n"
  using assms(2) by (auto simp: open_server_def Let_def)

text \<open>A server that joins the others, with or without a pointer at it.\<close>

lemma ninv_join:
  assumes "ninv n" "servers m = servers n @ [s]" "\<not> sv_closing s" "\<not> sv_deleted s"
    and "set (nx_proxies m) \<union> set_option (nx_admin m)
      = set (nx_proxies n) \<union> set_option (nx_admin n) \<union> (if registered s then {length (servers n)} else {})"
  shows "ninv m"
  unfolding ninv_def assms(5)
proof (intro conjI allI impI)
  fix i
  assume "i < length (servers m)"
  then have i: "i < length (servers n) \<or> i = length (servers n)" using assms(2) by auto
  show "sv_closing (servers m ! i)" if "sv_deleted (servers m ! i)"
    using i that assms(1-4) by (auto simp: ninv_def nth_append)
  show "registered (servers m ! i)" if "sv_closing (servers m ! i)"
    using i that assms(1-4) by (auto simp: ninv_def nth_append)
next
  have old: "set (nx_proxies n) \<union> set_option (nx_admin n)
        = {i. i < length (servers n) \<and> registered (servers n ! i) \<and> \<not> sv_closing (servers n ! i)}"
    using assms(1) by (simp add: ninv_def)
  show "set (nx_proxies n) \<union> set_option (nx_admin n) \<union> (if registered s then {length (servers n)} else {})
      = {i. i < length (servers m) \<and> registered (servers m ! i) \<and> \<not> sv_closing (servers m ! i)}"
    unfolding old assms(2) using assms(3) by (auto simp: nth_append less_Suc_eq)
qed

lemma ninv_start_proxies: "ninv n \<Longrightarrow> start_proxies listen ps n = (ok, m) \<Longrightarrow> ninv m"
proof (induction listen ps n arbitrary: ok m rule: start_proxies.induct)
  case (1 listen n)
  then show ?case by simp
next
  case (2 listen p ps n)
  obtain ok1 n1 where o: "open_server listen (ProxyServer p) n = (ok1, n1)" by (cases "open_server listen (ProxyServer p) n")
  note s = ninv_open [OF 2(2) o]
  show ?case
  proof (cases ok1)
    case False
    with 2(3) o have "m = n1" by simp
    moreover have "ninv n1" by (rule ninv_join [OF 2(2) s(1)]) (use False s(2,3) in \<open>simp_all add: registered_def\<close>)
    ultimately show ?thesis by simp
  next
    case True
    let ?n = "n1\<lparr>nx_proxies := nx_proxies n1 @ [length (servers n)]\<rparr>"
    have "ninv ?n" by (rule ninv_join [OF 2(2), of ?n]) (use True s in \<open>auto simp: registered_def\<close>)
    from 2(1) [OF refl o [symmetric] refl _ this] True 2(3) o show ?thesis by simp
  qed
qed

lemma ninv_dummies:
  "ninv n \<Longrightarrow> \<forall>d \<in> set ds. dummy_type d \<noteq> Http \<Longrightarrow> \<exists>ok m. start_dummies listen ds n = Inr (ok, m) \<and> ninv m"
proof (induction ds arbitrary: n)
  case Nil
  then show ?case by auto
next
  case (Cons d ds)
  let ?k = "if dummy_type d = Udp then DummyUdp (dummy_port d) else DummyTcp (dummy_port d) (dummy_echo d)"
  obtain ok n1 where o: "open_server listen ?k n = (ok, n1)" by (cases "open_server listen ?k n")
  note s = ninv_open [OF Cons.prems(1) o]
  have "ninv n1" by (rule ninv_join [OF Cons.prems(1) s(1)]) (use s(2,3) in \<open>simp_all add: registered_def\<close>)
  moreover have "StartDummyServer listen d n = Inr (ok, n1)" using Cons.prems(2) o
    by (cases "dummy_type d") (simp_all add: StartDummyServer_def StartDummyTcpServer_def StartDummyUdpServer_def)
  ultimately show ?case using Cons by (cases ok) auto
qed

lemma ninv_Start:
  assumes "\<forall>d \<in> set (dummies c). dummy_type d \<noteq> Http"
  shows "\<exists>ok n. nexer_Start listen c new_nexer = Inr (ok, n) \<and> ninv n"
proof -
  have new: "ninv new_nexer" by (simp add: ninv_def new_nexer_def)
  obtain ok n1 where a: "StartAdminServer listen new_nexer = (ok, n1)" by (cases "StartAdminServer listen new_nexer")
  have n1: "ninv n1"
    by (rule ninv_join [OF new, of n1 "\<lparr>sv_kind = AdminServer, sv_listening = ok, sv_closing = False, sv_deleted = False\<rparr>"]) (use a in \<open>auto simp: StartAdminServer_def open_server_def new_nexer_def registered_def Let_def\<close>)
  obtain ok2 n2 where p: "start_proxies listen (proxies c) n1 = (ok2, n2)" by (cases "start_proxies listen (proxies c) n1")
  from ninv_dummies [OF ninv_start_proxies [OF n1 p] assms] obtain ok3 n3 where
    "start_dummies listen (dummies c) n2 = Inr (ok3, n3)" "ninv n3" by blast
  with a p n1 ninv_start_proxies [OF n1 p] show ?thesis by (cases ok; cases ok2) (auto simp: nexer_Start_def)
qed

lemma config_no_http:
  assumes "Config_Parse read dump new_config code = (ok, c)"
  shows "\<forall>d \<in> set (dummies c). dummy_type d \<noteq> Http"
proof -
  from parse_config_out [of dump "read code" new_config ok c] assms config_ok_new have "config_ok c"
    by (simp add: config_out_def Config_Parse_def)
  then show ?thesis by (auto simp: config_ok_def dummies_inv_def dummy_inv_def)
qed

lemma run_ninv: "run nexer_step n es m \<Longrightarrow> ninv n \<Longrightarrow> ninv m"
proof (induction rule: run.induct)
  case (run_Cons n e k es m)
  have "\<not> orphaned n e" using run_Cons.hyps(1) by (cases e) (auto simp: nexer_step_def)
  with run_Cons show ?case using ninv_step [of n e] by (auto simp: nexer_step_def)
qed simp

text \<open>
  C35: with a configuration the parser produced, starting never fails its assertion; then,
  whatever requests and close callbacks follow, however often the program is told to shut down,
  a deleted server is used by exactly one kind of event: a request that arrives on an admin
  connection after the admin server was deleted. After a shutdown nothing is registered any
  more, the servers closed are the admin server and the proxies that listen, and those left
  open are the dummy servers and the proxies that could not listen.
\<close>

theorem nexer_lifecycle:
  assumes "Config_Parse read dump new_config code = (parsed, c)"
  shows "\<exists>ok n. nexer_Start listen c new_nexer = Inr (ok, n)
    \<and> (\<forall>es m e. run nexer_step n es m \<longrightarrow> nexer_allowed m e \<longrightarrow> ((\<exists>k. nexer_handle e m = Inr k) \<longleftrightarrow> \<not> orphaned m e))
    \<and> (\<forall>es m. run nexer_step n es m \<longrightarrow> (\<exists>k. nexer_Close m = Inr k \<and> nx_proxies k = [] \<and> nx_admin k = None
         \<and> (\<forall>s \<in> set (servers k). sv_closing s \<longleftrightarrow> sv_kind s = AdminServer \<or> (\<exists>p. sv_kind s = ProxyServer p) \<and> sv_listening s)))"
proof -
  obtain ok n where n: "nexer_Start listen c new_nexer = Inr (ok, n)" "ninv n"
    using ninv_Start [OF config_no_http [OF assms]] by blast
  have "(\<exists>k. nexer_handle e m = Inr k) \<longleftrightarrow> \<not> orphaned m e" if "run nexer_step n es m" "nexer_allowed m e" for es m e
    using ninv_step [OF run_ninv [OF that(1) n(2)] that(2)] by (cases e) auto
  moreover have "\<exists>k. nexer_Close m = Inr k \<and> nx_proxies k = [] \<and> nx_admin k = None
         \<and> (\<forall>s \<in> set (servers k). sv_closing s \<longleftrightarrow> sv_kind s = AdminServer \<or> (\<exists>p. sv_kind s = ProxyServer p) \<and> sv_listening s)"
    if "run nexer_step n es m" for es m
  proof -
    have inv: "ninv m" using run_ninv [OF that n(2)] .
    from nexer_Close_spec [OF inv] obtain k where k: "nexer_Close m = Inr k" "nx_proxies k = []" "nx_admin k = None" "length (servers k) = length (servers m)"
      "\<And>i. i < length (servers m) \<Longrightarrow> servers k ! i = (if registered (servers m ! i) then (servers m ! i)\<lparr>sv_closing := True\<rparr> else servers m ! i)"
      by blast
    have "sv_closing s \<longleftrightarrow> registered s" if s: "s \<in> set (servers k)" for s
    proof -
      from s obtain i where i: "i < length (servers m)" "s = servers k ! i" using k(4) by (auto simp: in_set_conv_nth)
      with k(5) [OF i(1)] inv show ?thesis by (auto simp: ninv_def)
    qed
    with k(1-3) show ?thesis by (auto simp: registered_def)
  qed
  ultimately show ?thesis using n(1) by blast
qed

theorem nexer_lifecycle_witness:
  "\<exists>c ok n k. Config_Parse (\<lambda>_. sample_tree) (\<lambda>_. []) new_config [] = (True, c)
     \<and> nexer_Start (\<lambda>_. True) c new_nexer = Inr (ok, n) \<and> nexer_Close n = Inr k \<and> nx_proxies k = [] \<and> nx_admin k = None"
proof -
  let ?p = "Config_Parse (\<lambda>_. sample_tree) (\<lambda>_. []) new_config []"
  obtain parsed c where p: "?p = (parsed, c)" by (cases ?p)
  have "fst ?p = True"
    by (simp add: Config_Parse_def parse_config_accepts sample_tree_def config_schema_def proxy_schema_def
        upstream_schema_def app_schema_def)
  with p have t: "?p = (True, c)" by simp
  from nexer_lifecycle [OF t, of "\<lambda>_. True"] obtain ok n where
    n: "nexer_Start (\<lambda>_. True) c new_nexer = Inr (ok, n)"
    "\<forall>es m. run nexer_step n es m \<longrightarrow> (\<exists>k. nexer_Close m = Inr k \<and> nx_proxies k = [] \<and> nx_admin k = None
       \<and> (\<forall>s \<in> set (servers k). sv_closing s \<longleftrightarrow> sv_kind s = AdminServer \<or> (\<exists>p. sv_kind s = ProxyServer p) \<and> sv_listening s))"
    by auto
  from n(2) run_Nil [of nexer_step n] obtain k where "nexer_Close n = Inr k" "nx_proxies k = []" "nx_admin k = None" by blast
  with n(1) t show ?thesis by blast
qed

text \<open>
  A client of the admin server that sends a second request after its \<open>/shutdown\<close> makes the
  program use the deleted server.
\<close>

theorem admin_server_orphans:
  "\<exists>n m. nexer_Start (\<lambda>_. True) new_config new_nexer = Inr (True, n) \<and> run nexer_step n [AdminRequest 0 ''/shutdown'', ServerClosed 0] m
     \<and> nexer_allowed m (AdminRequest 0 path) \<and> nexer_handle (AdminRequest 0 path) m = Inl UseAfterFree"
proof -
  let ?s = "\<lparr>sv_kind = AdminServer, sv_listening = True, sv_closing = False, sv_deleted = False\<rparr>"
  let ?n = "\<lparr>servers = [?s], nx_proxies = [], nx_admin = Some 0\<rparr>"
    and ?k = "\<lparr>servers = [?s\<lparr>sv_closing := True\<rparr>], nx_proxies = [], nx_admin = None\<rparr>"
    and ?m = "\<lparr>servers = [?s\<lparr>sv_closing := True, sv_deleted := True\<rparr>], nx_proxies = [], nx_admin = None\<rparr>"
  have start: "nexer_Start (\<lambda>_. True) new_config new_nexer = Inr (True, ?n)"
    by (simp add: nexer_Start_def StartAdminServer_def open_server_def new_nexer_def new_config_def Let_def)
  have steps: "nexer_step ?n (AdminRequest 0 ''/shutdown'') ?k" "nexer_step ?k (ServerClosed 0) ?m"
    by (simp_all add: nexer_step_def admin_request_def nexer_Close_def server_Close_def)
  have "run nexer_step ?n [AdminRequest 0 ''/shutdown'', ServerClosed 0] ?m"
    using steps run_Cons [of nexer_step] run_Nil [of nexer_step] by blast
  moreover have "nexer_allowed ?m (AdminRequest 0 path)" "nexer_handle (AdminRequest 0 path) ?m = Inl UseAfterFree" by simp_all
  ultimately show ?thesis using start by blast
qed

text \<open>A connection to a dummy TCP server that does not echo is handed to nobody.\<close>

lemma dummy_connections:
  "ConnectionHandled \<in> set (tcp_OnConnection 0 0 0 (has_listener (DummyTcp port echo))) \<longleftrightarrow> echo"
  by (simp add: tcp_OnConnection_def)

end
