(* ===== verification/MemoryPools.thy ===== *)
theory MemoryPools
  imports Prelude
begin

text \<open>
  \<open>FixedSizeMemoryPool\<close> (\<open>include/memory_pool.h\<close>): blocks of one size on two doubly linked
  lists, the free ones and those handed out. Memory from \<open>malloc\<close> holds whatever it held
  before; reading a pointer nobody stored gives \<open>Junk\<close>.
\<close>

section \<open>Model\<close>

datatype ptr = Null | Block nat | Junk

record pool =
  prev_of :: "nat \<Rightarrow> ptr"
  next_of :: "nat \<Rightarrow> ptr"
  free_head :: ptr
  allocated_head :: ptr
  max_size :: nat

definition new_pool :: "nat \<Rightarrow> pool" where
  "new_pool sz = \<lparr>prev_of = (\<lambda>_. Junk), next_of = (\<lambda>_. Junk), free_head = Null, allocated_head = Null, max_size = sz\<rparr>"

text \<open>\<open>sizeof(Block)\<close>, two pointers.\<close>

definition block_size :: nat where
  "block_size = 16"

definition store_prev :: "ptr \<Rightarrow> ptr \<Rightarrow> pool \<Rightarrow> fault + pool" where
  "store_prev p v s = (case p of Null \<Rightarrow> Inl NullDeref | Junk \<Rightarrow> Inl WildPointer | Block b \<Rightarrow> Inr (s\<lparr>prev_of := (prev_of s)(b := v)\<rparr>))"

definition store_next :: "ptr \<Rightarrow> ptr \<Rightarrow> pool \<Rightarrow> fault + pool" where
  "store_next p v s = (case p of Null \<Rightarrow> Inl NullDeref | Junk \<Rightarrow> Inl WildPointer | Block b \<Rightarrow> Inr (s\<lparr>next_of := (next_of s)(b := v)\<rparr>))"

definition unless_null :: "ptr \<Rightarrow> (pool \<Rightarrow> fault + pool) \<Rightarrow> pool \<Rightarrow> fault + pool" where
  "unless_null p f s = (if p = Null then Inr s else f s)"

text \<open>The private \<open>Allocate(Block*, size_t&)\<close>, for a block that is not null.\<close>

definition Allocate_block :: "nat \<Rightarrow> pool \<Rightarrow> fault + pool" where
  "Allocate_block b s =
     bindE (if Block b = free_head s
            then bindE (unless_null (next_of s b) (store_prev (next_of s b) Null) s)
                   (\<lambda>s. Inr (s\<lparr>free_head := next_of s b\<rparr>))
            else Inr s) (\<lambda>s.
     bindE (unless_null (allocated_head s) (store_prev (allocated_head s) (Block b)) s) (\<lambda>s.
       Inr (s\<lparr>next_of := (next_of s)(b := allocated_head s), allocated_head := Block b\<rparr>)))"

text \<open>
  \<open>Allocate\<close>: the first free block, or a new one at \<open>m\<close>, whose \<open>prev\<close> and \<open>next\<close> fields hold
  \<open>junk\<close>; the caller gets the size left and the address after the two pointers.
\<close>

definition Allocate :: "nat option \<Rightarrow> ptr \<Rightarrow> pool \<Rightarrow> fault + (nat \<times> nat \<times> pool)" where
  "Allocate m junk s =
     (case free_head s of
        Block b \<Rightarrow> bindE (Allocate_block b s) (\<lambda>t. Inr (max_size t - block_size, b + block_size, t))
      | Junk \<Rightarrow> Inl WildPointer
      | Null \<Rightarrow> (case m of
          None \<Rightarrow> Inl NullDeref
        | Some b \<Rightarrow> bindE (Allocate_block b (s\<lparr>prev_of := (prev_of s)(b := junk), next_of := (next_of s)(b := junk)\<rparr>))
                      (\<lambda>t. Inr (max_size t - block_size, b + block_size, t))))"

text \<open>The private \<open>Free(Block*)\<close> and the public one.\<close>

definition Free_block :: "nat \<Rightarrow> pool \<Rightarrow> fault + pool" where
  "Free_block b s =
     bindE (if Block b = allocated_head s
            then bindE (unless_null (next_of s b) (store_prev (next_of s b) Null) s)
                   (\<lambda>s. Inr (s\<lparr>allocated_head := next_of s b\<rparr>))
            else Inr s) (\<lambda>s.
     bindE (unless_null (next_of s b) (store_prev (next_of s b) (prev_of s b)) s) (\<lambda>s.
     bindE (unless_null (prev_of s b) (store_next (prev_of s b) (next_of s b)) s) (\<lambda>s.
     let s1 = s\<lparr>prev_of := (prev_of s)(b := Null), next_of := (next_of s)(b := free_head s)\<rparr>
     in bindE (unless_null (free_head s1) (store_prev (free_head s1) (Block b)) s1) (\<lambda>s.
          Inr (s\<lparr>free_head := Block b\<rparr>)))))"

definition Free :: "nat option \<Rightarrow> pool \<Rightarrow> fault + pool" where
  "Free p s = (case p of None \<Rightarrow> Inr s | Some a \<Rightarrow> Free_block (a - block_size) s)"

text \<open>The destructor frees every block on a list; \<open>n\<close> bounds the walk.\<close>

fun FreeBlock :: "nat \<Rightarrow> pool \<Rightarrow> ptr \<Rightarrow> (fault + nat list) option" where
  "FreeBlock n s Null = Some (Inr [])"
| "FreeBlock n s Junk = Some (Inl WildPointer)"
| "FreeBlock 0 s (Block b) = None"
| "FreeBlock (Suc n) s (Block b) = map_option (map_sum id (\<lambda>bs. b # bs)) (FreeBlock n s (next_of s b))"

section \<open>Doubly linked lists\<close>

text \<open>The blocks \<open>xs\<close>, the first pointing back to \<open>p\<close>, the last pointing on to \<open>e\<close>.\<close>

definition headp :: "nat list \<Rightarrow> ptr \<Rightarrow> ptr" where
  "headp xs e = (case xs of [] \<Rightarrow> e | x # _ \<Rightarrow> Block x)"

definition lastp :: "ptr \<Rightarrow> nat list \<Rightarrow> ptr" where
  "lastp p xs = (if xs = [] then p else Block (last xs))"

lemma headp_simps [simp]: "headp [] e = e" "headp (x # xs) e = Block x"
  by (simp_all add: headp_def)

lemma lastp_simps [simp]: "lastp p [] = p" "lastp p [x] = Block x" "lastp p (xs @ [x]) = Block x" "lastp p (y # xs @ [x]) = Block x"
  by (simp_all add: lastp_def)

fun seg :: "(nat \<Rightarrow> ptr) \<Rightarrow> (nat \<Rightarrow> ptr) \<Rightarrow> ptr \<Rightarrow> nat list \<Rightarrow> ptr \<Rightarrow> bool" where
  "seg P N p [] e = True"
| "seg P N p (x # xs) e = (P x = p \<and> N x = headp xs e \<and> seg P N (Block x) xs e)"

lemma headp_append: "headp (xs @ ys) e = headp xs (headp ys e)"
  by (cases xs) simp_all

lemma seg_append: "seg P N p (xs @ ys) e \<longleftrightarrow> seg P N p xs (headp ys e) \<and> seg P N (lastp p xs) ys e"
  by (induction xs arbitrary: p) (auto simp: headp_append lastp_def)

lemma seg_upd [simp]: "b \<notin> set xs \<Longrightarrow> seg (P(b := v)) N p xs e = seg P N p xs e"
  "b \<notin> set xs \<Longrightarrow> seg P (N(b := v)) p xs e = seg P N p xs e"
  by (induction xs arbitrary: p) auto

lemma seg_first: "seg P N p (x # xs) e \<Longrightarrow> x \<notin> set xs \<Longrightarrow> seg (P(x := q)) N q (x # xs) e"
  by simp

lemma seg_last: "seg P N p (xs @ [x]) e \<Longrightarrow> x \<notin> set xs \<Longrightarrow> seg P (N(x := q)) p (xs @ [x]) q"
  by (auto simp: seg_append)

text \<open>The pool holds the free blocks \<open>fl\<close> and the blocks handed out \<open>al\<close>, latest first.\<close>

definition pool_rep :: "pool \<Rightarrow> nat list \<Rightarrow> nat list \<Rightarrow> bool" where
  "pool_rep s fl al \<longleftrightarrow> free_head s = headp fl Null \<and> allocated_head s = headp al Null
     \<and> seg (prev_of s) (next_of s) Null fl Null \<and> seg (prev_of s) (next_of s) Null al Null \<and> distinct (fl @ al)"

lemma pool_rep_new: "pool_rep (new_pool sz) [] []"
  by (simp add: pool_rep_def new_pool_def)

lemma pool_rep_reuse:
  assumes "pool_rep s (b # fl) al"
  shows "\<exists>t. Allocate_block b s = Inr t \<and> pool_rep t fl (b # al) \<and> max_size t = max_size s"
  using assms
  by (cases fl; cases al) (auto simp: pool_rep_def Allocate_block_def unless_null_def store_prev_def)

lemma pool_rep_fresh:
  assumes "pool_rep s [] al" "b \<notin> set al"
  shows "\<exists>t. Allocate_block b (s\<lparr>prev_of := (prev_of s)(b := Null), next_of := (next_of s)(b := j)\<rparr>) = Inr t
    \<and> pool_rep t [] (b # al) \<and> max_size t = max_size s"
  using assms
  by (cases al) (auto simp: pool_rep_def Allocate_block_def unless_null_def store_prev_def)

lemma pool_rep_free:
  assumes "pool_rep s fl (xs @ b # ys)"
  shows "\<exists>t. Free_block b s = Inr t \<and> pool_rep t (b # fl) (xs @ ys) \<and> max_size t = max_size s"
proof -
  have d: "distinct (fl @ xs @ b # ys)" and h: "free_head s = headp fl Null" "allocated_head s = headp (xs @ b # ys) Null"
    and sg: "seg (prev_of s) (next_of s) Null fl Null" "seg (prev_of s) (next_of s) Null xs (Block b)"
      "prev_of s b = lastp Null xs" "next_of s b = headp ys Null" "seg (prev_of s) (next_of s) (Block b) ys Null"
    using assms by (auto simp: pool_rep_def seg_append)
  show ?thesis
  proof (cases xs rule: rev_cases)
    case Nil
    then show ?thesis using d h sg
      by (cases ys; cases fl) (auto simp: pool_rep_def Free_block_def unless_null_def store_prev_def store_next_def Let_def)
  next
    case (snoc zs z)
    have "headp (xs @ b # ys) Null \<noteq> Block b" using d snoc by (cases zs) auto
    then show ?thesis using d h sg snoc
      by (cases ys; cases fl; cases zs)
        (auto simp: pool_rep_def Free_block_def unless_null_def store_prev_def store_next_def Let_def seg_append headp_append)
  qed
qed

lemma FreeBlock_seg:
  "seg (prev_of s) (next_of s) p xs Null \<Longrightarrow> length xs \<le> n \<Longrightarrow> FreeBlock n s (headp xs Null) = Some (Inr xs)"
proof (induction xs arbitrary: p n)
  case (Cons x xs)
  then show ?case by (cases n) auto
qed simp

lemma Free_block_member:
  assumes "pool_rep s fl al" "b \<in> set al"
  shows "\<exists>t. Free_block b s = Inr t \<and> pool_rep t (b # fl) (remove1 b al) \<and> max_size t = max_size s"
proof -
  obtain xs ys where al: "al = xs @ b # ys" "b \<notin> set xs" using split_list_first [OF assms(2)] by blast
  then have "remove1 b al = xs @ ys" by (simp add: remove1_append)
  with pool_rep_free [of s fl xs b ys] assms(1) al show ?thesis by simp
qed

text \<open>
  C36: as long as the memory \<open>malloc\<close> returns has a null pointer where the block's \<open>prev\<close> will be, as
  zeroed memory has, the pool is a pair of lists: allocating takes the block freed last or a new
  one and never one that is out, freeing a block that is out, in any order, takes exactly it back,
  the caller gets the same address and size each time, and the destructor frees every block once.
  The code never writes that pointer of a new block; \<open>memory_pool_wild\<close> has what it does when it
  holds something else.
\<close>

theorem memory_pool_lists:
  assumes "pool_rep s fl al" "m \<notin> set al" "b \<in> set al"
  shows "(\<exists>t. Allocate (Some m) Null s = Inr (max_size s - block_size, (if fl = [] then m else hd fl) + block_size, t)
        \<and> pool_rep t (tl fl) ((if fl = [] then m else hd fl) # al))
    \<and> (\<exists>t. Free (Some (b + block_size)) s = Inr t \<and> pool_rep t (b # fl) (remove1 b al))
    \<and> FreeBlock (length fl) s (free_head s) = Some (Inr fl) \<and> FreeBlock (length al) s (allocated_head s) = Some (Inr al)
    \<and> distinct (fl @ al)"
proof -
  have "\<exists>t. Allocate (Some m) Null s = Inr (max_size s - block_size, (if fl = [] then m else hd fl) + block_size, t)
        \<and> pool_rep t (tl fl) ((if fl = [] then m else hd fl) # al)"
  proof (cases fl)
    case Nil
    with assms(1) pool_rep_fresh [of s al m Null] assms(2) show ?thesis by (auto simp: Allocate_def pool_rep_def [of s])
  next
    case (Cons x xs)
    with assms(1) pool_rep_reuse [of s x xs al] show ?thesis by (auto simp: Allocate_def pool_rep_def [of s])
  qed
  moreover have "\<exists>t. Free (Some (b + block_size)) s = Inr t \<and> pool_rep t (b # fl) (remove1 b al)"
    using Free_block_member [OF assms(1,3)] by (auto simp: Free_def)
  moreover have "free_head s = headp fl Null" "allocated_head s = headp al Null" "distinct (fl @ al)"
    "seg (prev_of s) (next_of s) Null fl Null" "seg (prev_of s) (next_of s) Null al Null"
    using assms(1) by (simp_all add: pool_rep_def)
  ultimately show ?thesis using FreeBlock_seg by simp
qed

theorem memory_pool_lists_witness:
  "\<exists>s t. pool_rep s [] [4] \<and> Free (Some 20) s = Inr t \<and> pool_rep t [4] []"
proof -
  obtain s where s: "pool_rep s [] [4]" using pool_rep_fresh [OF pool_rep_new, of 4] by auto
  from memory_pool_lists [OF s, of 5 4] s show ?thesis by (auto simp: block_size_def)
qed

text \<open>
  Where new memory holds anything else, freeing the block allocated last follows a pointer
  nobody stored: \<open>Allocate\<close> leaves the \<open>prev\<close> field of a new block as it found it.
\<close>

theorem memory_pool_wild:
  assumes "pool_rep s [] al" "m \<notin> set al"
  shows "\<exists>n p t. Allocate (Some m) Junk s = Inr (n, p, t) \<and> Free (Some p) t = Inl WildPointer"
  using assms
  by (cases al) (auto simp: pool_rep_def Allocate_def Allocate_block_def Free_def Free_block_def unless_null_def
      store_prev_def store_next_def)

theorem memory_pool_wild_witness:
  "\<exists>n p t. Allocate (Some 4) Junk (new_pool 64) = Inr (n, p, t) \<and> Free (Some p) t = Inl WildPointer"
  using memory_pool_wild [OF pool_rep_new, of 4 64] by simp

end
