(* ===== verification/Spec2Isabelle.thy ===== *)
theory Spec2Isabelle
  imports Urls ForwarderProps ConfigRoundtrip HttpClients ProcessOutcomes ProcessEnvs ProxyFlows SystemProgress Shutdowns
    ProcessManagerVerdicts ProcessManagerSleep TcpRequests LoggerThreads ConnectTimes Handles Nexers MemoryPools
begin

text \<open>
  A verification development for nexer, a TCP proxy that starts the programs behind it on
  demand. All sources are under \<open>src/src\<close> and \<open>src/include\<close>; file names below are relative to
  those two directories.

  The program. \<open>main.cc\<close> reads a configuration (\<open>config.cc\<close>) and starts a \<open>Nexer\<close>
  (\<open>nexer.cc\<close>): an HTTP admin server (\<open>http_server.cc\<close>, \<open>http_message.cc\<close>), one \<open>TcpProxy\<close>
  (\<open>tcp_proxy.cc\<close>) for each proxy of the configuration, and dummy servers for testing. A proxy
  is a \<open>TcpServer\<close> (\<open>tcp_server.cc\<close>). For each client it makes a \<open>TcpForwarder\<close>
  (\<open>tcp_forwarder.cc\<close>), asks the \<open>ProcessManager\<close> (\<open>process_manager.cc\<close>) for the upstream's
  app, which runs checks and starts the app and its preambles as \<open>Process\<close> objects
  (\<open>process.cc\<close>), connects to the upstream (\<open>TcpClient::Connect\<close> in \<open>tcp_client.cc\<close>, driven by
  a \<open>Timer\<close>, \<open>timer.cc\<close>), and hands the connection to the forwarder, which copies bytes both
  ways until either side closes. Everything runs in one libuv loop (\<open>event_loop.cc\<close>); objects
  publish their events through listener lists (\<open>function_list.h\<close>) and are deleted by the close
  callback of their handle (\<open>handle.cc\<close>). The logger (\<open>logger.cc\<close>), the URL utilities
  (\<open>url.cc\<close>), the string buffer (\<open>string_buffer.h\<close>), an HTTP client (\<open>http_client.cc\<close>), a
  memory pool (\<open>memory_pool.h\<close>), a UDP server and a thread pool wrapper (\<open>udp_server.cc\<close>,
  \<open>async_work.cc\<close>) stand beside it.

  How it is modelled. Objects are records; a method is a function of the record that returns
  it updated. What C++ leaves undefined is a value of the type \<open>fault\<close>: a null pointer that is
  used, an object used after its deletion, an iterator that was invalidated, a pointer that
  points nowhere, an assertion that fails. Every handler has the type \<open>fault + state\<close>, so that
  the absence of faults is a theorem and a reachable fault is one too. What libuv does is not
  code of the repository: an event-driven component has a datatype of the callbacks libuv may
  make and the calls its users may make, a predicate (\<open>allowed\<close>, \<open>pallowed\<close>, \<open>tallowed\<close>, \<open>rq_allowed\<close>,
  \<open>proxy_allowed\<close>, \<open>pm_allowed\<close>) that says what libuv documents about when it makes them, and a
  step relation; properties hold in all states that \<open>reach\<close> or \<open>run\<close> (in \<open>Prelude\<close>) lead to.
  Status codes that libuv returns are arguments of the events. Integers are \<open>int\<close> where the
  code does not rely on their width; the millisecond clock is a \<open>64 word\<close>, exit codes are
  narrowed by \<open>int_of_int64\<close>, and \<open>Reserve\<close> writes out the wrap-around of \<open>size_t\<close>.
\<close>

section \<open>The theories\<close>

text \<open>
  \<open>Prelude\<close>: bytes and C strings, decimal notation, faults, \<open>reach\<close> and \<open>run\<close>, and the
  contract \<open>invariant_system\<close> that every state machine interprets.

  \<open>FunctionLists\<close> (\<open>function_list.h\<close>): \<open>Add\<close>, the \<open>Remove\<close> closure and \<open>Invoke\<close>, which walks
  the live list while listeners change it. A closure removes its own listener and no other,
  whatever happened in between; a walk calls the listeners in order. \<open>Handles\<close> (\<open>handle.h\<close>,
  \<open>handle.cc\<close>): the base class of what libuv knows, whose close callback runs the close
  listeners, those added meanwhile too, and frees the data once before the object goes; the
  close callbacks of \<open>TcpConnects\<close> are shown to be this one.

  \<open>Forwarder\<close> (\<open>tcp_forwarder.cc\<close>, and of \<open>tcp_client.cc\<close> and \<open>handle.cc\<close> the callbacks that
  drive it): two clients, four buffers behind pointers that may be aliased, \<open>Swap\<close>, the four
  listeners, \<open>SetOutgoing\<close>. \<open>ForwarderInv\<close> has the invariant for two connections,
  \<open>ForwarderEcho\<close> that for one connection forwarded to itself, \<open>ForwarderProps\<close> the
  properties: no fault, FIFO without loss or duplication, writes in flight undisturbed,
  nothing stalls, closing propagates and deletes once.

  \<open>TcpProxies\<close> (\<open>tcp_proxy.cc\<close>): the connection listener with its two continuations over
  forwarders as objects at addresses. \<open>ProxyForwarders\<close> shows by simulation that the detailed
  forwarder behaves as the proxy's view of it says. \<open>ProxyFlows\<close> runs the proxy with the
  detailed forwarders of all its clients at once: what each client and its upstream get of
  each other's bytes. \<open>Shutdowns\<close> closes the proxy object while
  it has connections: which later events use the deleted object, and when none can.

  \<open>TcpConnects\<close> (\<open>tcp_client.cc\<close>, \<open>handle.cc\<close>): resolving, connecting, the retry loop of the
  static \<open>Connect\<close>; \<open>then\<close> is called once in every run, in runs that are orderly.
  \<open>TcpRequests\<close> follows the memory of the same methods and of reading and writing: which block
  is allocated where, who holds it, and that it is freed once.
  \<open>ConnectTimes\<close> drives the loop by the timer's own filter and the time of day: what becomes of
  timeouts of up to 500 ms and of negative ones.

  \<open>Systems\<close> puts proxies, the process manager and the connectors together: an accepted
  connection is a callback of the manager, its answer runs the proxy's continuation, which
  starts a connector, whose result runs the second one. The invariant \<open>sys_inv\<close> ties a
  connection's stage to the manager's waiting callbacks and to its connector, and is kept while
  answers are still on their way. \<open>SystemProps\<close>: every part of a run of the system is a run of
  that component, so that what its theory assumes of its callers holds here, and each
  connection is where its callback is; an executable form of the steps runs a sample
  configuration. \<open>SystemProgress\<close> carries \<open>ProcessManagerLiveness\<close> over: no connection is left
  hanging.

  \<open>Processes\<close> (\<open>process.cc\<close>): a child process from \<open>Create\<close> to its deletion, with what libuv
  holds of it. \<open>ProcessManagers\<close> (\<open>process_manager.cc\<close>, \<open>then.h\<close>): \<open>Require\<close>, \<open>Check\<close>,
  \<open>CheckPreamble\<close>, \<open>Start\<close>, \<open>ClearCallbacks\<close> and their closures, which are data. The contract
  \<open>call_relation\<close> (\<open>ProcessManagerProps\<close>) carries a relation from the bodies of the methods to
  all nested calls; it is interpreted for the process pointers, for the answers
  clients get (\<open>ProcessManagerAnswers\<close>), and for what waits on what
  (\<open>ProcessManagerTermination\<close>). \<open>ProcessManagerClaims\<close> has the properties of whole runs, and
  runs that go wrong. \<open>ProcessManagerLiveness\<close> interprets \<open>call_relation\<close> a fourth time, for what
  somebody who waits can count on: something is always under way that leads to the answer, when
  preambles are acyclic, no start fails in \<open>uv_pipe_init\<close>, and no app killed
  to be restarted ends with status 0. \<open>ProcessManagerSleep\<close> interprets it a fifth time, for apps
  that are asleep for good, whatever else happens: those whose preambles form a cycle, and an app
  that was killed to be restarted and ended with status 0. \<open>ProcessManagerVerdicts\<close> says what
  the clients are told: the event that settles an app gives its own status to all who wait.
  \<open>ProcessOutcomes\<close> shows that the outcome of a start the manager works with is what the
  detailed process does. \<open>ProcessEnvs\<close> joins processes and string buffers: how
  \<open>InitEnv\<close> copies the parent's environment, and what comes of it when the buffer cannot grow.

  \<open>Configs\<close> (\<open>config.cc\<close>, \<open>config.h\<close>): every method of the parser over the value tree of the
  jsini library. \<open>ConfigProps\<close>: which trees are accepted (a schema of what this parser takes, since
  the repository documents none; two configurations of its own tests are not), that app pointers of the
  result are valid and every name denotes one app, that each rejection is logged.
  \<open>ConfigRoundtrip\<close>: printing a configuration and parsing it gives it back.

  \<open>Urls\<close> (\<open>url.cc\<close>), \<open>Loggers\<close> (\<open>logger.cc\<close>), \<open>StringBuffers\<close> (\<open>string_buffer.h\<close>): decoding
  inverts encoding, printing a URL and parsing it gives it back, the query loop splits at
  \<open>&\<close> and \<open>=\<close>; the 4096-byte log line with its truncation; appending as list append, the
  \<open>vprintf\<close> loop ends, a saved file is loaded back. \<open>LoggerThreads\<close> has several threads in the
  logger at once, statement by statement: their lines do not mix, their times may.

  \<open>HttpMessages\<close> (\<open>http_message.cc\<close>, \<open>http_server.cc\<close>): the callbacks of the HTTP parser on a
  request, its reset, the response and what it puts on the wire. \<open>HttpClients\<close>
  (\<open>http_client.cc\<close>): options, callbacks, \<open>Get\<close>.

  \<open>Timers\<close> (\<open>timer.cc\<close>), \<open>Servers\<close> (\<open>tcp_server.cc\<close>, \<open>udp_server.cc\<close>, \<open>event_loop.cc\<close>,
  \<open>async_work.cc\<close>), \<open>Nexers\<close> (\<open>nexer.cc\<close>, \<open>main.cc\<close>: what is started, the dummy servers, the
  admin requests, those that come in after the admin server is gone included), \<open>MemoryPools\<close>
  (\<open>memory_pool.h\<close>, its doubly linked lists as a heap of pointers).
\<close>

section \<open>Bounds, fuel and hypotheses\<close>

text \<open>
  \<open>walk\<close> and \<open>Invoke\<close> take fuel because a listener may add another one each time it is called;
  for listeners that leave the list alone the length of the list is enough
  (\<open>Invoke_quiet\<close>). \<open>FreeBlock\<close> takes fuel because the pointers may be cyclic; the length of
  the list is enough when they are not.

  The methods of the process manager run on fuel, \<open>pm_run n\<close> allowing \<open>n\<close> levels of nested
  calls. More fuel never changes an outcome, a step of a run is one that ends with some fuel,
  and \<open>process_manager_ends\<close> shows that for preambles without cycles, in every state a run
  leads to, every event ends, with all fuel from some point on; \<open>cyclic_preambles\<close> shows what
  happens with a cycle. \<open>vprintf\<close> is a partial function, total by \<open>printf_returns\<close>.

  Hypotheses about what is outside the repository are predicates: \<open>spawn_errors\<close> (a start that
  fails does so with an error other than 0, which \<open>ProcessOutcomes\<close> derives from the process),
  \<open>porderly\<close> (the pipes of a process are closed before its handle), \<open>torderly\<close> and \<open>rq_orderly\<close> (a client is
  not closed while its name is being resolved, and the resolver takes its request), \<open>proxy_orderly\<close> (a new
  forwarder is not put at an address whose closures still wait). Apart from the first these are not
  promised by libuv or the allocator: each has a theorem that shows what the code does without
  it (\<open>process_close_race\<close>, \<open>connect_faults\<close>, \<open>resolve_after_close\<close>, \<open>proxy_address_reuse\<close>). \<open>restarts_ok\<close> (a process
  killed to be restarted does not end with status 0) goes with \<open>graceful_exit_strands\<close>, and
  \<open>acyclic_env\<close> (acyclic preambles, and no start of a process that fails in \<open>uv_pipe_init\<close>, so that
  its exit is reported before \<open>Start\<close> returns) with \<open>cyclic_preambles\<close> and \<open>check_flag_stuck\<close>, in
  the same way. \<open>config_spec_ok\<close> leaves out the settings that \<open>config_settings_lost\<close> shows lost,
  \<open>header_full\<close> the empty header values of \<open>empty_value_merges\<close>; \<open>memory_pool_lists\<close> is about new
  memory with a null pointer where the block's \<open>prev\<close> is, \<open>memory_pool_wild\<close> about other memory. Every property
  names the conditions it takes in the text before it. The composed system takes its components' steps within these predicates, and a
  manager's step as one that ends with some fuel. \<open>forward\<close> says that the time of day does not
  run backwards during a \<open>Connect\<close>; \<open>timer_elapsed\<close> shows what the timer does when it does.

  Functions of the outside are arguments: \<open>uv_loop_close\<close> of the handles a loop has (it
  succeeds exactly when there are none, which libuv documents), \<open>alloc\<close> (which sizes \<open>realloc\<close>
  grants), the environment of the parent as names and values (\<open>env_ok\<close>: C strings that fit
  the buffer), the reason phrase of a status.
\<close>

section \<open>Not modelled\<close>

text \<open>
  libuv, llhttp, jsini, libcurl and the C library are arguments and events, as said above.
  The text of log messages and the format of time stamps are left out; outside
  \<open>LoggerThreads\<close> a call of the logger is one step. Left out are also the destructors that only
  free memory, the factories that only call \<open>new\<close>, most accessors, the listener \<open>on_try\<close> of
  \<open>TcpClient::Connect\<close> (nothing in the sources gives one) and \<open>non_copyable.h\<close>. The event loop
  is its constructor, its close and its run calls. The test programs under \<open>src/test\<close>, the build
  file and the sample configuration have no behaviour of the program.
\<close>

end
